(* ===== verification/Prelude.thy ===== *)
theory Prelude
  imports Complex_Main "HOL-Library.Char_ord" "HOL-Library.List_Lexorder"
begin

text \<open>
  Shared vocabulary of the development: the exceptions of \<^verbatim>\<open>src/src/kernel/exceptions.h\<close>
  as a datatype, results as sums, a bind for the explicit error plumbing of the C++ code, and the
  generic list facts several components need.  Three fact collections carry the component proofs:
  \<open>result_simps\<close> (unfolding of the error plumbing), \<open>inv_intros\<close> (preservation of invariants) and
  \<open>guard_simps\<close> (the guards of public operations).
\<close>

named_theorems result_simps "unfolding of the error plumbing"
named_theorems inv_intros "operations preserve the invariants"
named_theorems guard_simps "guards at the head of public operations"

section \<open>Exceptions and results\<close>

text \<open>The exception classes the modelled code throws (the texts they carry are for the log only).\<close>

datatype exn =
    PDFedit_devException
  | MalformedFormatExeption
  | PermissionException
  | NotImplementedException
  | ReadOnlyDocumentException
  | ElementBadTypeException
  | ElementNotFoundException
  | IndirectObjectsExhausted
  | IndirectObjectNotFoundException
  | OutOfRange
  | PageNotFoundException nat
  | AmbiguousPageTreeException
  | NoPageRootException
  | CObjBadValue
  | CObjInvalidObject
  | CObjInvalidOperation
  | NotLinearizedException
  | IteratorInvalidObjectException
  | UndefinedBehaviour

text \<open>
  \<open>UndefinedBehaviour\<close> stands for executions the C++ standard gives no meaning to (reading an
  array out of its bounds, dereferencing an expired pointer); a theorem that excludes it says the
  code never gets there.
\<close>

type_synonym 'a result = "exn + 'a"

definition rbind :: "'a result \<Rightarrow> ('a \<Rightarrow> 'b result) \<Rightarrow> 'b result" where
  "rbind r f = (case r of Inl e \<Rightarrow> Inl e | Inr x \<Rightarrow> f x)"

definition guard :: "bool \<Rightarrow> exn \<Rightarrow> 'a result \<Rightarrow> 'a result" where
  "guard bad e k = (if bad then Inl e else k)"

lemma rbind_simps [simp, result_simps]:
  "rbind (Inl e) f = Inl e"
  "rbind (Inr x) f = f x"
  by (simp_all add: rbind_def)

lemma rbind_Inr_iff: "rbind r f = Inr y \<longleftrightarrow> (\<exists>x. r = Inr x \<and> f x = Inr y)"
  by (cases r) simp_all

lemma rbind_Inl_iff:
  "rbind r f = Inl e \<longleftrightarrow> r = Inl e \<or> (\<exists>x. r = Inr x \<and> f x = Inl e)"
  by (cases r) simp_all

lemma rbind_assoc: "rbind (rbind r f) g = rbind r (\<lambda>x. rbind (f x) g)"
  by (cases r) simp_all

lemma guard_simps_tf [simp, result_simps]:
  "guard True e k = Inl e"
  "guard False e k = k"
  by (simp_all add: guard_def)

lemma guard_Inr_iff [guard_simps]: "guard bad e k = Inr x \<longleftrightarrow> \<not> bad \<and> k = Inr x"
  by (simp add: guard_def)

lemma guard_Inl_iff [guard_simps]:
  "guard bad e k = Inl e' \<longleftrightarrow> (bad \<and> e' = e) \<or> (\<not> bad \<and> k = Inl e')"
  by (auto simp: guard_def)

text \<open>Congruence rules, so that recursion under the plumbing keeps its context.\<close>

lemma rbind_cong [fundef_cong]:
  "r = r' \<Longrightarrow> (\<And>x. r' = Inr x \<Longrightarrow> f x = f' x) \<Longrightarrow> rbind r f = rbind r' f'"
  by (cases r') simp_all

lemma guard_cong [fundef_cong]:
  "b = b' \<Longrightarrow> (\<not> b' \<Longrightarrow> k = k') \<Longrightarrow> guard b e k = guard b' e k'"
  by (simp add: guard_def)

section \<open>Lists\<close>

text \<open>\<open>replicate_char n c\<close> pads, as \<^verbatim>\<open>printf\<close> does for a field width.\<close>

definition pad_left :: "nat \<Rightarrow> char \<Rightarrow> string \<Rightarrow> string" where
  "pad_left w c s = replicate (w - length s) c @ s"

lemma length_pad_left [simp]: "length (pad_left w c s) = max w (length s)"
  by (simp add: pad_left_def)

lemma pad_left_long: "w \<le> length s \<Longrightarrow> pad_left w c s = s"
  by (simp add: pad_left_def)

fun find_index :: "('a \<Rightarrow> bool) \<Rightarrow> 'a list \<Rightarrow> nat option" where
  "find_index p [] = None"
| "find_index p (x # xs) = (if p x then Some 0 else map_option Suc (find_index p xs))"

lemma find_index_Some:
  "find_index p xs = Some i \<Longrightarrow> i < length xs \<and> p (xs ! i) \<and> (\<forall>j<i. \<not> p (xs ! j))"
  by (induction xs arbitrary: i) (auto simp: less_Suc_eq_0_disj split: if_splits)

lemma find_index_None: "find_index p xs = None \<longleftrightarrow> (\<forall>x\<in>set xs. \<not> p x)"
  by (induction xs) auto

section \<open>Decimal numerals\<close>

text \<open>
  \<^verbatim>\<open>%u\<close> and \<^verbatim>\<open>%d\<close> of \<^verbatim>\<open>printf\<close>, and \<^verbatim>\<open>operator<<\<close> of an \<^verbatim>\<open>ostream\<close>, print an
  integer in base ten.
\<close>

definition digit_char :: "nat \<Rightarrow> char" where
  "digit_char d = char_of (48 + d)"

fun show_nat :: "nat \<Rightarrow> string" where
  "show_nat n = (if n < 10 then [digit_char n] else show_nat (n div 10) @ [digit_char (n mod 10)])"

declare show_nat.simps [simp del]

definition show_int :: "int \<Rightarrow> string" where
  "show_int i = (if i < 0 then CHR ''-'' # show_nat (nat (- i)) else show_nat (nat i))"

definition digit_value :: "char \<Rightarrow> nat option" where
  "digit_value c = (let k = of_char c in if 48 \<le> k \<and> k \<le> (57::nat) then Some (k - 48) else None)"

text \<open>Reading digits back, most significant first, as \<^verbatim>\<open>istream >> int\<close> does.\<close>

fun read_digits :: "nat \<Rightarrow> string \<Rightarrow> nat \<times> string" where
  "read_digits acc [] = (acc, [])"
| "read_digits acc (c # cs) =
     (case digit_value c of None \<Rightarrow> (acc, c # cs) | Some d \<Rightarrow> read_digits (10 * acc + d) cs)"

lemma digit_value_digit_char [simp]: "d < 10 \<Longrightarrow> digit_value (digit_char d) = Some d"
  by (simp add: digit_value_def digit_char_def of_char_of)

lemma digit_char_simps:
  "digit_char 0 = CHR ''0''" "digit_char (Suc 0) = CHR ''1''" "digit_char 1 = CHR ''1''"
  "digit_char 2 = CHR ''2''" "digit_char 3 = CHR ''3''" "digit_char 4 = CHR ''4''"
  "digit_char 5 = CHR ''5''" "digit_char 6 = CHR ''6''" "digit_char 7 = CHR ''7''"
  "digit_char 8 = CHR ''8''" "digit_char 9 = CHR ''9''"
  by code_simp+

lemma show_nat_nonempty [simp]: "show_nat n \<noteq> []"
  by (subst show_nat.simps) simp

lemma read_digits_show_nat_acc:
  "read_digits acc (show_nat n @ cs) = read_digits (acc * 10 ^ length (show_nat n) + n) cs"
proof (induction n arbitrary: acc cs rule: show_nat.induct)
  case (1 n)
  show ?case
  proof (cases "n < 10")
    case True
    then show ?thesis by (simp add: show_nat.simps [of n] mult.commute)
  next
    case False
    have "read_digits acc (show_nat n @ cs)
        = read_digits (acc * 10 ^ length (show_nat (n div 10)) + n div 10) (digit_char (n mod 10) # cs)"
      using 1 [OF False] False by (simp add: show_nat.simps [of n])
    also have "\<dots> = read_digits (acc * 10 ^ length (show_nat n) + n) cs"
      using False by (simp add: show_nat.simps [of n] algebra_simps)
    finally show ?thesis .
  qed
qed

lemma read_digits_show_nat:
  assumes "case cs of [] \<Rightarrow> True | c # _ \<Rightarrow> digit_value c = None"
  shows "read_digits 0 (show_nat n @ cs) = (n, cs)"
  using assms read_digits_show_nat_acc [of 0 n "[]"]
  by (cases cs) (simp_all add: read_digits_show_nat_acc)

lemma show_nat_digits: "set (show_nat n) \<subseteq> digit_char ` {..<10}"
proof (induction n rule: show_nat.induct)
  case (1 n)
  show ?case
  proof (cases "n < 10")
    case True
    then show ?thesis by (simp add: show_nat.simps [of n])
  next
    case False
    with 1 show ?thesis by (auto simp: show_nat.simps [of n])
  qed
qed

lemma length_show_nat_le: "n < 10 ^ k \<Longrightarrow> 0 < k \<Longrightarrow> length (show_nat n) \<le> k"
proof (induction n arbitrary: k rule: show_nat.induct)
  case (1 n)
  show ?case
  proof (cases "n < 10")
    case True
    with "1.prems" show ?thesis by (simp add: show_nat.simps [of n])
  next
    case False
    with "1.prems" obtain j where j: "k = Suc j" "0 < j"
      by (cases k; cases "k - 1") auto
    with "1.prems" have "n div 10 < 10 ^ j" by (simp add: less_mult_imp_div_less mult.commute)
    with 1 False j have "length (show_nat (n div 10)) \<le> j" by blast
    with False j show ?thesis by (simp add: show_nat.simps [of n])
  qed
qed

end
