(* ===== verification/Object_Storage.thy ===== *)
theory Object_Storage
  imports Prelude
begin

text \<open>
  \<^verbatim>\<open>src/src/utils/objectstorage.h\<close>: the template \<^verbatim>\<open>ObjectStorage\<close> over \<^verbatim>\<open>std::map\<close>, and the
  indirect references used as its keys (\<^verbatim>\<open>Ref\<close>, ordered by \<^verbatim>\<open>RefComparator\<close> of
  \<^verbatim>\<open>src/src/kernel/xpdf.h\<close>).  A \<^verbatim>\<open>std::map\<close> is the association list of its nodes in iteration
  order: the keys are strictly increasing (\<open>storage_ok\<close>), lookup is \<open>map_of\<close>.  The locale
  \<open>object_storage\<close> is the contract the cross reference table relies on.
\<close>

section \<open>References\<close>

text \<open>\<^verbatim>\<open>struct Ref { int num; int gen; }\<close>; object and generation number are C \<^verbatim>\<open>int\<close>s.\<close>

datatype ref = Ref (ref_num: int) (ref_gen: int)

text \<open>\<^verbatim>\<open>RefComparator::operator()\<close>: by number, then by generation.\<close>

definition ref_less :: "ref \<Rightarrow> ref \<Rightarrow> bool" where
  "ref_less v1 v2 =
     (if ref_num v1 = ref_num v2 then ref_gen v1 < ref_gen v2 else ref_num v1 < ref_num v2)"

instantiation ref :: linorder
begin

definition less_ref :: "ref \<Rightarrow> ref \<Rightarrow> bool" where
  "less_ref v1 v2 = ref_less v1 v2"

definition less_eq_ref :: "ref \<Rightarrow> ref \<Rightarrow> bool" where
  "less_eq_ref v1 v2 = (v1 = v2 \<or> ref_less v1 v2)"

instance
  by intro_classes (auto simp: less_ref_def less_eq_ref_def ref_less_def ref.expand split: if_splits)

end

section \<open>The storage operations\<close>

type_synonym ('k, 'v) storage = "('k \<times> 'v) list"

definition storage_empty :: "('k, 'v) storage" where
  "storage_empty = []"

text \<open>\<^verbatim>\<open>mapping.find(key)\<close>, with \<open>None\<close> for \<^verbatim>\<open>mapping.end()\<close>.\<close>

fun storage_get :: "('k, 'v) storage \<Rightarrow> 'k \<Rightarrow> 'v option" where
  "storage_get [] key = None"
| "storage_get ((k, v) # m) key = (if k = key then Some v else storage_get m key)"

text \<open>Insertion keeps iteration order; an existing association is overwritten in place.\<close>

fun storage_set :: "('k::linorder, 'v) storage \<Rightarrow> 'k \<Rightarrow> 'v \<Rightarrow> ('k, 'v) storage" where
  "storage_set [] key val = [(key, val)]"
| "storage_set ((k, v) # m) key val =
     (if key < k then (key, val) # (k, v) # m
      else if key = k then (k, val) # m
      else (k, v) # storage_set m key val)"

text \<open>\<^verbatim>\<open>put\<close> returns the previous value, or 0 (\<open>None\<close>) for a new key.\<close>

definition storage_put ::
  "('k::linorder, 'v) storage \<Rightarrow> 'k \<Rightarrow> 'v \<Rightarrow> 'v option \<times> ('k, 'v) storage" where
  "storage_put m key val = (storage_get m key, storage_set m key val)"

definition storage_contains :: "('k, 'v) storage \<Rightarrow> 'k \<Rightarrow> bool" where
  "storage_contains m key = (storage_get m key \<noteq> None)"

fun storage_erase :: "('k, 'v) storage \<Rightarrow> 'k \<Rightarrow> ('k, 'v) storage" where
  "storage_erase [] key = []"
| "storage_erase ((k, v) # m) key = (if k = key then m else (k, v) # storage_erase m key)"

definition storage_remove :: "('k, 'v) storage \<Rightarrow> 'k \<Rightarrow> 'v option \<times> ('k, 'v) storage" where
  "storage_remove m key =
     (case storage_get m key of
        None \<Rightarrow> (None, m)
      | Some old \<Rightarrow> (Some old, storage_erase m key))"

definition storage_size :: "('k, 'v) storage \<Rightarrow> nat" where
  "storage_size m = length m"

definition storage_clear :: "('k, 'v) storage \<Rightarrow> ('k, 'v) storage" where
  "storage_clear m = []"

text \<open>Iteration order of \<^verbatim>\<open>std::map\<close>: keys strictly increasing.\<close>

definition storage_ok :: "('k::linorder, 'v) storage \<Rightarrow> bool" where
  "storage_ok m \<longleftrightarrow> sorted_wrt (<) (map fst m)"

section \<open>Laws\<close>

lemma storage_ok_Nil [simp, inv_intros]: "storage_ok []"
  by (simp add: storage_ok_def)

lemma storage_ok_Cons:
  "storage_ok ((k, v) # m) \<longleftrightarrow> (\<forall>k' \<in> fst ` set m. k < k') \<and> storage_ok m"
  by (auto simp: storage_ok_def)

lemma storage_get_map_of: "storage_get m = map_of m"
  by (rule ext, rename_tac k, induct_tac m) auto

lemma storage_get_set [simp]:
  "storage_get (storage_set m key val) = (storage_get m)(key \<mapsto> val)"
  by (induction m key val rule: storage_set.induct) (auto simp: fun_eq_iff)

lemma keys_storage_set: "fst ` set (storage_set m key val) = insert key (fst ` set m)"
  by (induction m key val rule: storage_set.induct) auto

lemma storage_ok_set [inv_intros]: "storage_ok m \<Longrightarrow> storage_ok (storage_set m key val)"
  by (induction m key val rule: storage_set.induct)
    (auto simp: storage_ok_Cons keys_storage_set dest: order.strict_trans)

lemma storage_get_None_iff: "storage_get m k = None \<longleftrightarrow> k \<notin> fst ` set m"
  by (simp add: storage_get_map_of map_of_eq_None_iff)

lemma storage_get_SomeD: "storage_get m k = Some v \<Longrightarrow> (k, v) \<in> set m"
  by (simp add: storage_get_map_of map_of_SomeD)

lemma storage_ok_distinct: "storage_ok m \<Longrightarrow> distinct (map fst m)"
  by (simp add: storage_ok_def strict_sorted_iff)

lemma storage_get_iff: "storage_ok m \<Longrightarrow> storage_get m k = Some v \<longleftrightarrow> (k, v) \<in> set m"
  by (simp add: storage_get_map_of storage_ok_distinct)

lemma keys_storage_erase: "fst ` set (storage_erase m key) \<subseteq> fst ` set m"
  by (induction m key rule: storage_erase.induct) auto

lemma storage_ok_erase [inv_intros]: "storage_ok m \<Longrightarrow> storage_ok (storage_erase m key)"
  by (induction m key rule: storage_erase.induct)
    (use keys_storage_erase in \<open>fastforce simp: storage_ok_Cons\<close>)+

lemma storage_get_erase:
  "storage_ok m \<Longrightarrow> storage_get (storage_erase m key) = (storage_get m)(key := None)"
proof (induction m key rule: storage_erase.induct)
  case (2 k v m key)
  then have "k \<notin> fst ` set m" by (auto simp: storage_ok_Cons)
  then have "storage_get m k = None" by (simp add: storage_get_None_iff)
  with 2 show ?case by (auto simp: storage_ok_Cons fun_eq_iff)
qed auto

lemma length_storage_set:
  "storage_ok m \<Longrightarrow>
   length (storage_set m key val) = (if storage_contains m key then length m else Suc (length m))"
proof (induction m key val rule: storage_set.induct)
  case (2 k v m key val)
  then show ?case
    by (auto simp: storage_ok_Cons storage_contains_def storage_get_None_iff
        dest: storage_get_SomeD)
qed (simp add: storage_contains_def)

text \<open>Two storages with the same associations are the same list: the order is canonical.\<close>

lemma storage_ext:
  assumes "storage_ok m" "storage_ok m'" "storage_get m = storage_get m'"
  shows "m = m'"
proof -
  have eq: "set m = set m'"
    using assms by (auto simp: storage_get_iff [symmetric])
  have "inj_on fst (set m \<union> set m')"
    using storage_ok_distinct [OF assms(1)] eq by (simp add: distinct_map)
  then show ?thesis
    using assms(1,2) eq
    by (intro map_sorted_distinct_set_unique [of fst]) (auto simp: storage_ok_def strict_sorted_iff)
qed

section \<open>The contract\<close>

text \<open>
  What the cross reference table and the writer use of the class: the result of each operation as
  seen through \<open>look\<close>, and the key order kept by all of them.
\<close>

locale object_storage =
  fixes look :: "'m \<Rightarrow> 'k \<Rightarrow> 'v option"
    and put :: "'m \<Rightarrow> 'k \<Rightarrow> 'v \<Rightarrow> 'v option \<times> 'm"
    and remove :: "'m \<Rightarrow> 'k \<Rightarrow> 'v option \<times> 'm"
    and clear :: "'m \<Rightarrow> 'm"
    and ok :: "'m \<Rightarrow> bool"
  assumes put_old: "fst (put m k v) = look m k"
    and put_look: "look (snd (put m k v)) = (look m)(k \<mapsto> v)"
    and put_ok: "ok m \<Longrightarrow> ok (snd (put m k v))"
    and remove_old: "fst (remove m k) = look m k"
    and remove_look: "ok m \<Longrightarrow> look (snd (remove m k)) = (look m)(k := None)"
    and remove_ok: "ok m \<Longrightarrow> ok (snd (remove m k))"
    and clear_look: "look (clear m) = Map.empty"
    and clear_ok: "ok (clear m)"
    and extensional: "ok m \<Longrightarrow> ok m' \<Longrightarrow> look m = look m' \<Longrightarrow> m = m'"
begin

lemma put_get_same: "look (snd (put m k v)) k = Some v"
  by (simp add: put_look)

lemma put_get_other: "k' \<noteq> k \<Longrightarrow> look (snd (put m k v)) k' = look m k'"
  by (simp add: put_look)

lemma put_put: "ok m \<Longrightarrow> snd (put (snd (put m k v)) k w) = snd (put m k w)"
  by (rule extensional) (simp_all add: put_look put_ok)

lemma put_commute:
  assumes "ok m" "k \<noteq> k'"
  shows "snd (put (snd (put m k v)) k' w) = snd (put (snd (put m k' w)) k v)"
  by (rule extensional) (use assms in \<open>auto simp: put_look put_ok fun_eq_iff\<close>)

lemma remove_put_new:
  assumes "ok m" "look m k = None"
  shows "snd (remove (snd (put m k v)) k) = m"
  by (rule extensional)
    (use assms in \<open>simp_all add: put_look put_ok remove_look remove_ok fun_upd_idem\<close>)

end

interpretation storage: object_storage storage_get storage_put storage_remove storage_clear storage_ok
proof unfold_locales
  show "storage_ok m \<Longrightarrow> storage_get (snd (storage_remove m k)) = (storage_get m)(k := None)"
    for m :: "('a::linorder, 'b) storage" and k
    by (auto simp: storage_remove_def storage_get_erase split: option.splits)
qed (auto simp: storage_put_def storage_remove_def storage_clear_def fun_eq_iff
      intro: inv_intros storage_ext split: option.splits)



end
