(* ===== verification/Xpdf_Object.thy ===== *)
theory Xpdf_Object
  imports Object_Storage
begin

text \<open>
  The value model of \<^verbatim>\<open>Object\<close>, \<^verbatim>\<open>Dict\<close> and \<^verbatim>\<open>Array\<close>
  (\<^verbatim>\<open>src/src/xpdf/xpdf/Object.h\<close>, \<^verbatim>\<open>Dict.cc\<close>): a tagged union with one constructor
  per \<^verbatim>\<open>ObjType\<close>.  A dictionary is the array of its entries in insertion order; lookups return
  the first entry with the key.  A stream is its dictionary and its raw bytes.  A C \<^verbatim>\<open>double\<close> is
  the rational number it denotes.
\<close>

datatype xobj =
    XBool bool
  | XInt int
  | XReal rat
  | XString string
  | XName string
  | XNull
  | XArray "xobj list"
  | XDict "(string \<times> xobj) list"
  | XStream "(string \<times> xobj) list" string
  | XRefObj ref
  | XCmd string
  | XError
  | XEOF
  | XNone

type_synonym dict = "(string \<times> xobj) list"

text \<open>\<^verbatim>\<open>enum ObjType\<close> and \<^verbatim>\<open>Object::getType\<close>.\<close>

datatype objtype =
    objBool | objInt | objReal | objString | objName | objNull
  | objArray | objDict | objStream | objRef | objCmd | objError | objEOF | objNone

fun getType :: "xobj \<Rightarrow> objtype" where
  "getType (XBool _) = objBool"
| "getType (XInt _) = objInt"
| "getType (XReal _) = objReal"
| "getType (XString _) = objString"
| "getType (XName _) = objName"
| "getType XNull = objNull"
| "getType (XArray _) = objArray"
| "getType (XDict _) = objDict"
| "getType (XStream _ _) = objStream"
| "getType (XRefObj _) = objRef"
| "getType (XCmd _) = objCmd"
| "getType XError = objError"
| "getType XEOF = objEOF"
| "getType XNone = objNone"

text \<open>\<^verbatim>\<open>Dict::find\<close> with \<^verbatim>\<open>Dict::lookupNF\<close>: the null object for a missing key.\<close>

fun dict_find :: "dict \<Rightarrow> string \<Rightarrow> xobj option" where
  "dict_find [] key = None"
| "dict_find ((k, v) # d) key = (if k = key then Some v else dict_find d key)"

definition dict_lookupNF :: "dict \<Rightarrow> string \<Rightarrow> xobj" where
  "dict_lookupNF d key = (case dict_find d key of None \<Rightarrow> XNull | Some v \<Rightarrow> v)"

text \<open>\<^verbatim>\<open>Dict::add\<close> appends without looking for the key.\<close>

definition dict_add :: "dict \<Rightarrow> string \<Rightarrow> xobj \<Rightarrow> dict" where
  "dict_add d key val = d @ [(key, val)]"

fun dict_replace :: "dict \<Rightarrow> string \<Rightarrow> xobj \<Rightarrow> dict" where
  "dict_replace [] key val = []"
| "dict_replace ((k, v) # d) key val =
     (if k = key then (k, val) # d else (k, v) # dict_replace d key val)"

text \<open>\<^verbatim>\<open>Dict::update\<close>: returns the old value, \<open>None\<close> (and adds) when the key is new.\<close>

definition dict_update :: "dict \<Rightarrow> string \<Rightarrow> xobj \<Rightarrow> xobj option \<times> dict" where
  "dict_update d key val =
     (case dict_find d key of
        None \<Rightarrow> (None, dict_add d key val)
      | Some old \<Rightarrow> (Some old, dict_replace d key val))"

text \<open>\<^verbatim>\<open>Dict::del\<close>: removes the first entry with the key and returns its value.\<close>

fun dict_drop :: "dict \<Rightarrow> string \<Rightarrow> dict" where
  "dict_drop [] key = []"
| "dict_drop ((k, v) # d) key = (if k = key then d else (k, v) # dict_drop d key)"

definition dict_del :: "dict \<Rightarrow> string \<Rightarrow> xobj option \<times> dict" where
  "dict_del d key = (dict_find d key, dict_drop d key)"

section \<open>Laws\<close>

lemma dict_find_append:
  "dict_find (d @ d') k = (case dict_find d k of None \<Rightarrow> dict_find d' k | Some v \<Rightarrow> Some v)"
  by (induction d) auto

lemma dict_find_replace:
  "dict_find (dict_replace d key val) k =
     (if k = key \<and> dict_find d key \<noteq> None then Some val else dict_find d k)"
  by (induction d) (auto split: if_splits)

lemma dict_find_update [simp]:
  "dict_find (snd (dict_update d key val)) = (dict_find d)(key \<mapsto> val)"
  by (auto simp: dict_update_def dict_add_def dict_find_append dict_find_replace fun_eq_iff
      split: option.splits)

lemma dict_find_None_iff: "dict_find d k = None \<longleftrightarrow> k \<notin> fst ` set d"
  by (induction d) (auto split: if_splits)

lemma dict_drop_other: "k \<noteq> key \<Longrightarrow> dict_find (dict_drop d key) k = dict_find d k"
  by (induction d) auto

lemma set_dict_drop: "set (dict_drop d key) \<subseteq> set d"
  by (induction d) (auto split: if_splits)

lemma keys_dict_drop: "fst ` set (dict_drop d key) \<subseteq> fst ` set d"
  by (intro image_mono set_dict_drop)

lemma distinct_dict_drop [inv_intros]:
  "distinct (map fst d) \<Longrightarrow> distinct (map fst (dict_drop d key))"
proof (induction d)
  case (Cons a d)
  then show ?case using keys_dict_drop [of d key] by (cases a) auto
qed simp

lemma dict_drop_find:
  "distinct (map fst d) \<Longrightarrow> dict_find (dict_drop d key) = (dict_find d)(key := None)"
proof (induction d)
  case (Cons a d)
  obtain k v where a: "a = (k, v)" by force
  with Cons.prems have "dict_find d k = None" by (simp add: dict_find_None_iff)
  with a Cons show ?case by (auto simp: fun_eq_iff)
qed auto

lemma map_fst_dict_replace [simp]: "map fst (dict_replace d key val) = map fst d"
  by (induction d) auto

lemma distinct_dict_update [inv_intros]:
  "distinct (map fst d) \<Longrightarrow> distinct (map fst (snd (dict_update d key val)))"
  by (auto simp: dict_update_def dict_add_def dict_find_None_iff split: option.splits)

lemma dict_lookupNF_update:
  "dict_lookupNF (snd (dict_update d key val)) k = (if k = key then val else dict_lookupNF d k)"
  by (simp add: dict_lookupNF_def)

lemma dict_update_old: "fst (dict_update d key val) = dict_find d key"
  by (simp add: dict_update_def split: option.splits)

end
