(* ===== verification/CXref.thy ===== *)
theory CXref
  imports Xpdf_Object
begin

text \<open>
  \<^verbatim>\<open>src/src/kernel/cxref.cc\<close>, class \<^verbatim>\<open>CXref\<close>: the cross reference table with uncommitted
  changes on top.  The base class \<^verbatim>\<open>XRef\<close> (\<^verbatim>\<open>src/src/xpdf/xpdf/XRef.cc\<close>) is the record
  \<open>xref_tab\<close>; what its parser reads from the file for an entry is the field \<open>parsed\<close> (\<open>None\<close> for a
  damaged object).  Operations take the state and return a result and the new state: an exception
  keeps the state reached when it was thrown.  Deep copies (\<^verbatim>\<open>Object::clone\<close>) can fail for
  streams, so the copy function is an argument.
\<close>

section \<open>State\<close>

datatype entry_type = xrefEntryFree | xrefEntryUncompressed | xrefEntryCompressed

record xref_entry =
  entry_offset :: nat
  entry_gen :: int
  entry_type :: entry_type

datatype ref_state = UNUSED_REF | RESERVED_REF | INITIALIZED_REF

record xref_tab =
  entries :: "xref_entry list"
  trailerDict :: dict
  parsed :: "nat \<Rightarrow> xobj option"
  maxObj :: int

record cxref =
  tab :: xref_tab
  ok :: bool
  lastXRefPos :: nat
  encrypted :: bool
  needs_credentials :: bool
  internal_fetch :: bool
  changedStorage :: "(ref, xobj) storage"
  newStorage :: "(ref, ref_state) storage"
  currTrailer :: "dict option"

definition MAXOBJNUM :: nat where
  "MAXOBJNUM = 2147483647"

definition MAXOBJGEN :: int where
  "MAXOBJGEN = 65535"

section \<open>The base class\<close>

text \<open>
  \<^verbatim>\<open>XRef::fetch\<close>.  A number out of range or a generation that does not match yields the null
  object; a damaged object yields null and clears \<^verbatim>\<open>ok\<close>.  \<^verbatim>\<open>setErrCode(errNone)\<close> sets
  \<^verbatim>\<open>ok\<close> again for every number in range.
\<close>

definition xref_fetch :: "cxref \<Rightarrow> ref \<Rightarrow> xobj \<times> cxref" where
  "xref_fetch x r =
     (let num = ref_num r; gen = ref_gen r; es = entries (tab x) in
      if num < 0 \<or> num \<ge> int (length es) then (XNull, x)
      else let x1 = x\<lparr>ok := True\<rparr>; e = es ! nat num;
               read = (case parsed (tab x) (nat num) of
                         None \<Rightarrow> (XNull, x\<lparr>ok := False\<rparr>)
                       | Some o1 \<Rightarrow> (o1, x1)) in
           (case entry_type e of
              xrefEntryUncompressed \<Rightarrow> (if entry_gen e \<noteq> gen then (XNull, x1) else read)
            | xrefEntryCompressed \<Rightarrow> (if gen \<noteq> 0 then (XNull, x1) else read)
            | xrefEntryFree \<Rightarrow> (XNull, x1)))"

text \<open>
  \<^verbatim>\<open>XRef::knowsRef\<close>.  The boundary check lets \<^verbatim>\<open>ref.num == size\<close> through, so the code reads
  one entry behind the array.
\<close>

definition xref_knowsRef :: "cxref \<Rightarrow> ref \<Rightarrow> ref_state result" where
  "xref_knowsRef x r =
     (let num = ref_num r; es = entries (tab x) in
      if num < 0 \<or> num > int (length es) then Inr UNUSED_REF
      else if num = int (length es) then Inl UndefinedBehaviour
      else let e = es ! nat num in
           (case entry_type e of
              xrefEntryFree \<Rightarrow> Inr UNUSED_REF
            | xrefEntryUncompressed \<Rightarrow>
                Inr (if ref_gen r = entry_gen e then INITIALIZED_REF else UNUSED_REF)
            | xrefEntryCompressed \<Rightarrow>
                Inr (if ref_gen r = 0 then INITIALIZED_REF else UNUSED_REF)))"

text \<open>\<^verbatim>\<open>XRef::getNumObjects\<close> counts the entries that are not free.\<close>

definition used_entry :: "xref_entry \<Rightarrow> bool" where
  "used_entry e \<longleftrightarrow> entry_type e \<noteq> xrefEntryFree"

definition xref_getNumObjects :: "xref_tab \<Rightarrow> nat" where
  "xref_getNumObjects t = length (filter used_entry (entries t))"

section \<open>Trailer\<close>

definition getTrailerDict :: "cxref \<Rightarrow> dict" where
  "getTrailerDict x = (case currTrailer x of None \<Rightarrow> trailerDict (tab x) | Some d \<Rightarrow> d)"

definition getTrailerEntry :: "(xobj \<Rightarrow> xobj option) \<Rightarrow> cxref \<Rightarrow> string \<Rightarrow> xobj result" where
  "getTrailerEntry clone x name =
     (case clone (dict_lookupNF (getTrailerDict x) name) of
        None \<Rightarrow> Inl NotImplementedException
      | Some v \<Rightarrow> Inr v)"

text \<open>
  \<^verbatim>\<open>CXref::changeTrailer\<close>: the first change copies the trailer of the file into
  \<^verbatim>\<open>currTrailer\<close>, so that the table of the file is never written.  Null pointers are \<open>None\<close>.
\<close>

definition cxref_changeTrailer ::
  "(xobj \<Rightarrow> xobj option) \<Rightarrow> cxref \<Rightarrow> string option \<Rightarrow> xobj option
     \<Rightarrow> xobj option result \<times> cxref" where
  "cxref_changeTrailer clone x name value =
     (case (name, value) of
        (Some key, Some v) \<Rightarrow>
          if needs_credentials x then (Inl PermissionException, x)
          else (case clone v of
                  None \<Rightarrow> (Inl NotImplementedException, x)
                | Some v' \<Rightarrow>
                    let (prev, d) = dict_update (getTrailerDict x) key v'
                    in (Inr prev, x\<lparr>currTrailer := Some d\<rparr>))
      | _ \<Rightarrow> (Inl ElementBadTypeException, x))"

section \<open>Changing objects\<close>

text \<open>
  \<^verbatim>\<open>CXref::changeObject\<close>: stores a deep copy, returns the copy it replaces, and marks a newly
  reserved reference as initialised.
\<close>

definition cxref_changeObject ::
  "(xobj \<Rightarrow> xobj option) \<Rightarrow> cxref \<Rightarrow> ref \<Rightarrow> xobj \<Rightarrow> xobj option result \<times> cxref" where
  "cxref_changeObject clone x r inst =
     (if needs_credentials x then (Inl PermissionException, x)
      else case clone inst of
        None \<Rightarrow> (Inl NotImplementedException, x)
      | Some cloned \<Rightarrow>
          let (changed, st) = storage_put (changedStorage x) r cloned;
              x1 = x\<lparr>changedStorage := st\<rparr>;
              x2 = (if storage_contains (newStorage x1) r
                    then x1\<lparr>newStorage := snd (storage_put (newStorage x1) r INITIALIZED_REF)\<rparr>
                    else x1)
          in (Inr changed, x2))"

text \<open>
  \<^verbatim>\<open>CXref::reserveRef\<close>.  \<open>scan_free\<close> is its first loop: it walks the table from \<open>i\<close> until it
  has seen \<open>xrefCount\<close> used entries and yields a free entry that can be reused; \<open>scan_new\<close> is the
  second one, over the numbers behind.  Both return the loop counter they stop at.
\<close>

function scan_free ::
  "xref_entry list \<Rightarrow> (ref, ref_state) storage \<Rightarrow> nat \<Rightarrow> nat \<Rightarrow> nat \<Rightarrow> nat \<times> ref option" where
  "scan_free es news xrefCount i objectCount =
     (if i < length es \<and> i < MAXOBJNUM \<and> objectCount < xrefCount then
        let e = es ! i in
        if entry_type e \<noteq> xrefEntryFree then scan_free es news xrefCount (Suc i) (Suc objectCount)
        else if entry_gen e \<ge> MAXOBJGEN \<or> entry_gen e < 0
        then scan_free es news xrefCount (Suc i) objectCount
        else if storage_contains news (Ref (int i) (entry_gen e))
        then scan_free es news xrefCount (Suc i) objectCount
        else (i, Some (Ref (int i) (entry_gen e)))
      else (i, None))"
  by pat_completeness auto
termination
  by (relation "measure (\<lambda>(es, news, xrefCount, i, objectCount). length es - i)") auto

declare scan_free.simps [simp del]

function scan_new :: "(ref, ref_state) storage \<Rightarrow> nat \<Rightarrow> ref option" where
  "scan_new news i =
     (if i < MAXOBJNUM then
        if \<not> storage_contains news (Ref (int i) 0) then Some (Ref (int i) 0)
        else scan_new news (Suc i)
      else None)"
  by pat_completeness auto
termination
  by (relation "measure (\<lambda>(news, i). MAXOBJNUM - i)") auto

declare scan_new.simps [simp del]

definition find_unused_ref :: "cxref \<Rightarrow> ref option" where
  "find_unused_ref x =
     (case scan_free (entries (tab x)) (newStorage x) (xref_getNumObjects (tab x)) 1 0 of
        (_, Some r) \<Rightarrow> Some r
      | (i, None) \<Rightarrow> scan_new (newStorage x) i)"

definition cxref_reserveRef :: "cxref \<Rightarrow> ref result \<times> cxref" where
  "cxref_reserveRef x =
     (if needs_credentials x then (Inl PermissionException, x)
      else case find_unused_ref x of
        None \<Rightarrow> (Inl IndirectObjectsExhausted, x)
      | Some r \<Rightarrow>
          (Inr r, x\<lparr>newStorage := snd (storage_put (newStorage x) r RESERVED_REF)\<rparr>))"

text \<open>
  \<^verbatim>\<open>CXref::createObject\<close> reserves a reference and hands out an object of the type.  The payload
  of strings, names, streams and commands is a null pointer; a type that is not listed leaves the
  object as the factory made it.
\<close>

datatype new_object = Initialised xobj | NullPayload objtype | AsAllocated

definition init_object :: "objtype \<Rightarrow> new_object" where
  "init_object t =
     (case t of
        objBool \<Rightarrow> Initialised (XBool False)
      | objInt \<Rightarrow> Initialised (XInt 0)
      | objReal \<Rightarrow> Initialised (XReal 0)
      | objString \<Rightarrow> NullPayload objString
      | objName \<Rightarrow> NullPayload objName
      | objArray \<Rightarrow> Initialised (XArray [])
      | objDict \<Rightarrow> Initialised (XDict [])
      | objStream \<Rightarrow> NullPayload objStream
      | objCmd \<Rightarrow> NullPayload objCmd
      | objNull \<Rightarrow> Initialised XNull
      | _ \<Rightarrow> AsAllocated)"

definition cxref_createObject :: "cxref \<Rightarrow> objtype \<Rightarrow> (new_object \<times> ref) result \<times> cxref" where
  "cxref_createObject x t =
     (case cxref_reserveRef x of
        (Inl e, x1) \<Rightarrow> (Inl e, x1)
      | (Inr r, x1) \<Rightarrow> (Inr (init_object t, r), x1))"

section \<open>Queries\<close>

text \<open>\<^verbatim>\<open>CXref::knowsRef\<close>: a reference in \<^verbatim>\<open>newStorage\<close> wins over the table.\<close>

definition cxref_knowsRef :: "cxref \<Rightarrow> ref \<Rightarrow> ref_state result" where
  "cxref_knowsRef x r =
     (if needs_credentials x then Inl PermissionException
      else case storage_get (newStorage x) r of
        Some RESERVED_REF \<Rightarrow> Inr RESERVED_REF
      | Some INITIALIZED_REF \<Rightarrow> Inr INITIALIZED_REF
      | _ \<Rightarrow> xref_knowsRef x r)"

text \<open>
  \<^verbatim>\<open>CXref::fetch\<close>: the changed object if there is one, else what the table yields; always a deep
  copy.  Internal fetches skip the credentials check.
\<close>

definition cxref_fetch :: "(xobj \<Rightarrow> xobj option) \<Rightarrow> cxref \<Rightarrow> ref \<Rightarrow> xobj result \<times> cxref" where
  "cxref_fetch clone x r =
     (if \<not> internal_fetch x \<and> needs_credentials x then (Inl PermissionException, x)
      else case storage_get (changedStorage x) r of
        Some obj \<Rightarrow>
          (case clone obj of
             None \<Rightarrow> (Inl UndefinedBehaviour, x)
           | Some copy \<Rightarrow> (Inr copy, x))
      | None \<Rightarrow>
          (case xref_fetch x r of (obj, x1) \<Rightarrow>
             if \<not> ok x1 then (Inl MalformedFormatExeption, x1)
             else case clone obj of
               None \<Rightarrow> (Inl NotImplementedException, x1)
             | Some copy \<Rightarrow> (Inr copy, x1)))"

text \<open>
  \<^verbatim>\<open>Object::fetch\<close> and \<^verbatim>\<open>Dict::lookup\<close> dereference once, with the (virtual) \<^verbatim>\<open>fetch\<close> of the
  table at hand.
\<close>

type_synonym 's fetcher = "'s \<Rightarrow> ref \<Rightarrow> xobj result \<times> 's"

definition deref :: "'s fetcher \<Rightarrow> 's \<Rightarrow> xobj \<Rightarrow> xobj result \<times> 's" where
  "deref fet s obj = (case obj of XRefObj r \<Rightarrow> fet s r | _ \<Rightarrow> (Inr obj, s))"

text \<open>\<^verbatim>\<open>CXref::typeSafe\<close>.\<close>

definition typeSafe :: "'s fetcher \<Rightarrow> 's \<Rightarrow> xobj option \<Rightarrow> xobj option \<Rightarrow> bool result \<times> 's" where
  "typeSafe fet s obj1 obj2 =
     (case (obj1, obj2) of
        (Some o1, Some o2) \<Rightarrow>
          (case deref fet s o1 of
             (Inl e, s1) \<Rightarrow> (Inl e, s1)
           | (Inr d1, s1) \<Rightarrow>
               (case deref fet s1 o2 of
                  (Inl e, s2) \<Rightarrow> (Inl e, s2)
                | (Inr d2, s2) \<Rightarrow>
                    (Inr (getType d1 = getType d2
                          \<or> (getType o1 = objRef \<and> getType d1 = objNull)), s2)))
      | _ \<Rightarrow> (Inr False, s))"

text \<open>\<^verbatim>\<open>CXref::getNumObjects\<close>: the used entries and the initialised new objects.\<close>

definition cxref_getNumObjects :: "cxref \<Rightarrow> nat" where
  "cxref_getNumObjects x =
     xref_getNumObjects (tab x)
       + length (filter (\<lambda>(r, st). st = INITIALIZED_REF) (newStorage x))"

section \<open>Revisions and credentials\<close>

definition cleanUp :: "cxref \<Rightarrow> cxref" where
  "cleanUp x = x\<lparr>changedStorage := storage_clear (changedStorage x),
                 newStorage := storage_clear (newStorage x), currTrailer := None\<rparr>"

text \<open>
  \<^verbatim>\<open>CXref::checkEncryptedContent\<close>: a dictionary behind \<^verbatim>\<open>Encrypt\<close> of the trailer means that
  credentials are required; the lookup may dereference, with internal fetching enabled.
\<close>

definition checkEncryptedContent ::
  "(xobj \<Rightarrow> xobj option) \<Rightarrow> cxref \<Rightarrow> bool result \<times> cxref" where
  "checkEncryptedContent clone x =
     (let x1 = x\<lparr>needs_credentials := False, internal_fetch := True\<rparr> in
      case deref (cxref_fetch clone) x1 (dict_lookupNF (getTrailerDict x1) ''Encrypt'') of
        (Inl e, x2) \<Rightarrow> (Inl e, x2)
      | (Inr v, x2) \<Rightarrow>
          let enc = (getType v = objDict)
          in (Inr enc, x2\<lparr>internal_fetch := False, encrypted := enc, needs_credentials := enc\<rparr>))"

text \<open>
  \<^verbatim>\<open>CXref::reopen\<close>; \<open>load off\<close> is what \<^verbatim>\<open>XRef::initInternals\<close> reads from offset \<open>off\<close>, with
  its success flag.
\<close>

definition reopen ::
  "(xobj \<Rightarrow> xobj option) \<Rightarrow> (nat \<Rightarrow> xref_tab \<times> bool) \<Rightarrow> cxref \<Rightarrow> nat \<Rightarrow> bool
     \<Rightarrow> bool result \<times> cxref" where
  "reopen clone load x off dropChanges =
     (let x1 = (if dropChanges then cleanUp x else x); (t, good) = load off in
      checkEncryptedContent clone (x1\<lparr>tab := t, ok := good, lastXRefPos := off\<rparr>))"

text \<open>
  \<^verbatim>\<open>CXref::setCredentials\<close>; \<open>check\<close> is the security handler lookup of the xpdf code: whether the
  passwords were accepted and whether a handler was found.
\<close>

definition setCredentials ::
  "(string option \<Rightarrow> string option \<Rightarrow> bool \<times> bool) \<Rightarrow> cxref \<Rightarrow> string option \<Rightarrow> string option
     \<Rightarrow> unit result \<times> cxref" where
  "setCredentials check x op up =
     (if \<not> needs_credentials x then (Inr (), x)
      else let (accepted, handler) = check op up; x1 = x\<lparr>internal_fetch := False\<rparr> in
           if \<not> accepted \<and> \<not> handler then (Inl NotImplementedException, x1)
           else if \<not> accepted \<and> handler then (Inl PermissionException, x1)
           else (Inr (), x1\<lparr>needs_credentials := False\<rparr>))"

section \<open>Invariant\<close>

text \<open>
  Both storages keep their key order, the new references are reserved or initialised (the value 0
  is never stored), and the objects in \<^verbatim>\<open>changedStorage\<close> are copies.
\<close>

definition cxref_inv :: "cxref \<Rightarrow> bool" where
  "cxref_inv x \<longleftrightarrow> storage_ok (changedStorage x) \<and> storage_ok (newStorage x)
     \<and> (\<forall>r. storage_get (newStorage x) r \<noteq> Some UNUSED_REF)"

lemma cxref_inv_changeTrailer [inv_intros]:
  "cxref_inv x \<Longrightarrow> cxref_inv (snd (cxref_changeTrailer clone x name value))"
  by (auto simp: cxref_changeTrailer_def cxref_inv_def Let_def split: option.splits prod.splits)

lemma cxref_inv_changeObject [inv_intros]:
  "cxref_inv x \<Longrightarrow> cxref_inv (snd (cxref_changeObject clone x r inst))"
  by (auto simp: cxref_changeObject_def cxref_inv_def Let_def storage_put_def
      intro: inv_intros split: option.splits prod.splits)

lemma cxref_inv_reserveRef [inv_intros]:
  "cxref_inv x \<Longrightarrow> cxref_inv (snd (cxref_reserveRef x))"
  by (auto simp: cxref_reserveRef_def cxref_inv_def storage_put_def intro: inv_intros split: option.splits)

lemma cxref_inv_createObject [inv_intros]:
  "cxref_inv x \<Longrightarrow> cxref_inv (snd (cxref_createObject x t))"
  using cxref_inv_reserveRef [of x]
  by (auto simp: cxref_createObject_def split: sum.splits prod.splits)

lemma xref_fetch_frame:
  "xref_fetch x r = (v, x') \<Longrightarrow> x' = x\<lparr>ok := ok x'\<rparr>"
  by (auto simp: xref_fetch_def Let_def split: if_splits entry_type.splits option.splits)

lemma cxref_fetch_frame:
  "cxref_fetch clone x r = (v, x') \<Longrightarrow> x' = x\<lparr>ok := ok x'\<rparr>"
  by (auto simp: cxref_fetch_def split: if_splits option.splits prod.splits dest: xref_fetch_frame)

lemma cxref_inv_ok [simp]: "cxref_inv (x\<lparr>ok := b\<rparr>) = cxref_inv x"
  by (simp add: cxref_inv_def)

lemma cxref_inv_fetch [inv_intros]: "cxref_inv x \<Longrightarrow> cxref_inv (snd (cxref_fetch clone x r))"
  using cxref_fetch_frame [of clone x r] by (metis cxref_inv_ok prod.collapse)

lemma cxref_inv_cleanUp [inv_intros]: "cxref_inv (cleanUp x)"
  by (simp add: cxref_inv_def cleanUp_def storage_clear_def)

lemma cxref_inv_deref [inv_intros]:
  "cxref_inv x \<Longrightarrow> cxref_inv (snd (deref (cxref_fetch clone) x v))"
  by (auto simp: deref_def intro: inv_intros split: xobj.splits)

lemma cxref_inv_checkEncryptedContent [inv_intros]:
  assumes "cxref_inv x"
  shows "cxref_inv (snd (checkEncryptedContent clone x))"
proof -
  define x1 where "x1 = x\<lparr>needs_credentials := False, internal_fetch := True\<rparr>"
  have "cxref_inv (snd (deref (cxref_fetch clone) x1 v))" for v
    using assms by (intro inv_intros) (simp add: x1_def cxref_inv_def)
  then show ?thesis
    unfolding checkEncryptedContent_def Let_def x1_def [symmetric]
    by (auto simp: cxref_inv_def split: sum.splits prod.splits)
       (metis snd_conv)+
qed

lemma cxref_inv_reopen [inv_intros]:
  assumes "cxref_inv x"
  shows "cxref_inv (snd (reopen clone load x off dropChanges))"
proof -
  have "cxref_inv ((if dropChanges then cleanUp x else x)\<lparr>tab := t, ok := good, lastXRefPos := off\<rparr>)"
    for t good
    using assms cxref_inv_cleanUp [of x] by (simp add: cxref_inv_def)
  then show ?thesis
    by (auto simp: reopen_def split: prod.splits intro: cxref_inv_checkEncryptedContent)
qed

section \<open>The contract of a table of changeable objects\<close>

text \<open>
  What the writer and the document rely on: a change is read back, and touches no other object.
\<close>

locale object_table =
  fixes read :: "'t \<Rightarrow> ref \<Rightarrow> xobj result"
    and change :: "'t \<Rightarrow> ref \<Rightarrow> xobj \<Rightarrow> xobj option result \<times> 't"
    and inv :: "'t \<Rightarrow> bool"
  assumes change_read: "change t r v = (Inr old, t') \<Longrightarrow> read t' r = Inr v"
    and change_frame: "change t r v = (Inr old, t') \<Longrightarrow> r' \<noteq> r \<Longrightarrow> read t' r' = read t r'"
    and change_inv: "inv t \<Longrightarrow> inv (snd (change t r v))"
    and change_error: "change t r v = (Inl e, t') \<Longrightarrow> t' = t"
begin

lemma change_twice:
  assumes "change t r v = (Inr old, t1)" "change t1 r w = (Inr old', t2)"
  shows "read t2 = (read t)(r := Inr w)"
proof
  fix r'
  show "read t2 r' = ((read t)(r := Inr w)) r'"
    using change_read [OF assms(2)] change_frame [OF assms(2)] change_frame [OF assms(1)]
    by (cases "r' = r") simp_all
qed

end

text \<open>A sequence of changes, stopping at the first exception.\<close>

fun change_all ::
  "('t \<Rightarrow> ref \<Rightarrow> xobj \<Rightarrow> xobj option result \<times> 't) \<Rightarrow> (ref \<times> xobj) list \<Rightarrow> 't \<Rightarrow> unit result \<times> 't" where
  "change_all change [] t = (Inr (), t)"
| "change_all change ((r, v) # ws) t =
     (case change t r v of
        (Inl e, t1) \<Rightarrow> (Inl e, t1)
      | (Inr _, t1) \<Rightarrow> change_all change ws t1)"

context object_table
begin

lemma change_all_read:
  "change_all change ws t = (Inr (), t') \<Longrightarrow>
   read t' r = (case map_of (rev ws) r of None \<Rightarrow> read t r | Some v \<Rightarrow> Inr v)"
proof (induction ws arbitrary: t)
  case (Cons w ws)
  obtain q v where w: "w = (q, v)" by force
  with Cons.prems obtain old t1 where step: "change t q v = (Inr old, t1)"
    and rest: "change_all change ws t1 = (Inr (), t')"
    by (auto split: prod.splits sum.splits)
  have "read t1 r = (if r = q then Inr v else read t r)"
    using change_read [OF step] change_frame [OF step] by simp
  with Cons.IH [OF rest] w show ?case
    by (auto simp: map_add_def map_of_append split: option.splits)
qed simp

lemma change_all_inv: "inv t \<Longrightarrow> inv (snd (change_all change ws t))"
proof (induction ws arbitrary: t)
  case (Cons w ws)
  obtain q v where w: "w = (q, v)" by force
  show ?case
    using Cons change_inv [of t q v] w by (auto split: prod.splits sum.splits)
qed simp

end

definition deep_copy :: "xobj \<Rightarrow> xobj option" where
  "deep_copy v = Some v"

lemma cxref_changeObject_cases:
  assumes "cxref_changeObject clone x r v = (res, x')"
  obtains (error) e where "res = Inl e" "x' = x"
  | (stored) c where "res = Inr (storage_get (changedStorage x) r)" "\<not> needs_credentials x"
      "clone v = Some c"
      "x' = x\<lparr>changedStorage := storage_set (changedStorage x) r c,
               newStorage := (if storage_contains (newStorage x) r
                              then storage_set (newStorage x) r INITIALIZED_REF
                              else newStorage x)\<rparr>"
  using assms
  by (auto simp: cxref_changeObject_def storage_put_def Let_def split: if_splits option.splits)

lemma xref_fetch_cong:
  "tab x = tab y \<Longrightarrow> ok x = ok y \<Longrightarrow>
   fst (xref_fetch x r) = fst (xref_fetch y r) \<and> ok (snd (xref_fetch x r)) = ok (snd (xref_fetch y r))"
  by (auto simp: xref_fetch_def Let_def split: entry_type.splits option.splits)

lemma fst_cxref_fetch:
  "fst (cxref_fetch clone x r) =
     (if \<not> internal_fetch x \<and> needs_credentials x then Inl PermissionException
      else case storage_get (changedStorage x) r of
        Some obj \<Rightarrow> (case clone obj of None \<Rightarrow> Inl UndefinedBehaviour | Some copy \<Rightarrow> Inr copy)
      | None \<Rightarrow>
          (if \<not> ok (snd (xref_fetch x r)) then Inl MalformedFormatExeption
           else case clone (fst (xref_fetch x r)) of
             None \<Rightarrow> Inl NotImplementedException | Some copy \<Rightarrow> Inr copy))"
  by (auto simp: cxref_fetch_def split: option.splits prod.splits)

text \<open>A fetch that succeeds leaves a table in good state as it is.\<close>

lemma cxref_fetch_state:
  assumes "ok x" "cxref_fetch deep_copy x r = (Inr v, x')"
  shows "x' = x"
proof -
  have "ok x'"
    using assms by (auto simp: cxref_fetch_def deep_copy_def split: if_splits option.splits prod.splits)
  moreover have "x' = x\<lparr>ok := ok x'\<rparr>" using cxref_fetch_frame [OF assms(2)] .
  moreover have "x\<lparr>ok := True\<rparr> = x" using assms(1) by simp
  ultimately show ?thesis by simp
qed

interpretation cx: object_table
  "\<lambda>x r. fst (cxref_fetch deep_copy x r)" "cxref_changeObject deep_copy" cxref_inv
proof unfold_locales
  fix x x' :: cxref and r r' v old
  assume ch: "cxref_changeObject deep_copy x r v = (Inr old, x')"
  then show "fst (cxref_fetch deep_copy x' r) = Inr v"
    by (cases rule: cxref_changeObject_cases) (auto simp: fst_cxref_fetch deep_copy_def)
  assume "r' \<noteq> r"
  with ch show "fst (cxref_fetch deep_copy x' r') = fst (cxref_fetch deep_copy x r')"
  proof (cases rule: cxref_changeObject_cases)
    case (stored c)
    then have eqs: "changedStorage x' = storage_set (changedStorage x) r c"
      "needs_credentials x' = needs_credentials x" "internal_fetch x' = internal_fetch x"
      "tab x' = tab x" "ok x' = ok x"
      by simp_all
    show ?thesis
      using xref_fetch_cong [OF eqs(4,5), of r'] \<open>r' \<noteq> r\<close> by (auto simp: fst_cxref_fetch eqs split: option.split)
  qed simp
next
  show "cxref_changeObject deep_copy x r v = (Inl e, x') \<Longrightarrow> x' = x" for x r v e x'
    by (auto elim: cxref_changeObject_cases)
qed (rule cxref_inv_changeObject)


section \<open>Reserving references\<close>

text \<open>
  Where the first loop of \<^verbatim>\<open>reserveRef\<close> gives up, whatever is reserved: the table is exhausted, or
  all used entries have been seen.
\<close>

function scan_stop :: "xref_entry list \<Rightarrow> nat \<Rightarrow> nat \<Rightarrow> nat \<Rightarrow> nat" where
  "scan_stop es xrefCount i objectCount =
     (if i < length es \<and> i < MAXOBJNUM \<and> objectCount < xrefCount
      then scan_stop es xrefCount (Suc i) (if used_entry (es ! i) then Suc objectCount else objectCount)
      else i)"
  by pat_completeness auto
termination
  by (relation "measure (\<lambda>(es, xrefCount, i, objectCount). length es - i)") auto

declare scan_stop.simps [simp del]

lemma scan_stop_ge: "i \<le> scan_stop es c i k"
proof (induction es c i k rule: scan_stop.induct)
  case (1 es c i k)
  then show ?case by (auto simp: scan_stop.simps [of es c i k] dest: Suc_leD)
qed

definition reusable :: "xref_entry list \<Rightarrow> nat \<Rightarrow> bool" where
  "reusable es j \<longleftrightarrow> j < length es \<and> entry_type (es ! j) = xrefEntryFree
     \<and> 0 \<le> entry_gen (es ! j) \<and> entry_gen (es ! j) < MAXOBJGEN"

lemma scan_free_spec:
  "scan_free es news c i k = (j, res) \<Longrightarrow>
   (case res of
      None \<Rightarrow> j = scan_stop es c i k
    | Some r \<Rightarrow> i \<le> j \<and> j < scan_stop es c i k \<and> j < MAXOBJNUM \<and> reusable es j
        \<and> r = Ref (int j) (entry_gen (es ! j)) \<and> \<not> storage_contains news r)"
proof (induction es news c i k arbitrary: j res rule: scan_free.induct)
  case (1 es news c i k)
  show ?case
  proof (cases "i < length es \<and> i < MAXOBJNUM \<and> k < c")
    case False
    then have "scan_stop es c i k = i"
      by (subst scan_stop.simps) auto
    with False "1.prems" show ?thesis
      by (auto simp: scan_free.simps [of es news c i k])
  next
    case True
    let ?k = "if used_entry (es ! i) then Suc k else k"
    let ?r = "Ref (int i) (entry_gen (es ! i))"
    have stop: "scan_stop es c i k = scan_stop es c (Suc i) ?k"
      using True by (simp add: scan_stop.simps [of es c i k])
    let ?bad = "entry_gen (es ! i) \<ge> MAXOBJGEN \<or> entry_gen (es ! i) < 0
        \<or> storage_contains news ?r"
    have unfold: "scan_free es news c i k =
        (if used_entry (es ! i) \<or> ?bad then scan_free es news c (Suc i) ?k else (i, Some ?r))"
      using True by (subst scan_free.simps) (simp add: Let_def used_entry_def)
    consider (found) "\<not> used_entry (es ! i)" "\<not> ?bad"
      | (skip) "used_entry (es ! i) \<or> ?bad"
      by blast
    then show ?thesis
    proof cases
      case found
      with unfold "1.prems" have res: "j = i" "res = Some ?r"
        by simp_all
      moreover have "reusable es i"
        using True found by (auto simp: reusable_def used_entry_def)
      ultimately show ?thesis
        using True found scan_stop_ge [of "Suc i" es c ?k] stop by simp
    next
      case skip
      with unfold "1.prems" have rest: "scan_free es news c (Suc i) ?k = (j, res)"
        by simp
      have "case res of None \<Rightarrow> j = scan_stop es c (Suc i) ?k
        | Some r \<Rightarrow> Suc i \<le> j \<and> j < scan_stop es c (Suc i) ?k \<and> j < MAXOBJNUM \<and> reusable es j
            \<and> r = Ref (int j) (entry_gen (es ! j)) \<and> \<not> storage_contains news r"
      proof (cases "used_entry (es ! i)")
        case used: True
        then show ?thesis
          using "1.IH"(1) [OF True refl _ rest [simplified used if_True]]
          by (simp add: used_entry_def)
      next
        case free: False
        with skip rest show ?thesis
          using "1.IH"(2,3) [OF True refl] by (auto simp: used_entry_def)
      qed
      with stop show ?thesis by (auto split: option.splits)
    qed
  qed
qed

lemma scan_new_spec:
  "scan_new news i = Some r \<Longrightarrow>
   \<exists>j\<ge>i. j < MAXOBJNUM \<and> r = Ref (int j) 0 \<and> \<not> storage_contains news r"
proof (induction news i rule: scan_new.induct)
  case (1 news i)
  then show ?case
    by (fastforce simp: scan_new.simps [of news i] split: if_splits)
qed

text \<open>At the stop position all used entries have been counted, so what is behind is free.\<close>

lemma used_beyond:
  assumes "i \<le> m" "m < length es" "used_entry (es ! m)"
  shows "length (filter used_entry (drop 1 (take i es))) < length (filter used_entry es)"
proof -
  have "es ! m \<in> set (drop i es)"
    using assms nth_mem [of "m - i" "drop i es"] by simp
  with assms(3) have "0 < length (filter used_entry (drop i es))"
    by (auto simp: filter_empty_conv)
  moreover have "length (filter used_entry es)
      = length (filter used_entry (take i es)) + length (filter used_entry (drop i es))"
    by (metis append_take_drop_id filter_append length_append)
  moreover have "length (filter used_entry (drop 1 (take i es))) \<le> length (filter used_entry (take i es))"
    by (cases "take i es") auto
  ultimately show ?thesis by linarith
qed

lemma scan_stop_exhausts:
  assumes "k = length (filter used_entry (drop 1 (take i es)))" "1 \<le> i"
    and "scan_stop es (length (filter used_entry es)) i k \<le> m" "m < length es" "m < MAXOBJNUM"
  shows "\<not> used_entry (es ! m)"
  using assms
proof (induction es "length (filter used_entry es)" i k rule: scan_stop.induct)
  case (1 es i k)
  show ?case
  proof (cases "i < length es \<and> i < MAXOBJNUM \<and> k < length (filter used_entry es)")
    case True
    let ?k = "if used_entry (es ! i) then Suc k else k"
    have "drop 1 (take (Suc i) es) = drop 1 (take i es) @ [es ! i]"
      using True "1.prems"(2) by (simp add: take_Suc_conv_app_nth)
    with "1.prems"(1) have k: "?k = length (filter used_entry (drop 1 (take (Suc i) es)))"
      by simp
    have "scan_stop es (length (filter used_entry es)) i k
        = scan_stop es (length (filter used_entry es)) (Suc i) ?k"
      using True by (subst scan_stop.simps) simp
    with "1.prems"(3) have "scan_stop es (length (filter used_entry es)) (Suc i) ?k \<le> m"
      by simp
    then show ?thesis
      using "1.hyps" [OF True k] "1.prems"(4,5) by simp
  next
    case False
    then have "i \<le> m"
      using "1.prems"(3) by (subst (asm) scan_stop.simps) auto
    with False 1 show ?thesis
      using used_beyond [of i m es] by auto
  qed
qed

definition free_stop :: "cxref \<Rightarrow> nat" where
  "free_stop x = scan_stop (entries (tab x)) (xref_getNumObjects (tab x)) 1 0"

lemma find_unused_ref_spec:
  assumes "find_unused_ref x = Some r"
  obtains j where "1 \<le> j" "j < MAXOBJNUM" "ref_num r = int j"
    "\<not> storage_contains (newStorage x) r"
    "j < length (entries (tab x)) \<Longrightarrow> \<not> used_entry (entries (tab x) ! j)"
    "0 \<le> ref_gen r" "ref_gen r < MAXOBJGEN"
    "ref_gen r = (if j < free_stop x then entry_gen (entries (tab x) ! j) else 0)"
proof -
  let ?es = "entries (tab x)" and ?c = "xref_getNumObjects (tab x)"
  obtain i res where scan: "scan_free ?es (newStorage x) ?c 1 0 = (i, res)"
    by force
  note spec = scan_free_spec [OF scan]
  show ?thesis
  proof (cases res)
    case (Some r')
    with scan assms have "r' = r" by (simp add: find_unused_ref_def)
    with Some spec show ?thesis
      by (intro that [of i]) (auto simp: free_stop_def reusable_def used_entry_def)
  next
    case None
    with scan assms obtain j where j: "i \<le> j" "j < MAXOBJNUM" "r = Ref (int j) 0"
      "\<not> storage_contains (newStorage x) r"
      using scan_new_spec [of "newStorage x" i r] by (auto simp: find_unused_ref_def)
    have "i = free_stop x"
      using None spec by (simp add: free_stop_def)
    moreover have "1 \<le> free_stop x"
      unfolding free_stop_def by (rule scan_stop_ge)
    moreover have "\<not> used_entry (?es ! j)" if "j < length ?es"
      using that j \<open>i = free_stop x\<close> scan_stop_exhausts [of 0 1 ?es j]
      by (simp add: free_stop_def xref_getNumObjects_def)
    ultimately show ?thesis
      using j by (intro that [of j]) (auto simp: MAXOBJGEN_def)
  qed
qed

lemma reserveRef_Inr_iff:
  "cxref_reserveRef x = (Inr r, x') \<longleftrightarrow> \<not> needs_credentials x \<and> find_unused_ref x = Some r
     \<and> x' = x\<lparr>newStorage := storage_set (newStorage x) r RESERVED_REF\<rparr>"
  by (auto simp: cxref_reserveRef_def storage_put_def split: option.splits)

text \<open>
  Claim C16: a successful \<^verbatim>\<open>reserveRef\<close> hands out a reference that was neither reserved nor in use
  in the table, with a number from 1 to \<^verbatim>\<open>MAXOBJNUM\<close>-1 and a generation below \<^verbatim>\<open>MAXOBJGEN\<close>; it
  is known as reserved afterwards and nothing else in the table changes.
\<close>

theorem reserveRef_fresh:
  assumes "cxref_reserveRef x = (Inr r, x')"
  shows "1 \<le> ref_num r \<and> ref_num r < int MAXOBJNUM \<and> 0 \<le> ref_gen r \<and> ref_gen r < MAXOBJGEN
    \<and> storage_get (newStorage x) r = None
    \<and> (nat (ref_num r) < length (entries (tab x))
         \<longrightarrow> entry_type (entries (tab x) ! nat (ref_num r)) = xrefEntryFree)
    \<and> cxref_knowsRef x' r = Inr RESERVED_REF
    \<and> x' = x\<lparr>newStorage := newStorage x'\<rparr>
    \<and> storage_get (newStorage x') = (storage_get (newStorage x))(r \<mapsto> RESERVED_REF)"
proof -
  from assms have x': "x' = x\<lparr>newStorage := storage_set (newStorage x) r RESERVED_REF\<rparr>"
    and cred: "\<not> needs_credentials x" and r: "find_unused_ref x = Some r"
    by (simp_all add: reserveRef_Inr_iff)
  from r obtain j where "1 \<le> j" "j < MAXOBJNUM" "ref_num r = int j"
    "\<not> storage_contains (newStorage x) r" "0 \<le> ref_gen r" "ref_gen r < MAXOBJGEN"
    "j < length (entries (tab x)) \<Longrightarrow> \<not> used_entry (entries (tab x) ! j)"
    using find_unused_ref_spec by blast
  with x' cred show ?thesis
    by (auto simp: cxref_knowsRef_def storage_contains_def used_entry_def)
qed

definition sample_tab :: xref_tab where
  "sample_tab =
     \<lparr>entries = [\<lparr>entry_offset = 0, entry_gen = 65535, entry_type = xrefEntryFree\<rparr>,
                 \<lparr>entry_offset = 15, entry_gen = 0, entry_type = xrefEntryUncompressed\<rparr>,
                 \<lparr>entry_offset = 0, entry_gen = 1, entry_type = xrefEntryFree\<rparr>,
                 \<lparr>entry_offset = 99, entry_gen = 0, entry_type = xrefEntryUncompressed\<rparr>,
                 \<lparr>entry_offset = 0, entry_gen = 3, entry_type = xrefEntryFree\<rparr>],
      trailerDict = [(''Size'', XInt 5), (''Root'', XRefObj (Ref 1 0))],
      parsed = (\<lambda>n. if n = 1 then Some (XDict [(''Type'', XName ''Catalog'')])
                     else if n = 3 then Some (XInt 7) else None),
      maxObj = 3\<rparr>"

definition sample_cxref :: cxref where
  "sample_cxref =
     \<lparr>tab = sample_tab, ok = True, lastXRefPos = 120, encrypted = False, needs_credentials = False,
      internal_fetch = False, changedStorage = [], newStorage = [], currTrailer = None\<rparr>"

lemma scan_free_sample:
  "find_unused_ref sample_cxref = Some (Ref 2 1)"
  by (simp add: find_unused_ref_def sample_cxref_def sample_tab_def xref_getNumObjects_def
      used_entry_def scan_free.simps MAXOBJNUM_def MAXOBJGEN_def storage_contains_def)

lemma reserveRef_sample:
  "cxref_reserveRef sample_cxref
     = (Inr (Ref 2 1), sample_cxref\<lparr>newStorage := [(Ref 2 1, RESERVED_REF)]\<rparr>)"
  by (simp add: reserveRef_Inr_iff scan_free_sample) (simp add: sample_cxref_def)

theorem reserveRef_fresh_witness:
  "cxref_reserveRef sample_cxref
     = (Inr (Ref 2 1), sample_cxref\<lparr>newStorage := [(Ref 2 1, RESERVED_REF)]\<rparr>)
   \<and> cxref_knowsRef (sample_cxref\<lparr>newStorage := [(Ref 2 1, RESERVED_REF)]\<rparr>) (Ref 2 1)
     = Inr RESERVED_REF"
  using reserveRef_fresh [OF reserveRef_sample] reserveRef_sample by simp

text \<open>
  A table whose last object was deleted: its number comes back with generation 0, not with the
  generation 3 the free entry asks for, because the loop has already seen all used entries.
\<close>

definition sample_deleted :: cxref where
  "sample_deleted = sample_cxref\<lparr>newStorage := [(Ref 2 1, RESERVED_REF)]\<rparr>"

text \<open>
  The generation of a free entry behind the last used entry is ignored: after number 2 is
  reserved in a table whose free entry 4 carries generation 3, \<^verbatim>\<open>reserveRef\<close> returns \<open>4 0\<close>.
\<close>

theorem reserveRef_ignores_generation:
  "fst (cxref_reserveRef sample_deleted) = Inr (Ref 4 0)
   \<and> entry_type (entries (tab sample_deleted) ! 4) = xrefEntryFree
   \<and> entry_gen (entries (tab sample_deleted) ! 4) = 3"
proof -
  have "find_unused_ref sample_deleted = Some (Ref 4 0)"
    by (simp add: find_unused_ref_def sample_deleted_def sample_cxref_def sample_tab_def
        xref_getNumObjects_def used_entry_def scan_free.simps scan_new.simps MAXOBJNUM_def
        MAXOBJGEN_def storage_contains_def)
  then have "cxref_reserveRef sample_deleted = (Inr (Ref 4 0),
      sample_deleted\<lparr>newStorage := storage_set (newStorage sample_deleted) (Ref 4 0) RESERVED_REF\<rparr>)"
    by (simp add: reserveRef_Inr_iff) (simp add: sample_deleted_def sample_cxref_def)
  then show ?thesis
    by (simp add: sample_deleted_def sample_cxref_def sample_tab_def)
qed

section \<open>Runs of reservations\<close>

fun reserve_many :: "nat \<Rightarrow> cxref \<Rightarrow> ref list result \<times> cxref" where
  "reserve_many 0 x = (Inr [], x)"
| "reserve_many (Suc n) x =
     (case cxref_reserveRef x of
        (Inl e, x1) \<Rightarrow> (Inl e, x1)
      | (Inr r, x1) \<Rightarrow>
          (case reserve_many n x1 of
             (Inl e, x2) \<Rightarrow> (Inl e, x2)
           | (Inr rs, x2) \<Rightarrow> (Inr (r # rs), x2)))"

text \<open>Every new reference carries the generation its number demands.\<close>

definition new_gens :: "cxref \<Rightarrow> bool" where
  "new_gens x \<longleftrightarrow> (\<forall>r st. storage_get (newStorage x) r = Some st \<longrightarrow>
     ref_gen r = (if nat (ref_num r) < free_stop x then entry_gen (entries (tab x) ! nat (ref_num r)) else 0))"

lemma free_stop_newStorage [simp]: "free_stop (x\<lparr>newStorage := n\<rparr>) = free_stop x"
  by (simp add: free_stop_def)

lemma new_gens_reserve:
  assumes "new_gens x" "cxref_reserveRef x = (Inr r, x')"
  shows "new_gens x'" and "\<forall>q st. storage_get (newStorage x) q = Some st \<longrightarrow> ref_num q \<noteq> ref_num r"
proof -
  from assms(2) have x': "x' = x\<lparr>newStorage := storage_set (newStorage x) r RESERVED_REF\<rparr>"
    and r: "find_unused_ref x = Some r"
    by (simp_all add: reserveRef_Inr_iff)
  from r obtain j where j: "ref_num r = int j" "\<not> storage_contains (newStorage x) r"
    and gen: "ref_gen r = (if j < free_stop x then entry_gen (entries (tab x) ! j) else 0)"
    using find_unused_ref_spec by blast
  show "new_gens x'"
    using assms(1) gen j(1) unfolding new_gens_def x' by auto
  show "\<forall>q st. storage_get (newStorage x) q = Some st \<longrightarrow> ref_num q \<noteq> ref_num r"
  proof (intro allI impI notI)
    fix q st assume q: "storage_get (newStorage x) q = Some st" "ref_num q = ref_num r"
    with assms(1) gen j(1) have "ref_gen q = ref_gen r" by (auto simp: new_gens_def)
    with q(2) have "q = r" by (simp add: ref.expand)
    with q(1) j(2) show False by (simp add: storage_contains_def)
  qed
qed

lemma reserve_many_distinct:
  assumes "new_gens x" "reserve_many n x = (Inr rs, x')"
  shows "distinct (map ref_num rs) \<and> length rs = n
    \<and> (\<forall>q st. storage_get (newStorage x) q = Some st \<longrightarrow> ref_num q \<notin> set (map ref_num rs))"
  using assms
proof (induction n arbitrary: x rs)
  case (Suc n)
  then obtain r x1 rs' where r: "cxref_reserveRef x = (Inr r, x1)"
    and rs': "reserve_many n x1 = (Inr rs', x')" "rs = r # rs'"
    by (auto split: prod.splits sum.splits)
  note step = new_gens_reserve [OF Suc.prems(1) r]
  have new: "storage_get (newStorage x1) = (storage_get (newStorage x))(r \<mapsto> RESERVED_REF)"
    using r by (auto simp: reserveRef_Inr_iff)
  have IH: "distinct (map ref_num rs')" "length rs' = n"
    "\<And>q st. storage_get (newStorage x1) q = Some st \<Longrightarrow> ref_num q \<notin> set (map ref_num rs')"
    using Suc.IH [OF step(1) rs'(1)] by blast+
  have "ref_num r \<notin> set (map ref_num rs')"
    using IH(3) [of r] new by simp
  moreover have "ref_num q \<notin> set (map ref_num rs')" if "storage_get (newStorage x) q = Some st" for q st
    using IH(3) [of q] new that by (cases "q = r") auto
  ultimately show ?case
    using IH(1,2) step(2) rs'(2) by auto
qed simp

text \<open>
  Starting with no reserved references, \<open>n\<close> reservations in a row hand out references
  with pairwise different object numbers, so no two new objects overwrite each other in a saved file.
\<close>

theorem reservations_distinct:
  assumes "newStorage x = []" and "reserve_many n x = (Inr rs, x')"
  shows "length rs = n \<and> distinct (map ref_num rs)"
  using reserve_many_distinct [of x n rs x'] assms by (simp add: new_gens_def)

theorem reservations_distinct_witness:
  "newStorage sample_cxref = [] \<and> (\<exists>rs x'. reserve_many 1 sample_cxref = (Inr rs, x')
     \<and> length rs = 1 \<and> distinct (map ref_num rs) \<and> rs = [Ref 2 1])"
proof -
  have n: "newStorage sample_cxref = []" by (simp add: sample_cxref_def)
  have "reserve_many 1 sample_cxref
      = (Inr [Ref 2 1], sample_cxref\<lparr>newStorage := [(Ref 2 1, RESERVED_REF)]\<rparr>)"
    using reserveRef_sample by simp
  with n reservations_distinct [OF n this] show ?thesis by simp
qed

section \<open>Changes\<close>

text \<open>Deep copies of a readable document never fail, so no change does.\<close>

lemma change_all_total:
  "\<not> needs_credentials x \<Longrightarrow> \<exists>x'. change_all (cxref_changeObject deep_copy) ws x = (Inr (), x')"
proof (induction ws arbitrary: x)
  case (Cons w ws)
  obtain r v res x1 where w: "w = (r, v)" and ch: "cxref_changeObject deep_copy x r v = (res, x1)"
    by (metis surj_pair)
  with Cons.prems have "\<exists>old. res = Inr old" "\<not> needs_credentials x1"
    by (auto simp: cxref_changeObject_def deep_copy_def storage_put_def Let_def split: if_splits)
  with Cons.IH [of x1] w ch show ?case by auto
qed simp

text \<open>
  Claim C15: after a sequence of changes, \<^verbatim>\<open>fetch\<close> returns for every reference the value stored
  last, and for an untouched reference what it returned before; no change is visible elsewhere.
\<close>

theorem changes_read_back:
  assumes "change_all (cxref_changeObject deep_copy) ws x = (Inr (), x')"
  shows "fst (cxref_fetch deep_copy x' r)
    = (case map_of (rev ws) r of None \<Rightarrow> fst (cxref_fetch deep_copy x r) | Some v \<Rightarrow> Inr v)"
  by (rule cx.change_all_read [OF assms])

theorem changes_read_back_witness:
  "(\<exists>x'. change_all (cxref_changeObject deep_copy)
            [(Ref 3 0, XInt 1), (Ref 1 0, XNull), (Ref 3 0, XBool True)] sample_cxref = (Inr (), x')
     \<and> fst (cxref_fetch deep_copy x' (Ref 3 0)) = Inr (XBool True)
     \<and> fst (cxref_fetch deep_copy x' (Ref 2 1)) = Inr XNull)"
proof -
  have cred: "\<not> needs_credentials sample_cxref"
    by (simp add: sample_cxref_def)
  obtain x' where h: "change_all (cxref_changeObject deep_copy)
      [(Ref 3 0, XInt 1), (Ref 1 0, XNull), (Ref 3 0, XBool True)] sample_cxref = (Inr (), x')"
    using change_all_total [OF cred] by blast
  show ?thesis
    using h changes_read_back [OF h, of "Ref 3 0"] changes_read_back [OF h, of "Ref 2 1"]
    by (auto simp: cxref_fetch_def xref_fetch_def sample_cxref_def sample_tab_def deep_copy_def)
qed

lemma getTrailerDict_changed [simp]: "getTrailerDict (x\<lparr>currTrailer := Some d\<rparr>) = d"
  by (simp add: getTrailerDict_def)

text \<open>
  The trailer is copied on the first change: \<^verbatim>\<open>changeTrailer\<close> never writes the trailer
  of the table, returns the value the key had, and later lookups see exactly that key changed.
\<close>

theorem changeTrailer_copies:
  assumes "cxref_changeTrailer clone x (Some key) (Some v) = (Inr prev, x')" and "clone v = Some c"
  shows "tab x' = tab x \<and> prev = dict_find (getTrailerDict x) key
    \<and> dict_find (getTrailerDict x') = (dict_find (getTrailerDict x))(key \<mapsto> c)"
proof -
  obtain prev' d where upd: "dict_update (getTrailerDict x) key c = (prev', d)"
    by force
  with assms have "prev = prev'" "x' = x\<lparr>currTrailer := Some d\<rparr>"
    by (auto simp: cxref_changeTrailer_def split: if_splits)
  then show ?thesis
    using dict_update_old [of "getTrailerDict x" key c] dict_find_update [of "getTrailerDict x" key c]
    by (simp add: upd)
qed

theorem changeTrailer_copies_witness:
  "\<exists>x'. cxref_changeTrailer deep_copy sample_cxref (Some ''Size'') (Some (XInt 9)) = (Inr (Some (XInt 5)), x')
     \<and> tab x' = tab sample_cxref \<and> dict_find (getTrailerDict x') ''Size'' = Some (XInt 9)"
proof -
  obtain x' where h: "cxref_changeTrailer deep_copy sample_cxref (Some ''Size'') (Some (XInt 9))
      = (Inr (Some (XInt 5)), x')"
    by (simp add: cxref_changeTrailer_def sample_cxref_def sample_tab_def deep_copy_def
        getTrailerDict_def dict_update_def)
  from changeTrailer_copies [OF h] h show ?thesis
    by (auto simp: deep_copy_def)
qed

end
