(* ===== verification/Cobject_String.thy ===== *)
theory Cobject_String
  imports Xpdf_Object
begin

text \<open>
  \<^verbatim>\<open>src/src/kernel/cobject2string.cc\<close> and the validating functions of
  \<^verbatim>\<open>src/src/kernel/cobjectsimple.h\<close>: how an object is turned into PDF syntax, and how simple
  values are read back.  The readers of \<^verbatim>\<open>src/src/xpdf/xpdf/Lexer.cc\<close> for names, hexadecimal and
  literal strings are modelled as the other half of the round trips.
\<close>

section \<open>Characters\<close>

definition code :: "char \<Rightarrow> nat" where
  "code c = of_char c"

lemma code_less [simp]: "code c < 256"
  by (simp add: code_def)

lemma char_of_code [simp]: "char_of (code c) = c"
  by (simp add: code_def)

lemma code_char_of [simp]: "n < 256 \<Longrightarrow> code (char_of n) = n"
  by (simp add: code_def of_char_of)

text \<open>\<^verbatim>\<open>isprint\<close> in the C locale, \<^verbatim>\<open>toupper\<close>, \<^verbatim>\<open>isspace\<close>.\<close>

definition isprint :: "char \<Rightarrow> bool" where
  "isprint c \<longleftrightarrow> 32 \<le> code c \<and> code c < 127"

definition toupper :: "char \<Rightarrow> char" where
  "toupper c = (if 97 \<le> code c \<and> code c \<le> 122 then char_of (code c - 32) else c)"

definition isspace :: "char \<Rightarrow> bool" where
  "isspace c \<longleftrightarrow> code c = 32 \<or> (9 \<le> code c \<and> code c \<le> 13)"

section \<open>Numbers\<close>

text \<open>\<^verbatim>\<open>snprintf(buf, 23, "%d", val)\<close> keeps at most 22 characters.\<close>

definition simpleValueToString_int :: "int \<Rightarrow> string" where
  "simpleValueToString_int val = take 22 (show_int val)"

text \<open>
  \<^verbatim>\<open>trim_trailing_zero\<close>: behind the first dot, zeros at the end are cut, and the dot too when
  nothing is left behind it.
\<close>

definition trim_trailing_zero :: "string \<Rightarrow> string" where
  "trim_trailing_zero s =
     (case dropWhile (\<lambda>c. c \<noteq> CHR ''.'') s of
        [] \<Rightarrow> s
      | dot # decimals \<Rightarrow>
          let int_part = takeWhile (\<lambda>c. c \<noteq> CHR ''.'') s;
              decimals' = rev (dropWhile (\<lambda>c. c = CHR ''0'') (rev decimals))
          in if decimals' = [] then int_part else int_part @ dot # decimals')"

text \<open>\<^verbatim>\<open>"%.5f"\<close>: five decimals, ties to even, which is exact on the rational value.\<close>

definition round_even :: "rat \<Rightarrow> int" where
  "round_even q =
     (let f = \<lfloor>q\<rfloor>; d = q - of_int f in
      if d < 1 / 2 then f else if d > 1 / 2 then f + 1 else if even f then f else f + 1)"

definition printf_5f :: "rat \<Rightarrow> string" where
  "printf_5f q =
     (let n = nat (round_even (\<bar>q\<bar> * 100000)) in
      (if q < 0 then ''-'' else '''') @ show_nat (n div 100000) @ ''.''
        @ pad_left 5 (CHR ''0'') (show_nat (n mod 100000)))"

definition simpleValueToString_real :: "rat \<Rightarrow> string" where
  "simpleValueToString_real val = trim_trailing_zero (take 62 (printf_5f val))"

text \<open>\<^verbatim>\<open>IndiRef\<close> keeps both numbers as \<^verbatim>\<open>unsigned int\<close>.\<close>

definition to_unsigned :: "int \<Rightarrow> nat" where
  "to_unsigned i = nat (i mod 4294967296)"

definition indiref_string :: "ref \<Rightarrow> string" where
  "indiref_string r = show_nat (to_unsigned (ref_num r)) @ '' '' @ show_nat (to_unsigned (ref_gen r))"

definition simpleValueToString_ref :: "ref \<Rightarrow> string" where
  "simpleValueToString_ref r =
     show_nat (to_unsigned (ref_num r)) @ '' '' @ show_nat (to_unsigned (ref_gen r)) @ '' R''"

definition simpleValueToString_bool :: "bool \<Rightarrow> string" where
  "simpleValueToString_bool val = (if val then ''true'' else ''false'')"

section \<open>Names and strings\<close>

text \<open>\<^verbatim>\<open>specialChars\<close> of the lexer: white space and delimiters.\<close>

definition specialChars :: "nat list" where
  "specialChars = [0, 9, 10, 12, 13, 32, 37, 40, 41, 47, 60, 62, 91, 93, 123, 125]"

definition special :: "char \<Rightarrow> bool" where
  "special c \<longleftrightarrow> code c \<in> set specialChars"

definition hex_digit :: "nat \<Rightarrow> char" where
  "hex_digit d = char_of (if d < 10 then 48 + d else 87 + d)"

definition hex2 :: "char \<Rightarrow> string" where
  "hex2 c = [hex_digit (code c div 16), hex_digit (code c mod 16)]"

text \<open>
  \<^verbatim>\<open>makeNamePdfValid\<close>: special characters become \<^verbatim>\<open>#xx\<close>.  A byte above 127 is a negative
  \<^verbatim>\<open>char\<close>, becomes a huge \<^verbatim>\<open>unsigned\<close> and is copied; none of those is special anyway.
\<close>

fun makeNamePdfValid :: "string \<Rightarrow> string" where
  "makeNamePdfValid [] = []"
| "makeNamePdfValid (c # cs) =
     (if special c then CHR ''#'' # hex2 c else [c]) @ makeNamePdfValid cs"

text \<open>
  \<^verbatim>\<open>makeStringPdfValid\<close> walks the string from its end, with the flag \<^verbatim>\<open>need_escape\<close>, and builds
  the result reversed; \<open>esc_step\<close> is the body of the loop.
\<close>

definition esc_step :: "char \<Rightarrow> bool \<Rightarrow> string \<Rightarrow> bool \<times> string" where
  "esc_step c need tmp =
     (let (need1, tmp1) =
            (if c = CHR 0x5C then (\<not> need, tmp)
             else if need then (False, tmp @ [CHR 0x5C])
             else (need, tmp));
          need2 = (if \<not> need1 \<and> (c = CHR ''('' \<or> c = CHR '')'') then True else need1)
      in (need2, tmp1 @ [c]))"

fun esc_walk :: "string \<Rightarrow> bool \<Rightarrow> string \<Rightarrow> bool \<times> string" where
  "esc_walk [] need tmp = (need, tmp)"
| "esc_walk (c # cs) need tmp =
     (case esc_step c need tmp of (need', tmp') \<Rightarrow> esc_walk cs need' tmp')"

definition makeStringPdfValid :: "string \<Rightarrow> string" where
  "makeStringPdfValid str =
     (let (need, tmp) = esc_walk (rev str) False []
      in rev (if need then tmp @ [CHR 0x5C] else tmp))"

definition isBinaryString :: "string \<Rightarrow> bool" where
  "isBinaryString val \<longleftrightarrow> (\<exists>c\<in>set val. \<not> isprint c)"

definition makeHexString :: "string \<Rightarrow> string" where
  "makeHexString val = concat (map hex2 val)"

definition simpleValueToString_string :: "string \<Rightarrow> string" where
  "simpleValueToString_string val =
     (if \<not> isBinaryString val then ''('' @ makeStringPdfValid val @ '')''
      else ''<'' @ makeHexString val @ ''>'')"

definition simpleValueToString_name :: "string \<Rightarrow> string" where
  "simpleValueToString_name val = ''/'' @ makeNamePdfValid val"

section \<open>Arrays and dictionaries\<close>

definition newline :: string where
  "newline = [CHR 0x0A]"

text \<open>
  \<^verbatim>\<open>complexValueToString\<close> for arrays and dictionaries, over \<^verbatim>\<open>createObjFromXpdfObj\<close>, which throws
  for the types only the parser uses.  The representation of a stream is an argument: the writer
  treats streams apart.
\<close>

fun obj_string :: "(dict \<Rightarrow> string \<Rightarrow> string) \<Rightarrow> xobj \<Rightarrow> string result"
  and array_items :: "(dict \<Rightarrow> string \<Rightarrow> string) \<Rightarrow> xobj list \<Rightarrow> string result"
  and dict_items :: "(dict \<Rightarrow> string \<Rightarrow> string) \<Rightarrow> (string \<times> xobj) list \<Rightarrow> string result" where
  "obj_string sr (XBool b) = Inr (simpleValueToString_bool b)"
| "obj_string sr (XInt i) = Inr (simpleValueToString_int i)"
| "obj_string sr (XReal q) = Inr (simpleValueToString_real q)"
| "obj_string sr (XString s) = Inr (simpleValueToString_string s)"
| "obj_string sr (XName n) = Inr (simpleValueToString_name n)"
| "obj_string sr XNull = Inr ''null''"
| "obj_string sr (XRefObj r) = Inr (simpleValueToString_ref r)"
| "obj_string sr (XArray xs) =
     rbind (array_items sr xs) (\<lambda>body. Inr (''['' @ body @ '' ]''))"
| "obj_string sr (XDict d) =
     rbind (dict_items sr d) (\<lambda>body. Inr (''<<'' @ body @ newline @ ''>>''))"
| "obj_string sr (XStream d s) = Inr (sr d s)"
| "obj_string sr (XCmd _) = Inl ElementBadTypeException"
| "obj_string sr XError = Inl ElementBadTypeException"
| "obj_string sr XEOF = Inl ElementBadTypeException"
| "obj_string sr XNone = Inl ElementBadTypeException"
| "array_items sr [] = Inr ''''"
| "array_items sr (x # xs) =
     rbind (obj_string sr x) (\<lambda>a. rbind (array_items sr xs) (\<lambda>b. Inr ('' '' @ a @ b)))"
| "dict_items sr [] = Inr ''''"
| "dict_items sr ((k, v) # d) =
     rbind (obj_string sr v) (\<lambda>a. rbind (dict_items sr d) (\<lambda>b.
       Inr (newline @ ''/'' @ makeNamePdfValid k @ '' '' @ a @ b)))"

text \<open>\<^verbatim>\<open>createIndirectObjectStringFromString\<close> of \<^verbatim>\<open>src/src/kernel/cobject.cc\<close>.\<close>

definition createIndirectObjectStringFromString :: "ref \<Rightarrow> string \<Rightarrow> string" where
  "createIndirectObjectStringFromString rf val =
     indiref_string rf @ '' '' @ ''obj '' @ newline @ val @ newline @ ''endobj''"

section \<open>Reading simple values\<close>

text \<open>\<^verbatim>\<open>simpleValueFromString\<close> for \<^verbatim>\<open>bool\<close>: case is ignored.\<close>

definition simpleValueFromString_bool :: "string \<Rightarrow> bool result" where
  "simpleValueFromString_bool str =
     (if map toupper str = map toupper ''true'' then Inr True
      else if map toupper str = map toupper ''false'' then Inr False
      else Inl CObjBadValue)"

text \<open>
  \<^verbatim>\<open>istream >> int\<close>: white space, a sign, digits; no digit or a value out of range sets
  \<^verbatim>\<open>failbit\<close>, which throws.  Trailing characters are left alone.  \<^verbatim>\<open>unsigned int\<close> likewise: a
  minus sign negates modulo \<open>2 ^ 32\<close>.
\<close>

definition read_sign :: "string \<Rightarrow> bool \<times> string" where
  "read_sign s =
     (case s of
        [] \<Rightarrow> (False, s)
      | c # cs \<Rightarrow> if c = CHR ''-'' then (True, cs) else if c = CHR ''+'' then (False, cs) else (False, s))"

definition read_int :: "string \<Rightarrow> (int \<times> string) result" where
  "read_int str =
     (let (neg, s) = read_sign (dropWhile isspace str); (n, rest) = read_digits 0 s;
          v = (if neg then - int n else int n) in
      if length rest = length s then Inl CObjBadValue
      else if v < - 2147483648 \<or> v > 2147483647 then Inl CObjBadValue
      else Inr (v, rest))"

definition read_unsigned :: "string \<Rightarrow> (nat \<times> string) result" where
  "read_unsigned str =
     (let (neg, s) = read_sign (dropWhile isspace str); (n, rest) = read_digits 0 s in
      if length rest = length s then Inl CObjBadValue
      else if n > 4294967295 then Inl CObjBadValue
      else Inr (if neg then to_unsigned (- int n) else n, rest))"

definition simpleValueFromString_int :: "string \<Rightarrow> int result" where
  "simpleValueFromString_int str = rbind (read_int str) (\<lambda>(v, rest). Inr v)"

definition simpleValueFromString_ref :: "string \<Rightarrow> (nat \<times> nat) result" where
  "simpleValueFromString_ref str =
     rbind (read_unsigned str) (\<lambda>(num, rest).
       rbind (read_unsigned rest) (\<lambda>(gen, rest'). Inr (num, gen)))"

section \<open>The readers of the lexer\<close>

text \<open>Hexadecimal digits, either case, as in all three tokens below.\<close>

definition hex_value :: "char \<Rightarrow> nat option" where
  "hex_value c =
     (let k = code c in
      if 48 \<le> k \<and> k \<le> 57 then Some (k - 48)
      else if 65 \<le> k \<and> k \<le> 70 then Some (k - 55)
      else if 97 \<le> k \<and> k \<le> 102 then Some (k - 87)
      else None)"

text \<open>
  Name tokens (\<^verbatim>\<open>case '/'\<close> of \<^verbatim>\<open>Lexer::getObj\<close>): up to the first special character, with
  \<^verbatim>\<open>#xx\<close> decoded; a character that is not a digit after the first one is swallowed.  The token
  buffer holds \<^verbatim>\<open>tokBufSize\<close>-1 characters (\<open>n\<close> counts those stored).
\<close>

definition tokBufSize :: nat where
  "tokBufSize = 128"

fun lex_name :: "nat \<Rightarrow> string \<Rightarrow> string \<times> string" where
  "lex_name n [] = ([], [])"
| "lex_name n (c # cs) =
     (if special c then ([], c # cs)
      else let (c', rest) =
            (if c \<noteq> CHR ''#'' then (c, cs)
             else case cs of
               [] \<Rightarrow> (c, cs)
             | d # ds \<Rightarrow>
                 (case hex_value d of
                    None \<Rightarrow> (c, cs)
                  | Some hi \<Rightarrow>
                      (case ds of
                         [] \<Rightarrow> (char_of (16 * hi), [])
                       | e # es \<Rightarrow>
                           (char_of (16 * hi + (case hex_value e of None \<Rightarrow> 0 | Some lo \<Rightarrow> lo)), es)))) in
           if Suc n = tokBufSize then ([], rest)
           else if length rest < length (c # cs)
           then (let (name, rest') = lex_name (Suc n) rest in (c' # name, rest'))
           else ([], rest))"

text \<open>\<^verbatim>\<open>initName\<close> copies the buffer as a C string, up to its first null character.\<close>

definition read_name :: "string \<Rightarrow> string \<times> string" where
  "read_name s = (let (buf, rest) = lex_name 0 s in (takeWhile (\<lambda>c. code c \<noteq> 0) buf, rest))"

text \<open>Hexadecimal strings, behind the opening bracket; \<open>pending\<close> is the first digit of a pair.\<close>

fun lex_hex :: "nat option \<Rightarrow> string \<Rightarrow> string \<times> string" where
  "lex_hex pending [] = ((case pending of None \<Rightarrow> [] | Some c2 \<Rightarrow> [char_of (16 * c2)]), [])"
| "lex_hex pending (c # cs) =
     (if c = CHR ''>'' then ((case pending of None \<Rightarrow> [] | Some c2 \<Rightarrow> [char_of (16 * c2)]), cs)
      else if code c \<in> {0, 9, 10, 12, 13, 32} then lex_hex pending cs
      else let v = (case hex_value c of None \<Rightarrow> 0 | Some d \<Rightarrow> d) in
           (case pending of
              None \<Rightarrow> lex_hex (Some v) cs
            | Some c2 \<Rightarrow> (let (s, rest) = lex_hex None cs in (char_of (16 * c2 + v) # s, rest))))"

text \<open>
  Literal strings, behind the opening parenthesis, with the nesting depth \<open>numParen\<close>.  The octal
  and line-continuation escapes are in \<open>lex_escape\<close>, which returns the character meant, if any.
\<close>

definition octal :: "char \<Rightarrow> nat option" where
  "octal c = (if 48 \<le> code c \<and> code c \<le> 55 then Some (code c - 48) else None)"

fun lex_octal :: "nat \<Rightarrow> nat \<Rightarrow> string \<Rightarrow> nat \<times> string" where
  "lex_octal 0 v cs = (v, cs)"
| "lex_octal (Suc k) v [] = (v, [])"
| "lex_octal (Suc k) v (c # cs) =
     (case octal c of None \<Rightarrow> (v, c # cs) | Some d \<Rightarrow> lex_octal k (8 * v + d) cs)"

definition lex_escape :: "string \<Rightarrow> char option \<times> string" where
  "lex_escape s =
     (case s of
        [] \<Rightarrow> (None, [])
      | c # cs \<Rightarrow>
          if c = CHR ''n'' then (Some (char_of (10::nat)), cs)
          else if c = CHR ''r'' then (Some (char_of (13::nat)), cs)
          else if c = CHR ''t'' then (Some (char_of (9::nat)), cs)
          else if c = CHR ''b'' then (Some (char_of (8::nat)), cs)
          else if c = CHR ''f'' then (Some (char_of (12::nat)), cs)
          else (case octal c of
                  Some d \<Rightarrow> (let (v, rest) = lex_octal 2 d cs in (Some (char_of (v mod 256)), rest))
                | None \<Rightarrow>
                    if code c = 13
                    then (None, case cs of [] \<Rightarrow> [] | d # ds \<Rightarrow> if code d = 10 then ds else cs)
                    else if code c = 10 then (None, cs)
                    else (Some c, cs)))"

lemma lex_octal_length: "length (snd (lex_octal k v s)) \<le> length s"
  by (induction k v s rule: lex_octal.induct) (auto split: option.splits)

lemma lex_escape_length: "length (snd (lex_escape s)) \<le> length s"
proof (cases s)
  case (Cons c cs)
  have "length (snd (lex_octal 2 d cs)) \<le> Suc (length cs)" for d
    using lex_octal_length [of 2 d cs] by simp
  with Cons show ?thesis
    by (cases "octal c") (simp_all add: lex_escape_def case_prod_unfold Let_def split: list.split)
qed (simp add: lex_escape_def)

function lex_string :: "nat \<Rightarrow> string \<Rightarrow> string \<times> string" where
  "lex_string numParen [] = ([], [])"
| "lex_string numParen (c # cs) =
     (if c = CHR ''('' then (let (s, rest) = lex_string (Suc numParen) cs in (c # s, rest))
      else if c = CHR '')'' then
        (if numParen \<le> 1 then ([], cs)
         else let (s, rest) = lex_string (numParen - 1) cs in (c # s, rest))
      else if c = CHR 0x5C then
        (let (s, rest) = lex_string numParen (snd (lex_escape cs))
         in (case fst (lex_escape cs) of None \<Rightarrow> s | Some d \<Rightarrow> d # s, rest))
      else (let (s, rest) = lex_string numParen cs in (c # s, rest)))"
  by pat_completeness auto
termination
  by (relation "measure (\<lambda>(n, s). length s)") (auto simp: le_imp_less_Suc lex_escape_length)

declare lex_string.simps [simp del]

text \<open>Both string tokens.\<close>

definition read_string :: "string \<Rightarrow> (string \<times> string) option" where
  "read_string s =
     (case s of
        [] \<Rightarrow> None
      | c # cs \<Rightarrow>
          if c = CHR ''('' then Some (lex_string 1 cs)
          else if c = CHR ''<'' then
            (case cs of d # _ \<Rightarrow> if d = CHR ''<'' then None else Some (lex_hex None cs)
                      | [] \<Rightarrow> Some (lex_hex None cs))
          else None)"

section \<open>Names\<close>

lemma code_eq_iff: "code c = code d \<longleftrightarrow> c = d"
  by (simp add: code_def)

lemma code_null: "code (CHR 0x00) = 0"
  by (simp add: code_def)

lemma hex_value_hex_digit [simp]: "d < 16 \<Longrightarrow> hex_value (hex_digit d) = Some d"
  by (simp add: hex_value_def hex_digit_def)

lemma hex_value_bracket: "hex_value (CHR ''<'') = None"
  by (simp add: hex_value_def code_def)

lemma hex_digit_not_special: "d < 16 \<Longrightarrow> \<not> special (hex_digit d)"
  by (auto simp: special_def specialChars_def hex_digit_def)

lemma hash_not_special [simp]: "\<not> special (CHR ''#'')"
  by (simp add: special_def specialChars_def code_def)

lemma hex2_char_of: "char_of (16 * (code c div 16) + code c mod 16) = c"
  by simp

lemma lex_name_valid:
  assumes "case rest of [] \<Rightarrow> True | d # _ \<Rightarrow> special d"
  shows "CHR ''#'' \<notin> set name \<Longrightarrow> n + length name < tokBufSize \<Longrightarrow>
    lex_name n (makeNamePdfValid name @ rest) = (name, rest)"
proof (induction name arbitrary: n)
  case Nil
  with assms show ?case by (cases rest) auto
next
  case (Cons c name)
  have lt: "code c div 16 < 16" by (simp add: less_mult_imp_div_less)
  have IH: "lex_name (Suc n) (makeNamePdfValid name @ rest) = (name, rest)"
    using Cons by simp
  show ?case
  proof (cases "special c")
    case True
    have c: "char_of (code c div 16 * 16 + code c mod 16) = c" by simp
    show ?thesis
      using True Cons.prems lt IH c by (simp add: hex2_def mult.commute)
  next
    case False
    with Cons.prems IH show ?thesis by auto
  qed
qed



text \<open>
  The number sign itself is not escaped, so a name that contains one followed by two
  digits is read back as a different name.
\<close>

theorem name_number_sign:
  "simpleValueToString_name ''A#42'' = ''/A#42'' \<and> read_name ''A#42'' = (''AB'', [])"
  by code_simp


section \<open>Strings\<close>

text \<open>
  What a valid literal is: every backslash escapes a parenthesis or a backslash, and no parenthesis
  stands alone.  \<open>unescape\<close> drops the escaping backslashes.
\<close>

fun well_escaped :: "string \<Rightarrow> bool" where
  "well_escaped [] \<longleftrightarrow> True"
| "well_escaped (c # cs) \<longleftrightarrow>
     (if c = CHR 0x5C
      then (case cs of [] \<Rightarrow> False
            | d # ds \<Rightarrow> (d = CHR 0x5C \<or> d = CHR ''('' \<or> d = CHR '')'') \<and> well_escaped ds)
      else c \<noteq> CHR ''('' \<and> c \<noteq> CHR '')'' \<and> well_escaped cs)"

fun unescape :: "string \<Rightarrow> string" where
  "unescape [] = []"
| "unescape (c # cs) =
     (if c = CHR 0x5C then (case cs of [] \<Rightarrow> [] | d # ds \<Rightarrow> d # unescape ds) else c # unescape cs)"

text \<open>One step, by the kind of character: the pending backslash is written unless \<open>c\<close> is one.\<close>

definition pending :: "bool \<Rightarrow> string" where
  "pending need = (if need then [CHR 0x5C] else [])"

lemma pending_simps [simp]: "pending True = [CHR 0x5C]" "pending False = []"
  by (simp_all add: pending_def)

lemma esc_step_backslash: "esc_step (CHR 0x5C) need tmp = (\<not> need, tmp @ [CHR 0x5C])"
  by (simp add: esc_step_def)

lemma esc_step_paren:
  "c = CHR ''('' \<or> c = CHR '')'' \<Longrightarrow> esc_step c need tmp = (True, tmp @ pending need @ [c])"
  by (auto simp: esc_step_def)

lemma esc_step_plain:
  "c \<noteq> CHR 0x5C \<Longrightarrow> c \<noteq> CHR ''('' \<Longrightarrow> c \<noteq> CHR '')'' \<Longrightarrow>
   esc_step c need tmp = (False, tmp @ pending need @ [c])"
  by (simp add: esc_step_def)

lemma char_kinds:
  obtains "c = CHR 0x5C" | "c = CHR ''('' \<or> c = CHR '')''" "c \<noteq> CHR 0x5C"
  | "c \<noteq> CHR 0x5C" "c \<noteq> CHR ''(''" "c \<noteq> CHR '')''"
  by (cases "c = CHR 0x5C"; cases "c = CHR ''(''"; cases "c = CHR '')''") auto

text \<open>
  The walk keeps: what is built is well escaped, once the pending backslash is put in front.
\<close>

lemma esc_step_well_escaped:
  assumes "well_escaped (pending need @ rev tmp)" "esc_step c need tmp = (need', tmp')"
  shows "well_escaped (pending need' @ rev tmp')"
proof (cases c rule: char_kinds)
  case 1
  with assms show ?thesis by (cases need) (auto simp: esc_step_backslash)
next
  case 2
  with assms show ?thesis by (cases need) (auto simp: esc_step_paren)
next
  case 3
  with assms show ?thesis by (cases need) (auto simp: esc_step_plain)
qed

lemma esc_walk_well_escaped:
  "well_escaped (pending need @ rev tmp) \<Longrightarrow> esc_walk cs need tmp = (need', tmp') \<Longrightarrow>
   well_escaped (pending need' @ rev tmp')"
proof (induction cs arbitrary: need tmp)
  case (Cons c cs)
  obtain n t where step: "esc_step c need tmp = (n, t)" by force
  with Cons show ?case using esc_step_well_escaped [OF _ step] by simp
qed simp

lemma makeStringPdfValid_unfold:
  "esc_walk (rev str) False [] = (need, tmp) \<Longrightarrow> makeStringPdfValid str = pending need @ rev tmp"
  by (simp add: makeStringPdfValid_def pending_def)

lemma well_escaped_makeStringPdfValid: "well_escaped (makeStringPdfValid str)"
proof -
  obtain tmp need where walk: "esc_walk (rev str) False [] = (need, tmp)"
    by force
  show ?thesis
    using esc_walk_well_escaped [OF _ walk] makeStringPdfValid_unfold [OF walk] by simp
qed

lemma esc_walk_append:
  "esc_walk (xs @ ys) need tmp = (case esc_walk xs need tmp of (n, t) \<Rightarrow> esc_walk ys n t)"
  by (induction xs arbitrary: need tmp) (simp_all split: prod.split)

lemma esc_walk_fixed: "well_escaped s \<Longrightarrow> esc_walk (rev s) False tmp = (False, tmp @ rev s)"
proof (induction s arbitrary: tmp rule: well_escaped.induct)
  case (2 c cs)
  show ?case
  proof (cases "c = CHR 0x5C")
    case True
    with "2.prems" obtain d ds where cs: "cs = d # ds" "well_escaped ds"
      "d = CHR 0x5C \<or> d = CHR ''('' \<or> d = CHR '')''"
      by (auto split: list.splits)
    have "esc_step d False t = (True, t @ [d])" for t
      using cs(3) esc_step_backslash [of False t] esc_step_paren [of d False t] by auto
    with True cs "2.IH"(1) [of d ds] show ?thesis
      by (simp add: esc_walk_append esc_step_backslash)
  next
    case False
    with 2 show ?thesis by (auto simp: esc_walk_append esc_step_plain)
  qed
qed simp

lemma makeStringPdfValid_fixed: "well_escaped s \<Longrightarrow> makeStringPdfValid s = s"
  using makeStringPdfValid_unfold [OF esc_walk_fixed [of s "[]"]] by simp

text \<open>Reading a valid literal removes the backslashes and stops at the closing parenthesis.\<close>

lemma lex_escape_plain:
  "d = CHR 0x5C \<or> d = CHR ''('' \<or> d = CHR '')'' \<Longrightarrow> lex_escape (d # ds) = (Some d, ds)"
  by (elim disjE; simp; code_simp)

lemma lex_string_well_escaped:
  "well_escaped s \<Longrightarrow> lex_string 1 (s @ CHR '')'' # rest) = (unescape s, rest)"
proof (induction s rule: well_escaped.induct)
  case 1
  show ?case by (simp add: lex_string.simps)
next
  case (2 c cs)
  show ?case
  proof (cases "c = CHR 0x5C")
    case True
    with "2.prems" obtain d ds where cs: "cs = d # ds" "well_escaped ds"
      "d = CHR 0x5C \<or> d = CHR ''('' \<or> d = CHR '')''"
      by (auto split: list.splits)
    from True cs "2.IH"(1) have IH: "lex_string 1 (ds @ CHR '')'' # rest) = (unescape ds, rest)"
      by blast
    have esc: "lex_string 1 (CHR 0x5C # t) = (let (s, rest) = lex_string 1 (snd (lex_escape t))
         in (case fst (lex_escape t) of None \<Rightarrow> s | Some d \<Rightarrow> d # s, rest))" for t
      by (subst lex_string.simps) simp
    show ?thesis
      unfolding True cs(1) append_Cons esc lex_escape_plain [OF cs(3), of "ds @ CHR '')'' # rest"]
      using IH by simp
  next
    case False
    with "2.prems" have c: "c \<noteq> CHR ''(''" "c \<noteq> CHR '')''" "well_escaped cs"
      by simp_all
    from False c(3) "2.IH"(2) have IH: "lex_string 1 (cs @ CHR '')'' # rest) = (unescape cs, rest)"
      by blast
    show ?thesis unfolding append_Cons
      by (subst lex_string.simps) (use False c IH in simp)
  qed
qed

text \<open>For a string without backslashes the walk only adds escapes, which reading removes.\<close>

lemma esc_step_unescape:
  assumes "c \<noteq> CHR 0x5C" "esc_step c need tmp = (need', tmp')"
  shows "unescape (pending need' @ rev tmp') = c # unescape (pending need @ rev tmp)"
proof (cases c rule: char_kinds)
  case 2
  with assms show ?thesis by (cases need) (auto simp: esc_step_paren)
next
  case 3
  with assms show ?thesis by (cases need) (auto simp: esc_step_plain)
qed (use assms in simp)

lemma esc_walk_unescape:
  "CHR 0x5C \<notin> set cs \<Longrightarrow> esc_walk cs need tmp = (need', tmp') \<Longrightarrow>
   unescape (pending need' @ rev tmp') = rev cs @ unescape (pending need @ rev tmp)"
proof (induction cs arbitrary: need tmp)
  case (Cons c cs)
  obtain n t where step: "esc_step c need tmp = (n, t)" by force
  with Cons show ?case using esc_step_unescape [OF _ step] by auto
qed simp

lemma unescape_makeStringPdfValid:
  assumes "CHR 0x5C \<notin> set str"
  shows "unescape (makeStringPdfValid str) = str"
proof -
  obtain tmp need where walk: "esc_walk (rev str) False [] = (need, tmp)"
    by force
  show ?thesis
    using esc_walk_unescape [OF _ walk] makeStringPdfValid_unfold [OF walk] assms by simp
qed

lemma lex_hex_makeHexString:
  "lex_hex None (makeHexString s @ CHR ''>'' # rest) = (s, rest)"
proof (induction s)
  case (Cons c s)
  have hi: "code c div 16 < 16" by (simp add: less_mult_imp_div_less)
  have d: "hex_digit k \<noteq> CHR ''>'' \<and> code (hex_digit k) \<notin> {0, 9, 10, 12, 13, 32}" if "k < 16" for k
    using that by (auto simp: hex_digit_def simp flip: code_eq_iff) (auto simp: code_def)
  have "char_of (16 * (code c div 16) + code c mod 16) = c" by simp
  with Cons d [OF hi] d [of "code c mod 16"] hi show ?case
    by (simp add: makeHexString_def hex2_def)
qed (simp add: makeHexString_def)


text \<open>
  \<^verbatim>\<open>makeStringPdfValid\<close> always yields a literal body in which every backslash escapes a
  parenthesis or a backslash and no parenthesis stands alone, it leaves such bodies as they are, and
  so it is idempotent: strings that come from a parsed literal are not escaped twice.
\<close>

theorem makeStringPdfValid_valid:
  "well_escaped (makeStringPdfValid str)
   \<and> makeStringPdfValid (makeStringPdfValid str) = makeStringPdfValid str
   \<and> (makeStringPdfValid str = str \<longleftrightarrow> well_escaped str)"
  using well_escaped_makeStringPdfValid [of str] makeStringPdfValid_fixed [of str]
    makeStringPdfValid_fixed [OF well_escaped_makeStringPdfValid [of str]]
  by metis



section \<open>Numbers read back\<close>

lemma show_nat_nonzero_length: "0 < length (show_nat n)"
  by simp

lemma digit_value_facts: "c \<in> set (show_nat n) \<Longrightarrow> digit_value c \<noteq> None"
  using show_nat_digits [of n] by auto

lemma digit_not_sign:
  "digit_value c \<noteq> None \<Longrightarrow> c \<noteq> CHR ''-'' \<and> c \<noteq> CHR ''+'' \<and> \<not> isspace c \<and> c \<noteq> CHR ''.''"
  by (auto simp: digit_value_def isspace_def code_def Let_def split: if_splits)

lemma read_sign_show_nat: "read_sign (dropWhile isspace (show_nat n @ s)) = (False, show_nat n @ s)"
proof (cases "show_nat n")
  case (Cons c cs)
  then have "digit_value c \<noteq> None" using digit_value_facts [of c n] by simp
  with Cons show ?thesis using digit_not_sign [of c] by (simp add: read_sign_def)
qed simp

lemma read_unsigned_show_nat:
  assumes "n < 4294967296" and "case s of [] \<Rightarrow> True | c # _ \<Rightarrow> digit_value c = None"
  shows "read_unsigned (show_nat n @ s) = Inr (n, s)"
  using assms by (simp add: read_unsigned_def read_sign_show_nat read_digits_show_nat)

lemma read_unsigned_space:
  "isspace c \<Longrightarrow> read_unsigned (c # s) = read_unsigned s"
  by (simp add: read_unsigned_def)

lemma length_show_int:
  assumes "- (10 ^ 20) < i" "i < 10 ^ 20"
  shows "length (show_int i) \<le> 22"
proof -
  have "nat \<bar>i\<bar> < 10 ^ 20" using assms by (simp add: nat_less_iff)
  then have "length (show_nat (nat \<bar>i\<bar>)) \<le> 20" by (rule length_show_nat_le) simp
  then show ?thesis by (auto simp: show_int_def split: if_splits)
qed

lemma read_int_show_int:
  assumes "-2147483648 \<le> i" "i \<le> 2147483647" and "case s of [] \<Rightarrow> True | c # _ \<Rightarrow> digit_value c = None"
  shows "read_int (show_int i @ s) = Inr (i, s)"
proof (cases "i < 0")
  case True
  have "\<not> isspace (CHR ''-'')" by (simp add: isspace_def code_def)
  with True assms show ?thesis
    by (simp add: show_int_def read_int_def read_sign_def read_digits_show_nat)
next
  case False
  with assms show ?thesis
    by (simp add: show_int_def read_int_def read_sign_show_nat read_digits_show_nat)
qed

lemma simple_bool_true: "simpleValueFromString_bool (simpleValueToString_bool True) = Inr True"
  by code_simp

lemma simple_bool_false: "simpleValueFromString_bool (simpleValueToString_bool False) = Inr False"
  by code_simp

text \<open>
  Claim C20: integers in the 32-bit range, references with 32-bit numbers and booleans survive
  \<^verbatim>\<open>simpleValueToString\<close> followed by \<^verbatim>\<open>simpleValueFromString\<close>.
\<close>

theorem simple_value_roundtrip:
  assumes "-2147483648 \<le> i" and "i \<le> 2147483647"
    and "0 \<le> ref_num r" and "ref_num r < 4294967296" and "0 \<le> ref_gen r" and "ref_gen r < 4294967296"
  shows "simpleValueFromString_int (simpleValueToString_int i) = Inr i
    \<and> simpleValueFromString_ref (simpleValueToString_ref r) = Inr (nat (ref_num r), nat (ref_gen r))
    \<and> simpleValueFromString_bool (simpleValueToString_bool b) = Inr b"
proof (intro conjI)
  have "length (show_int i) \<le> 22" using assms by (intro length_show_int) auto
  then show "simpleValueFromString_int (simpleValueToString_int i) = Inr i"
    using read_int_show_int [of i "[]"] assms
    by (simp add: simpleValueFromString_int_def simpleValueToString_int_def)
next
  have u: "to_unsigned (ref_num r) = nat (ref_num r)" "to_unsigned (ref_gen r) = nat (ref_gen r)"
    using assms by (simp_all add: to_unsigned_def)
  have sp: "isspace (CHR '' '')" "digit_value (CHR '' '') = None"
    by (simp_all add: isspace_def code_def digit_value_def)
  show "simpleValueFromString_ref (simpleValueToString_ref r) = Inr (nat (ref_num r), nat (ref_gen r))"
    using assms sp
    by (simp add: simpleValueFromString_ref_def simpleValueToString_ref_def u
          read_unsigned_show_nat read_unsigned_space)
next
  show "simpleValueFromString_bool (simpleValueToString_bool b) = Inr b"
    using simple_bool_true simple_bool_false by (cases b) simp_all
qed

theorem simple_value_roundtrip_witness:
  "simpleValueFromString_int (simpleValueToString_int (-2147483648)) = Inr (-2147483648)
   \<and> simpleValueFromString_ref (simpleValueToString_ref (Ref 12 65535)) = Inr (12, 65535)
   \<and> simpleValueFromString_bool (simpleValueToString_bool True) = Inr True"
  using simple_value_roundtrip [of "-2147483648" "Ref 12 65535" True] by simp

section \<open>Real numbers\<close>

text \<open>
  The value a decimal numeral denotes: a sign, digits, and decimals behind a dot
  (\<^verbatim>\<open>Lexer::getObj\<close> sums the decimals with scale 0.1, 0.01, ...).
\<close>

definition digits_value :: "string \<Rightarrow> nat" where
  "digits_value s = fst (read_digits 0 s)"

definition unsigned_value :: "string \<Rightarrow> rat" where
  "unsigned_value s =
     (let ip = takeWhile (\<lambda>c. c \<noteq> CHR ''.'') s;
          fp = drop (Suc (length ip)) s
      in of_nat (digits_value ip) + of_nat (digits_value fp) / 10 ^ length fp)"

definition decimal_value :: "string \<Rightarrow> rat" where
  "decimal_value s =
     (case read_sign s of (neg, t) \<Rightarrow> (if neg then - unsigned_value t else unsigned_value t))"

definition all_digits :: "string \<Rightarrow> bool" where
  "all_digits s \<longleftrightarrow> (\<forall>c\<in>set s. digit_value c \<noteq> None)"

lemma all_digits_show_nat [simp]: "all_digits (show_nat n)"
  by (simp add: all_digits_def digit_value_facts)

lemma digits_value_show_nat [simp]: "digits_value (show_nat n) = n"
  using read_digits_show_nat [of "[]" n] by (simp add: digits_value_def)

lemma read_digits_zero: "read_digits 0 (CHR ''0'' # s) = read_digits 0 s"
  by (simp add: digit_value_def)

lemma digits_value_pad [simp]: "digits_value (pad_left w (CHR ''0'') (show_nat n)) = n"
proof -
  have "read_digits 0 (replicate k (CHR ''0'') @ s) = read_digits 0 s" for k s
    by (induction k) (simp_all add: digit_value_def)
  then show ?thesis
    using digits_value_show_nat [of n] unfolding digits_value_def pad_left_def by simp
qed

lemma read_digits_append:
  "all_digits xs \<Longrightarrow> read_digits acc (xs @ ys) = read_digits (fst (read_digits acc xs)) ys"
  by (induction xs arbitrary: acc) (auto simp: all_digits_def split: option.split)

lemma digits_value_snoc0:
  "all_digits xs \<Longrightarrow> digits_value (xs @ replicate k (CHR ''0'')) = digits_value xs * 10 ^ k"
proof -
  assume "all_digits xs"
  moreover have "fst (read_digits acc (replicate k (CHR ''0''))) = acc * 10 ^ k" for acc
    by (induction k arbitrary: acc) (simp_all add: digit_value_def mult.commute)
  ultimately show ?thesis by (simp add: digits_value_def read_digits_append)
qed


lemma all_digits_no_dot: "all_digits ip \<Longrightarrow> CHR ''.'' \<notin> set ip"
  using digit_not_sign [of "CHR ''.''"] by (auto simp: all_digits_def)

lemma unsigned_value_dot:
  "all_digits ip \<Longrightarrow> unsigned_value (ip @ CHR ''.'' # fp)
     = of_nat (digits_value ip) + of_nat (digits_value fp) / 10 ^ length fp"
proof -
  assume "all_digits ip"
  then have "\<And>c. c \<in> set ip \<Longrightarrow> c \<noteq> CHR ''.''"
    using digit_not_sign by (auto simp: all_digits_def)
  then have "takeWhile (\<lambda>c. c \<noteq> CHR ''.'') (ip @ CHR ''.'' # fp) = ip"
    by (simp add: takeWhile_append2)
  then show ?thesis by (simp add: unsigned_value_def)
qed

lemma unsigned_value_int: "all_digits ip \<Longrightarrow> unsigned_value ip = of_nat (digits_value ip)"
proof -
  assume "all_digits ip"
  then have "\<And>c. c \<in> set ip \<Longrightarrow> c \<noteq> CHR ''.''"
    using digit_not_sign by (auto simp: all_digits_def)
  then have t: "takeWhile (\<lambda>c. c \<noteq> CHR ''.'') ip = ip" by simp
  show ?thesis unfolding unsigned_value_def t by (simp add: digits_value_def)
qed

lemma digit_zero: "digit_value (CHR ''0'') \<noteq> None"
  by (simp add: digit_value_def)

lemma trim_zeros_split:
  obtains k where "fp = rev (dropWhile (\<lambda>c. c = z) (rev fp)) @ replicate k z"
proof -
  have "takeWhile (\<lambda>c. c = z) (rev fp) = replicate (length (takeWhile (\<lambda>c. c = z) (rev fp))) z"
    by (metis (mono_tags, lifting) replicate_length_same set_takeWhileD)
  then obtain k where k: "takeWhile (\<lambda>c. c = z) (rev fp) = replicate k z" by blast
  have "rev fp = replicate k z @ dropWhile (\<lambda>c. c = z) (rev fp)"
    by (metis k takeWhile_dropWhile_id)
  then have "fp = rev (dropWhile (\<lambda>c. c = z) (rev fp)) @ replicate k z"
    by (metis rev_append rev_replicate rev_rev_ident)
  then show ?thesis by (rule that)
qed

lemma trim_trailing_zero_dot:
  assumes "CHR ''.'' \<notin> set pre"
  shows "trim_trailing_zero (pre @ CHR ''.'' # fp) =
    (let d = rev (dropWhile (\<lambda>c. c = CHR ''0'') (rev fp)) in
     if d = [] then pre else pre @ CHR ''.'' # d)"
proof -
  have "\<And>c. c \<in> set pre \<Longrightarrow> c \<noteq> CHR ''.''" using assms by auto
  then have "takeWhile (\<lambda>c. c \<noteq> CHR ''.'') (pre @ CHR ''.'' # fp) = pre"
       "dropWhile (\<lambda>c. c \<noteq> CHR ''.'') (pre @ CHR ''.'' # fp) = CHR ''.'' # fp"
    by (simp_all add: takeWhile_append2 dropWhile_append2)
  then show ?thesis by (simp add: trim_trailing_zero_def Let_def)
qed

text \<open>Trimming does not change the value, with or without a sign in front.\<close>

definition sign :: "bool \<Rightarrow> string" where
  "sign neg = (if neg then ''-'' else '''')"

lemma decimal_value_sign:
  assumes "all_digits ip" "ip \<noteq> []"
  shows "decimal_value (sign neg @ ip @ t) =
    (if neg then - unsigned_value (ip @ t) else unsigned_value (ip @ t))"
proof -
  obtain c cs where "ip = c # cs" using assms by (cases ip) auto
  moreover with assms have "c \<noteq> CHR ''-''" "c \<noteq> CHR ''+''"
    using digit_not_sign [of c] by (auto simp: all_digits_def)
  ultimately show ?thesis
    by (simp add: decimal_value_def read_sign_def sign_def)
qed

lemma unsigned_value_drop_zeros:
  assumes "all_digits ip" "all_digits d"
  shows "unsigned_value (ip @ CHR ''.'' # d @ replicate k (CHR ''0''))
    = unsigned_value (ip @ (if d = [] then [] else CHR ''.'' # d))"
  using assms digits_value_snoc0 [of d k]
  by (auto simp: unsigned_value_dot unsigned_value_int power_add digits_value_def)

lemma decimal_value_trim:
  assumes "all_digits ip" "ip \<noteq> []" "all_digits fp"
  shows "decimal_value (trim_trailing_zero (sign neg @ ip @ CHR ''.'' # fp))
    = decimal_value (sign neg @ ip @ CHR ''.'' # fp)"
proof -
  define d where "d = rev (dropWhile (\<lambda>c. c = CHR ''0'') (rev fp))"
  obtain k where k: "fp = d @ replicate k (CHR ''0'')"
    unfolding d_def by (rule trim_zeros_split)
  have no: "CHR ''.'' \<notin> set (sign neg @ ip)"
    using all_digits_no_dot [OF assms(1)] by (simp add: sign_def)
  have trim: "trim_trailing_zero (sign neg @ ip @ CHR ''.'' # fp)
      = sign neg @ ip @ (if d = [] then [] else CHR ''.'' # d)"
    using trim_trailing_zero_dot [OF no, of fp] by (simp add: d_def)
  have "all_digits d" using assms(3) k by (simp add: all_digits_def)
  from unsigned_value_drop_zeros [OF assms(1) this, of k]
  have "unsigned_value (ip @ CHR ''.'' # fp) = unsigned_value (ip @ (if d = [] then [] else CHR ''.'' # d))"
    unfolding k .
  then show ?thesis by (simp only: trim decimal_value_sign [OF assms(1,2)])
qed

lemma round_even_error: "\<bar>of_int (round_even x) - x\<bar> \<le> 1 / 2"
proof -
  define f where "f = \<lfloor>x\<rfloor>"
  have "of_int f \<le> x" "x < of_int f + 1" using floor_correct [of x] by (simp_all add: f_def)
  then show ?thesis
    unfolding round_even_def Let_def f_def [symmetric] by (auto simp: abs_le_iff)
qed

lemma round_even_nonneg: "0 \<le> x \<Longrightarrow> 0 \<le> round_even x"
  by (auto simp: round_even_def Let_def)

lemma decimal_value_printf:
  assumes "n = nat (round_even (\<bar>q\<bar> * 100000))"
  shows "decimal_value (printf_5f q) = (if q < 0 then - (of_nat n / 100000) else of_nat n / 100000)"
proof -
  let ?fp = "pad_left 5 (CHR ''0'') (show_nat (n mod 100000))"
  have "length (show_nat (n mod 100000)) \<le> 5" by (rule length_show_nat_le) simp_all
  then have len: "length ?fp = 5" by simp
  have v: "(of_nat n :: rat) = of_nat (n div 100000) * 100000 + of_nat (n mod 100000)"
    by (metis of_nat_add of_nat_mult of_nat_numeral div_mult_mod_eq)
  have "unsigned_value (show_nat (n div 100000) @ CHR ''.'' # ?fp) = of_nat n / 100000"
    unfolding unsigned_value_dot [OF all_digits_show_nat] len digits_value_pad digits_value_show_nat v
    by (simp add: add_divide_distrib)
  then show ?thesis
    using decimal_value_sign [of "show_nat (n div 100000)" "q < 0" "CHR ''.'' # ?fp"]
    by (simp add: printf_5f_def assms [symmetric] sign_def Let_def)
qed



end
