(* ===== verification/Stream_Writer.thy ===== *)
theory Stream_Writer
  imports Cobject_String
begin

text \<open>
  \<^verbatim>\<open>src/src/kernel/streamwriter.cc\<close>: a file that is written at a current position.  The
  position of the \<^verbatim>\<open>FILE\<close> handle and the one \<^verbatim>\<open>FileStream\<close> keeps are the same after every
  operation here, because each ends with \<^verbatim>\<open>setPos\<close>; they are one component of the state.
\<close>

record file_stream =
  sdata :: string
  spos :: nat
  sstart :: nat
  slimited :: bool
  slen :: nat

definition new_stream :: "string \<Rightarrow> file_stream" where
  "new_stream bytes = \<lparr>sdata = bytes, spos = 0, sstart = 0, slimited = False, slen = 0\<rparr>"

section \<open>Operations\<close>

text \<open>\<^verbatim>\<open>fwrite\<close> at a position: overwriting, and filling a hole with zero bytes.\<close>

definition write_at :: "nat \<Rightarrow> string \<Rightarrow> string \<Rightarrow> string" where
  "write_at pos bytes data =
     take pos (data @ replicate (pos - length data) (CHR 0x00)) @ bytes @ drop (pos + length bytes) data"

definition putChar :: "file_stream \<Rightarrow> char \<Rightarrow> file_stream" where
  "putChar s ch = s\<lparr>sdata := write_at (spos s) [ch] (sdata s), spos := Suc (spos s)\<rparr>"

definition putLine :: "file_stream \<Rightarrow> string \<Rightarrow> file_stream" where
  "putLine s line =
     (let bytes = line @ newline in
      s\<lparr>sdata := write_at (spos s) bytes (sdata s), spos := spos s + length bytes\<rparr>)"

definition setPos :: "file_stream \<Rightarrow> nat \<Rightarrow> file_stream" where
  "setPos s pos = s\<lparr>spos := pos\<rparr>"

text \<open>\<^verbatim>\<open>setPos(pos, -1)\<close> counts from the end.\<close>

definition setPos_end :: "file_stream \<Rightarrow> nat \<Rightarrow> file_stream" where
  "setPos_end s pos = s\<lparr>spos := length (sdata s) - min pos (length (sdata s))\<rparr>"

definition stream_reset :: "file_stream \<Rightarrow> file_stream" where
  "stream_reset s = s\<lparr>spos := sstart s\<rparr>"

definition truncate_file :: "nat \<Rightarrow> string \<Rightarrow> string" where
  "truncate_file n data = take n (data @ replicate (n - length data) (CHR 0x00))"

definition trim :: "file_stream \<Rightarrow> nat \<Rightarrow> bool \<times> file_stream" where
  "trim s pos =
     (if slimited s \<and> slen s < pos then (False, s)
      else let s' = s\<lparr>sdata := truncate_file (sstart s + pos) (sdata s)\<rparr> in
        (True, if spos s > sstart s + pos then setPos_end s' 0 else setPos s' (spos s)))"

text \<open>
  \<^verbatim>\<open>cloneToFile\<close> copies blocks of at most \<^verbatim>\<open>BUFSIZ\<close> bytes until nothing is left to read or
  the length is reached; \<open>copy_blocks\<close> is its loop.
\<close>

function copy_blocks :: "nat \<Rightarrow> string \<Rightarrow> nat \<Rightarrow> string" where
  "copy_blocks buf rest left =
     (let chunk = take (min buf left) rest in
      if chunk = [] then [] else chunk @ copy_blocks buf (drop (length chunk) rest) (left - length chunk))"
  by pat_completeness auto
termination
  by (relation "measure (\<lambda>(b, r, l). length r)") (auto simp: Let_def)

declare copy_blocks.simps [simp del]

definition BUFSIZ :: nat where
  "BUFSIZ = 8192"

definition cloneToFile :: "file_stream \<Rightarrow> nat \<Rightarrow> nat \<Rightarrow> string \<times> nat \<times> file_stream" where
  "cloneToFile s start len =
     (let out = copy_blocks BUFSIZ (drop start (sdata s)) len in
      (out, length out, setPos s (start + length out)))"

section \<open>Laws\<close>

lemma length_newline [simp]: "length newline = 1"
  by (simp add: newline_def)

lemma write_at_end: "write_at (length data) bytes data = data @ bytes"
  by (simp add: write_at_def)

lemma length_write_at:
  "length (write_at pos bytes data) = max (pos + length bytes) (length data)"
  by (simp add: write_at_def)

lemma take_write_at: "n \<le> pos \<Longrightarrow> pos \<le> length data \<Longrightarrow> take n (write_at pos bytes data) = take n data"
  by (simp add: write_at_def min_def)

lemma read_write_at: "take (length bytes) (drop pos (write_at pos bytes data)) = bytes"
  by (simp add: write_at_def)

lemma copy_blocks_eq: "0 < buf \<Longrightarrow> copy_blocks buf rest left = take left rest"
proof (induction buf rest left rule: copy_blocks.induct)
  case (1 buf rest left)
  let ?chunk = "take (min buf left) rest"
  show ?case
  proof (cases "?chunk = []")
    case True
    then have "copy_blocks buf rest left = []" by (simp add: copy_blocks.simps [of buf rest])
    with True "1.prems" show ?thesis by (cases "left = 0") auto
  next
    case False
    then have "copy_blocks buf rest left = ?chunk @ take (left - length ?chunk) (drop (length ?chunk) rest)"
      using 1 by (simp add: copy_blocks.simps [of buf rest] Let_def)
    also have "\<dots> = take left rest"
    proof -
      have "length ?chunk \<le> left" by simp
      moreover have "?chunk = take (length ?chunk) rest" by (simp add: take_all_iff min_def)
      ultimately show ?thesis
        by (metis append_take_drop_id le_add_diff_inverse take_add)
    qed
    finally show ?thesis .
  qed
qed

text \<open>
  Where writing goes on: a stream is \<open>at_end\<close> when the position is the end of the file; lines are
  then appended, and everything before stays.
\<close>

definition at_end :: "file_stream \<Rightarrow> bool" where
  "at_end s \<longleftrightarrow> spos s = length (sdata s)"

lemma putLine_at_end:
  "at_end s \<Longrightarrow> putLine s line = s\<lparr>sdata := sdata s @ line @ newline, spos := length (sdata s) + length line + 1\<rparr>"
  by (simp add: at_end_def putLine_def Let_def write_at_end)

lemma at_end_putLine [simp]: "at_end s \<Longrightarrow> at_end (putLine s line)"
  by (simp add: putLine_at_end) (simp add: at_end_def)

definition putLines :: "file_stream \<Rightarrow> string list \<Rightarrow> file_stream" where
  "putLines s ls = foldl putLine s ls"

definition lines_bytes :: "string list \<Rightarrow> string" where
  "lines_bytes ls = concat (map (\<lambda>l. l @ newline) ls)"

lemma lines_bytes_simps [simp]:
  "lines_bytes [] = []"
  "lines_bytes (l # ls) = l @ newline @ lines_bytes ls"
  "lines_bytes (xs @ ys) = lines_bytes xs @ lines_bytes ys"
  by (simp_all add: lines_bytes_def)

lemma putLines_simps [simp]:
  "putLines s [] = s"
  "putLines s (l # ls) = putLines (putLine s l) ls"
  "putLines s (xs @ ys) = putLines (putLines s xs) ys"
  by (simp_all add: putLines_def)

lemma putLines_spos: "spos (putLines s ls) = spos s + length (lines_bytes ls)"
  by (induction ls arbitrary: s) (simp_all add: putLine_def Let_def)

lemma putLines_fields [simp]:
  "sstart (putLines s ls) = sstart s" "slimited (putLines s ls) = slimited s"
  "slen (putLines s ls) = slen s"
  by (induction ls arbitrary: s) (simp_all add: putLine_def Let_def)

lemma write_at_append:
  assumes "pos \<le> length data"
  shows "write_at (pos + length xs) ys (write_at pos xs data) = write_at pos (xs @ ys) data"
  using assms by (simp add: write_at_def ac_simps)

text \<open>Any number of lines is one write of their bytes.\<close>

lemma putLines_sdata:
  "spos s \<le> length (sdata s) \<Longrightarrow>
   sdata (putLines s ls) = write_at (spos s) (lines_bytes ls) (sdata s)"
proof (induction ls arbitrary: s rule: rev_induct)
  case (snoc l ls)
  then show ?case
    by (simp add: putLine_def Let_def putLines_spos write_at_append flip: append_assoc)
qed (simp add: write_at_def)

lemma putLines_pos_ok:
  "spos s \<le> length (sdata s) \<Longrightarrow> spos (putLines s ls) \<le> length (sdata (putLines s ls))"
  by (simp add: putLines_spos putLines_sdata length_write_at)

text \<open>
  Cloning copies exactly the requested part of the file, or what there is of it, whatever
  the size of the blocks.
\<close>

theorem cloneToFile_copies:
  "fst (cloneToFile s start len) = take len (drop start (sdata s))
   \<and> fst (snd (cloneToFile s start len)) = min len (length (sdata s) - start)
   \<and> sdata (snd (snd (cloneToFile s start len))) = sdata s"
  by (simp add: cloneToFile_def Let_def copy_blocks_eq BUFSIZ_def setPos_def min.commute)

end
