(* ===== verification/Pdf_Writer.thy ===== *)
theory Pdf_Writer
  imports Stream_Writer CXref
begin

text \<open>
  \<^verbatim>\<open>src/src/kernel/pdfwriter.cc\<close>: the stream filters, the writer of old style cross reference
  tables (\<^verbatim>\<open>OldStylePdfWriter\<close>), its progress observer, and \<^verbatim>\<open>PdfDocumentWriter::writeDocument\<close>.
  Streams are put together by \<^verbatim>\<open>streamToCharBuffer\<close> of \<^verbatim>\<open>src/src/kernel/cobject2xpdf.cc\<close>.
\<close>

section \<open>Strings of xpdf objects\<close>

text \<open>
  What the writer takes from outside the kernel: \<open>w_fetch\<close> fetches the target of a reference
  from the document, \<open>w_decode\<close> is the filter chain of xpdf on the bytes of a stream,
  \<open>w_deflate\<close> is zlib, \<open>w_stream\<close> is the representation of a stream that occurs inside of
  another object, where PDF does not allow it.
\<close>

record writer_env =
  w_fetch :: "ref \<Rightarrow> xobj"
  w_decode :: "dict \<Rightarrow> string \<Rightarrow> string"
  w_deflate :: "string \<Rightarrow> string option"
  w_stream :: "dict \<Rightarrow> string \<Rightarrow> string"

definition w_lookup :: "writer_env \<Rightarrow> dict \<Rightarrow> string \<Rightarrow> xobj" where
  "w_lookup env d key =
     (case dict_lookupNF d key of XRefObj r \<Rightarrow> w_fetch env r | x \<Rightarrow> x)"

text \<open>A C string ends at the first null character.\<close>

definition c_string :: "string \<Rightarrow> string" where
  "c_string s = takeWhile (\<lambda>c. code c \<noteq> 0) s"

definition CSTREAM_HEADER :: string where
  "CSTREAM_HEADER = newline @ ''stream'' @ newline"

definition CSTREAM_FOOTER :: string where
  "CSTREAM_FOOTER = newline @ ''endstream''"

text \<open>
  \<^verbatim>\<open>xpdfObjToString\<close>, which prints the dictionaries of streams: keys are not escaped, and a
  string goes through its C string.
\<close>

fun xpdfObjToString :: "writer_env \<Rightarrow> xobj \<Rightarrow> string result"
  and xpdf_items :: "writer_env \<Rightarrow> xobj list \<Rightarrow> string result"
  and xpdf_entries :: "writer_env \<Rightarrow> dict \<Rightarrow> string result" where
  "xpdfObjToString env (XBool b) = Inr (simpleValueToString_bool b)"
| "xpdfObjToString env (XInt i) = Inr (simpleValueToString_int i)"
| "xpdfObjToString env (XReal q) = Inr (simpleValueToString_real q)"
| "xpdfObjToString env (XString s) = Inr (simpleValueToString_string (c_string s))"
| "xpdfObjToString env (XName n) = Inr (simpleValueToString_name n)"
| "xpdfObjToString env XNull = Inr ''null''"
| "xpdfObjToString env (XRefObj r) = Inr (simpleValueToString_ref r)"
| "xpdfObjToString env (XArray xs) =
     rbind (xpdf_items env xs) (\<lambda>body. Inr (''['' @ body @ '' ]''))"
| "xpdfObjToString env (XDict d) =
     rbind (xpdf_entries env d) (\<lambda>body. Inr (''<<'' @ body @ newline @ ''>>''))"
| "xpdfObjToString env (XStream d s) =
     rbind (xpdf_entries env d) (\<lambda>body. Inr (''<<'' @ body @ newline @ ''>>''
       @ CSTREAM_HEADER @ w_decode env d s @ CSTREAM_FOOTER))"
| "xpdfObjToString env (XCmd c) = Inr c"
| "xpdfObjToString env XError = Inr newline"
| "xpdfObjToString env XEOF = Inl CObjInvalidObject"
| "xpdfObjToString env XNone = Inl CObjInvalidObject"
| "xpdf_items env [] = Inr ''''"
| "xpdf_items env (x # xs) =
     rbind (xpdfObjToString env x) (\<lambda>a. rbind (xpdf_items env xs) (\<lambda>b. Inr ('' '' @ a @ b)))"
| "xpdf_entries env [] = Inr ''''"
| "xpdf_entries env ((k, v) # d) =
     rbind (xpdfObjToString env v) (\<lambda>a. rbind (xpdf_entries env d) (\<lambda>b.
       Inr (newline @ ''/'' @ k @ '' '' @ a @ b)))"

section \<open>Stream data\<close>

text \<open>
  \<^verbatim>\<open>bufferFromStream\<close> reads to the end of the stream, doubling the buffer when it is full.  A
  buffer of size zero stays one: \<^verbatim>\<open>realloc\<close> to zero bytes frees it, and it is freed again.
\<close>

definition bufferFromStream :: "string \<Rightarrow> nat \<Rightarrow> string result" where
  "bufferFromStream bytes dictLength =
     (if dictLength = 0 \<and> bytes \<noteq> [] then Inl UndefinedBehaviour else Inr bytes)"

definition is_int :: "xobj \<Rightarrow> bool" where
  "is_int obj \<longleftrightarrow> getType obj = objInt"

definition int_value :: "xobj \<Rightarrow> int" where
  "int_value obj = (case obj of XInt i \<Rightarrow> i | _ \<Rightarrow> 0)"

text \<open>
  An extractor gives the bytes to be written, if any, and the dictionary it leaves behind.  The
  first one is \<^verbatim>\<open>null_extractor\<close>: the bytes as they are.
\<close>

type_synonym extractor = "writer_env \<Rightarrow> dict \<Rightarrow> string \<Rightarrow> ((string \<times> dict) option) result"

definition null_extractor :: extractor where
  "null_extractor env d raw =
     (let len = w_lookup env d ''Length'' in
      if \<not> is_int len then Inr None
      else rbind (bufferFromStream raw (nat (int_value len))) (\<lambda>buf. Inr (Some (buf, d))))"

text \<open>
  \<^verbatim>\<open>convertStreamToDecodedData\<close>: the decoded bytes, and the fields of the filters removed, under
  the names the code has.
\<close>

definition decoded_fields :: "string list" where
  "decoded_fields = [''Filter'', ''DecodeParams'', ''F'', ''FFilter'', ''FDecodeParams'', ''DL'']"

definition del_all :: "string list \<Rightarrow> dict \<Rightarrow> dict" where
  "del_all names d = foldl (\<lambda>d f. snd (dict_del d f)) d names"

definition convertStreamToDecodedData :: extractor where
  "convertStreamToDecodedData env d raw =
     (let len = w_lookup env d ''Length'' in
      rbind (bufferFromStream (w_decode env d raw) (nat (int_value len)))
        (\<lambda>buf. Inr (Some (buf, del_all decoded_fields d))))"

text \<open>
  \<^verbatim>\<open>ZlibFilterStreamWriter::update_dict\<close> and \<^verbatim>\<open>deflate\<close>.  The code asks the stream object for its
  dictionary by \<^verbatim>\<open>getDict\<close>, not \<^verbatim>\<open>streamGetDict\<close>, to get the table for the new array; the table
  is never used for an array of a name, so the model leaves it out.
\<close>

definition update_dict :: "dict \<Rightarrow> dict" where
  "update_dict d = dict_add d ''Filter'' (XArray [XName ''FlateDecode''])"

definition zlib_extractor :: extractor where
  "zlib_extractor env d raw =
     rbind (convertStreamToDecodedData env d raw) (\<lambda>r. case r of
       None \<Rightarrow> Inr None
     | Some (rawBuffer, d') \<Rightarrow>
         if rawBuffer = [] then Inr (Some ([], d'))
         else (case w_deflate env rawBuffer of
                 None \<Rightarrow> Inr None
               | Some out \<Rightarrow> Inr (Some (out, update_dict d'))))"

text \<open>
  \<^verbatim>\<open>streamToCharBuffer\<close>: header, dictionary with the length of the data, data, footer.  \<open>None\<close>
  stands for the size zero, after which nothing is written.
\<close>

definition streamToCharBuffer ::
    "extractor \<Rightarrow> writer_env \<Rightarrow> ref option \<Rightarrow> xobj \<Rightarrow> (string option) result" where
  "streamToCharBuffer extract env ref obj =
     (case obj of
        XStream d raw \<Rightarrow>
          (let len = w_lookup env d ''Length'' in
           if \<not> is_int len then Inr None
           else if int_value len < 0 then Inr None
           else rbind (extract env d raw) (\<lambda>r. case r of
               None \<Rightarrow> Inr None
             | Some (buf, d') \<Rightarrow>
                 (let header = (case ref of None \<Rightarrow> '''' | Some r \<Rightarrow> indiref_string r @ '' '' @ ''obj '' @ newline);
                      footer = (case ref of None \<Rightarrow> '''' | Some r \<Rightarrow> newline @ ''endobj'');
                      d2 = (if int_value len \<noteq> int (length buf)
                            then snd (dict_update d' ''Length'' (XInt (int (length buf)))) else d')
                  in rbind (xpdfObjToString env (XDict d2)) (\<lambda>dict.
                       Inr (Some (header @ dict @ CSTREAM_HEADER @ buf @ CSTREAM_FOOTER @ footer))))))
      | _ \<Rightarrow> Inr None)"

section \<open>Filter writers\<close>

datatype filter_writer = NullFilterStreamWriter | ZlibFilterStreamWriter

text \<open>\<^verbatim>\<open>getFiltersFromStream\<close>: \<open>None\<close> for the result -1.\<close>

fun filter_names :: "writer_env \<Rightarrow> xobj list \<Rightarrow> string list option" where
  "filter_names env [] = Some []"
| "filter_names env (x # xs) =
     (case (case x of XRefObj r \<Rightarrow> w_fetch env r | y \<Rightarrow> y) of
        XName n \<Rightarrow> map_option ((#) n) (filter_names env xs)
      | _ \<Rightarrow> None)"

definition getFiltersFromStream :: "writer_env \<Rightarrow> dict \<Rightarrow> string list option" where
  "getFiltersFromStream env d =
     (case w_lookup env d ''Filter'' of
        XNull \<Rightarrow> Some []
      | XName n \<Rightarrow> Some [n]
      | XArray xs \<Rightarrow> filter_names env xs
      | _ \<Rightarrow> None)"

fun supportObject :: "writer_env \<Rightarrow> filter_writer \<Rightarrow> dict \<Rightarrow> bool" where
  "supportObject env NullFilterStreamWriter d = True"
| "supportObject env ZlibFilterStreamWriter d =
     (case getFiltersFromStream env d of
        None \<Rightarrow> True
      | Some filters \<Rightarrow> filters = [] \<or> filters = [''FlateDecode''])"

fun compress :: "writer_env \<Rightarrow> filter_writer \<Rightarrow> ref option \<Rightarrow> xobj \<Rightarrow> (string option) result" where
  "compress env NullFilterStreamWriter ref obj = streamToCharBuffer null_extractor env ref obj"
| "compress env ZlibFilterStreamWriter ref obj = streamToCharBuffer zlib_extractor env ref obj"

text \<open>The registry of filter writers: static state of \<^verbatim>\<open>FilterStreamWriter\<close>.\<close>

record registry =
  writers :: "filter_writer list"
  defaultWriter :: "filter_writer option"

definition registerFilterStreamWriter :: "registry \<Rightarrow> filter_writer \<Rightarrow> registry" where
  "registerFilterStreamWriter reg w = reg\<lparr>writers := writers reg @ [w]\<rparr>"

definition unregisterFilterStreamWriter :: "registry \<Rightarrow> filter_writer \<Rightarrow> registry" where
  "unregisterFilterStreamWriter reg w = reg\<lparr>writers := remove1 w (writers reg)\<rparr>"

definition clearAllFilterStreamWriters :: "registry \<Rightarrow> registry" where
  "clearAllFilterStreamWriters reg = reg\<lparr>writers := []\<rparr>"

definition setDefaultStreamWriter :: "registry \<Rightarrow> filter_writer option \<Rightarrow> registry" where
  "setDefaultStreamWriter reg w = reg\<lparr>defaultWriter := w\<rparr>"

fun lookupFilterStreamWriter :: "writer_env \<Rightarrow> dict \<Rightarrow> filter_writer list \<Rightarrow> filter_writer option" where
  "lookupFilterStreamWriter env d [] = None"
| "lookupFilterStreamWriter env d (w # ws) =
     (if supportObject env w d then Some w else lookupFilterStreamWriter env d ws)"

definition getInstance :: "writer_env \<Rightarrow> registry \<Rightarrow> xobj \<Rightarrow> filter_writer result" where
  "getInstance env reg obj =
     (case obj of
        XStream d raw \<Rightarrow>
          (case lookupFilterStreamWriter env d (writers reg) of
             Some w \<Rightarrow> Inr w
           | None \<Rightarrow>
               (case defaultWriter reg of
                  Some w \<Rightarrow> if supportObject env w d then Inr w else Inr NullFilterStreamWriter
                | None \<Rightarrow> Inr NullFilterStreamWriter))
      | _ \<Rightarrow> Inl ElementBadTypeException)"

section \<open>Writing objects\<close>

text \<open>
  \<open>object_line\<close> is what \<^verbatim>\<open>writeObject\<close> gives to \<^verbatim>\<open>putLine\<close>; a stream is always written with the
  header when there is a reference, whatever the flag says.
\<close>

definition object_line ::
    "writer_env \<Rightarrow> registry \<Rightarrow> xobj \<Rightarrow> ref option \<Rightarrow> bool \<Rightarrow> (string option) result" where
  "object_line env reg obj ref indirect =
     (if getType obj = objStream
      then rbind (getInstance env reg obj) (\<lambda>w. compress env w ref obj)
      else rbind (obj_string (w_stream env) obj) (\<lambda>str.
        (case ref of
           Some r \<Rightarrow> Inr (Some (if indirect then createIndirectObjectStringFromString r str else str))
         | None \<Rightarrow> if indirect then Inl UndefinedBehaviour else Inr (Some str))))"

definition writeObject ::
    "writer_env \<Rightarrow> registry \<Rightarrow> xobj \<Rightarrow> file_stream \<Rightarrow> ref option \<Rightarrow> bool \<Rightarrow> file_stream result" where
  "writeObject env reg obj s ref indirect =
     rbind (object_line env reg obj ref indirect) (\<lambda>r. Inr (case r of None \<Rightarrow> s | Some line \<Rightarrow> putLine s line))"

definition header_lines :: "string \<Rightarrow> string list" where
  "header_lines version =
     [''%PDF-'' @ version,
      [CHR ''%'', char_of (129 :: nat), char_of (130 :: nat), char_of (253 :: nat), char_of (254 :: nat)]]"

definition writeHeader :: "string \<Rightarrow> file_stream \<Rightarrow> file_stream" where
  "writeHeader version s =
     (let s1 = stream_reset s; s2 = setPos s1 (sstart s1) in
      foldl putLine s2 (header_lines version))"

section \<open>The registry\<close>

lemma lookupFilterStreamWriter_Some:
  "lookupFilterStreamWriter env d ws = Some w \<Longrightarrow> w \<in> set ws \<and> supportObject env w d"
  by (induction ws) (auto split: if_splits)

lemma lookupFilterStreamWriter_None:
  "lookupFilterStreamWriter env d ws = None \<longleftrightarrow> (\<forall>w\<in>set ws. \<not> supportObject env w d)"
  by (induction ws) auto

text \<open>
  Every stream finds a filter writer, and the one found supports it, which
  \<^verbatim>\<open>writeObject\<close> asserts; objects that are no streams are refused.  With the zlib writer registered
  a stream with unfiltered, flate coded or malformed filters goes to it.
\<close>

theorem filter_writer_found:
  "(case getInstance env reg obj of
      Inr w \<Rightarrow> \<exists>d raw. obj = XStream d raw \<and> supportObject env w d
    | Inl e \<Rightarrow> e = ElementBadTypeException \<and> getType obj \<noteq> objStream)
   \<and> getInstance env (registerFilterStreamWriter (clearAllFilterStreamWriters reg) ZlibFilterStreamWriter) (XStream d raw)
      = (if supportObject env ZlibFilterStreamWriter d then Inr ZlibFilterStreamWriter
         else Inr NullFilterStreamWriter)"
proof -
  have "case getInstance env reg obj of
      Inr w \<Rightarrow> \<exists>d raw. obj = XStream d raw \<and> supportObject env w d
    | Inl e \<Rightarrow> e = ElementBadTypeException \<and> getType obj \<noteq> objStream"
    by (cases obj)
      (auto simp: getInstance_def dest: lookupFilterStreamWriter_Some split: option.split)
  moreover have "w = NullFilterStreamWriter" if "\<not> supportObject env ZlibFilterStreamWriter d" "supportObject env w d" for w
    using that by (cases w) auto
  ultimately show ?thesis
    by (auto simp: getInstance_def registerFilterStreamWriter_def clearAllFilterStreamWriters_def
        simp del: supportObject.simps split: option.split)
qed

section \<open>Stream bodies\<close>

lemma dict_find_del_other: "k \<noteq> f \<Longrightarrow> dict_find (snd (dict_del d f)) k = dict_find d k"
  by (simp add: dict_del_def dict_drop_other)

lemma dict_find_del_all: "k \<notin> set fs \<Longrightarrow> dict_find (del_all fs d) k = dict_find d k"
  unfolding del_all_def by (induction fs arbitrary: d) (auto simp: dict_find_del_other)

lemma dict_find_add_other: "k \<noteq> f \<Longrightarrow> dict_find (dict_add d f v) k = dict_find d k"
  by (simp add: dict_add_def dict_find_append split: option.split)

lemma w_lookup_cong: "dict_find d k = dict_find d' k \<Longrightarrow> w_lookup env d k = w_lookup env d' k"
  by (simp add: w_lookup_def dict_lookupNF_def)

lemma zlib_extractor_eq:
  "zlib_extractor env d raw =
     (let b = w_decode env d raw; d' = del_all decoded_fields d in
      if int_value (w_lookup env d ''Length'') \<le> 0 \<and> b \<noteq> [] then Inl UndefinedBehaviour
      else if b = [] then Inr (Some ([], d'))
      else case w_deflate env b of None \<Rightarrow> Inr None | Some out \<Rightarrow> Inr (Some (out, update_dict d')))"
  by (simp add: zlib_extractor_def convertStreamToDecodedData_def bufferFromStream_def Let_def)

lemma extractor_dict:
  assumes "xtr = null_extractor \<or> xtr = zlib_extractor"
    and "xtr env d raw = Inr (Some (buf, d'))" and "k \<notin> set decoded_fields"
  shows "dict_find d' k = dict_find d k"
proof (cases "xtr = null_extractor")
  case True
  with assms(2) show ?thesis
    by (auto simp: null_extractor_def Let_def rbind_Inr_iff split: if_splits)
next
  case False
  have ne: "k \<noteq> ''Filter''" using assms(3) by (auto simp: decoded_fields_def)
  from False assms(1,2) have "d' = del_all decoded_fields d \<or> d' = update_dict (del_all decoded_fields d)"
    by (auto simp: zlib_extractor_eq Let_def split: option.splits if_splits)
  then show ?thesis
    using dict_find_del_all [OF assms(3)] dict_find_add_other [OF ne] by (auto simp: update_dict_def)
qed

text \<open>
  A stream is written with its true length: what stands between the keywords is what the
  filter made of the data, and \<^verbatim>\<open>Length\<close> in the dictionary in front, direct or indirect, is the
  number of these bytes.
\<close>

theorem stream_length_true:
  assumes "compress env w ref (XStream d raw) = Inr (Some out)"
  shows "\<exists>buf d2 dict head foot. out = head @ dict @ CSTREAM_HEADER @ buf @ CSTREAM_FOOTER @ foot
      \<and> xpdfObjToString env (XDict d2) = Inr dict
      \<and> w_lookup env d2 ''Length'' = XInt (int (length buf))
      \<and> (w = NullFilterStreamWriter \<longrightarrow> buf = raw)"
proof -
  define xtr where "xtr = (case w of NullFilterStreamWriter \<Rightarrow> null_extractor | ZlibFilterStreamWriter \<Rightarrow> zlib_extractor)"
  have ext: "xtr = null_extractor \<or> xtr = zlib_extractor" by (cases w) (simp_all add: xtr_def)
  let ?len = "w_lookup env d ''Length''"
  from assms have run: "streamToCharBuffer xtr env ref (XStream d raw) = Inr (Some out)"
    by (cases w) (simp_all add: xtr_def)
  then obtain buf d' where ext2: "xtr env d raw = Inr (Some (buf, d'))" and int: "is_int ?len"
    by (auto simp: streamToCharBuffer_def Let_def rbind_Inr_iff split: if_splits option.splits)
  define d2 where "d2 = (if int_value ?len \<noteq> int (length buf)
      then snd (dict_update d' ''Length'' (XInt (int (length buf)))) else d')"
  from run ext2 int obtain dict head foot where
    "xpdfObjToString env (XDict d2) = Inr dict"
    "out = head @ dict @ CSTREAM_HEADER @ buf @ CSTREAM_FOOTER @ foot"
    by (auto simp: streamToCharBuffer_def Let_def rbind_Inr_iff d2_def simp del: xpdfObjToString.simps
        split: if_splits)
  moreover have "w_lookup env d2 ''Length'' = XInt (int (length buf))"
  proof (cases "int_value ?len = int (length buf)")
    case True
    have "w_lookup env d' ''Length'' = ?len"
      using extractor_dict [OF ext ext2, of "''Length''"] by (intro w_lookup_cong) (simp add: decoded_fields_def)
    with True int show ?thesis
      by (cases ?len) (simp_all add: d2_def is_int_def int_value_def)
  next
    case False
    then show ?thesis by (simp add: d2_def w_lookup_def dict_lookupNF_update)
  qed
  moreover have "buf = raw" if "w = NullFilterStreamWriter"
    using ext2 that
    by (auto simp: xtr_def null_extractor_def Let_def rbind_Inr_iff bufferFromStream_def split: if_splits)
  ultimately show ?thesis by blast
qed

text \<open>
  An environment with a concrete filter: deflating puts a mark in front, decoding takes it away when
  the dictionary says so.
\<close>

definition toy_decode :: "dict \<Rightarrow> string \<Rightarrow> string" where
  "toy_decode d s =
     (if dict_lookupNF d ''Filter'' = XArray [XName ''FlateDecode''] \<and> dict_lookupNF d ''DecodeParms'' = XNull
      then tl s else s)"

definition toy_env :: writer_env where
  "toy_env = \<lparr>w_fetch = (\<lambda>r. XInt 5), w_decode = toy_decode, w_deflate = (\<lambda>s. Some (CHR ''z'' # s)),
     w_stream = (\<lambda>d s. s)\<rparr>"

theorem stream_length_true_witness:
  "\<exists>out. compress toy_env ZlibFilterStreamWriter None (XStream [(''Length'', XRefObj (Ref 3 0))] ''hello'') = Inr (Some out)
    \<and> (\<exists>buf d2 dict head foot. out = head @ dict @ CSTREAM_HEADER @ buf @ CSTREAM_FOOTER @ foot
      \<and> xpdfObjToString toy_env (XDict d2) = Inr dict
      \<and> w_lookup toy_env d2 ''Length'' = XInt (int (length buf)))"
proof -
  have "case compress toy_env ZlibFilterStreamWriter None (XStream [(''Length'', XRefObj (Ref 3 0))] ''hello'') of
      Inr (Some out) \<Rightarrow> True | _ \<Rightarrow> False"
    by code_simp
  then obtain out where run:
    "compress toy_env ZlibFilterStreamWriter None (XStream [(''Length'', XRefObj (Ref 3 0))] ''hello'') = Inr (Some out)"
    by (auto split: sum.splits option.splits)
  from stream_length_true [OF run] run show ?thesis by blast
qed



text \<open>
  The decoding parameters stay in the dictionary when the data are decoded, because the
  code removes \<^verbatim>\<open>DecodeParams\<close>, which is not the name PDF gives them.
\<close>

theorem decoding_keeps_DecodeParms:
  "convertStreamToDecodedData env d raw = Inr (Some (buf, d')) \<Longrightarrow>
   dict_find d' ''DecodeParms'' = dict_find d ''DecodeParms''"
  using dict_find_del_all [of "''DecodeParms''" decoded_fields d]
  by (auto simp: convertStreamToDecodedData_def Let_def rbind_Inr_iff decoded_fields_def)

theorem decoding_keeps_DecodeParms_witness:
  "\<exists>buf d'. convertStreamToDecodedData toy_env [(''Length'', XInt 5), (''DecodeParms'', XDict [])] ''hello'' = Inr (Some (buf, d'))
    \<and> dict_find d' ''DecodeParms'' = Some (XDict [])"
proof -
  let ?d = "[(''Length'', XInt 5), (''DecodeParms'', XDict [])]"
  have "case convertStreamToDecodedData toy_env ?d ''hello'' of Inr (Some _) \<Rightarrow> True | _ \<Rightarrow> False"
    by code_simp
  then obtain buf d' where run: "convertStreamToDecodedData toy_env ?d ''hello'' = Inr (Some (buf, d'))"
    by (auto split: sum.splits option.splits)
  from decoding_keeps_DecodeParms [OF run] run show ?thesis by simp
qed

section \<open>The two printers\<close>

text \<open>
  Objects on which the printer of xpdf objects and the one of kernel objects have to agree: no
  special characters in keys, no null characters in strings, none of the parser's own types.
\<close>

fun plain_obj :: "xobj \<Rightarrow> bool" and plain_objs :: "xobj list \<Rightarrow> bool" and plain_dict :: "dict \<Rightarrow> bool" where
  "plain_obj (XString s) \<longleftrightarrow> CHR 0x00 \<notin> set s"
| "plain_obj (XArray xs) \<longleftrightarrow> plain_objs xs"
| "plain_obj (XDict d) \<longleftrightarrow> plain_dict d"
| "plain_obj (XStream d s) \<longleftrightarrow> False"
| "plain_obj (XCmd c) \<longleftrightarrow> False"
| "plain_obj XError \<longleftrightarrow> False"
| "plain_obj XEOF \<longleftrightarrow> False"
| "plain_obj XNone \<longleftrightarrow> False"
| "plain_obj (XBool b) \<longleftrightarrow> True"
| "plain_obj (XInt i) \<longleftrightarrow> True"
| "plain_obj (XReal q) \<longleftrightarrow> True"
| "plain_obj (XName n) \<longleftrightarrow> True"
| "plain_obj XNull \<longleftrightarrow> True"
| "plain_obj (XRefObj r) \<longleftrightarrow> True"
| "plain_objs [] \<longleftrightarrow> True"
| "plain_objs (x # xs) \<longleftrightarrow> plain_obj x \<and> plain_objs xs"
| "plain_dict [] \<longleftrightarrow> True"
| "plain_dict ((k, v) # d) \<longleftrightarrow> (\<forall>c\<in>set k. \<not> special c) \<and> plain_obj v \<and> plain_dict d"

lemma makeNamePdfValid_plain: "\<forall>c\<in>set k. \<not> special c \<Longrightarrow> makeNamePdfValid k = k"
  by (induction k) simp_all

lemma code_0_iff: "code c = 0 \<longleftrightarrow> c = CHR 0x00"
  using code_eq_iff [of c "CHR 0x00"] by (simp add: code_null)

lemma c_string_plain: "CHR 0x00 \<notin> set s \<Longrightarrow> c_string s = s"
  by (induction s) (auto simp: c_string_def code_0_iff)

lemma printers_agree:
  "plain_obj x \<Longrightarrow> xpdfObjToString env x = obj_string sr x"
  "plain_objs xs \<Longrightarrow> xpdf_items env xs = array_items sr xs"
  "plain_dict d \<Longrightarrow> xpdf_entries env d = dict_items sr d"
  by (induction x and xs and d rule: plain_obj_plain_objs_plain_dict.induct)
    (simp_all add: c_string_plain makeNamePdfValid_plain)

text \<open>
  The dictionary of a stream, printed by \<^verbatim>\<open>xpdfObjToString\<close>, and any other object,
  printed by its kernel object, come out the same as long as keys and strings are plain.
\<close>

theorem printers_equivalent:
  assumes "plain_obj x"
  shows "xpdfObjToString env x = obj_string sr x"
  using printers_agree(1) [OF assms] .

theorem printers_equivalent_witness:
  "xpdfObjToString toy_env (XDict [(''K'', XArray [XInt 1, XString ''(x)''])])
     = obj_string (\<lambda>d s. s) (XDict [(''K'', XArray [XInt 1, XString ''(x)''])])"
  by (rule printers_equivalent) (simp add: special_def specialChars_def code_def)

text \<open>
  Outside of that the printer for stream dictionaries is wrong: a key with a space is
  written as two tokens, and a string is cut at its first null character.
\<close>

theorem xpdf_printer_loses:
  "xpdfObjToString env (XDict [(''A B'', XNull)]) = Inr (''<<'' @ newline @ ''/A B null'' @ newline @ ''>>'')
   \<and> obj_string sr (XDict [(''A B'', XNull)]) = Inr (''<<'' @ newline @ ''/A#20B null'' @ newline @ ''>>'')
   \<and> xpdfObjToString env (XString [CHR ''x'', CHR 0x00, CHR ''y'']) = Inr ''(x)''
   \<and> obj_string sr (XString [CHR ''x'', CHR 0x00, CHR ''y'']) = Inr ''<780079>''"
proof -
  have "makeNamePdfValid ''A B'' = ''A#20B''" by code_simp
  moreover have "c_string [CHR ''x'', CHR 0x00, CHR ''y''] = ''x''" by code_simp
  moreover have "simpleValueToString_string ''x'' = ''(x)''" by code_simp
  moreover have "simpleValueToString_string [CHR ''x'', CHR 0x00, CHR ''y''] = ''<780079>''" by code_simp
  ultimately show ?thesis by simp
qed

end
