(* ===== verification/Old_Style_Writer.thy ===== *)
theory Old_Style_Writer
  imports Pdf_Writer
begin

text \<open>
  \<^verbatim>\<open>OldStylePdfWriter\<close>, the progress observer and \<^verbatim>\<open>PdfDocumentWriter::writeDocument\<close> of
  \<^verbatim>\<open>src/src/kernel/pdfwriter.cc\<close>.  An exception leaves the whole operation, so the state it leaves
  behind is not part of its result.
\<close>

section \<open>State\<close>

text \<open>
  \<open>offTable\<close> maps what was written to its offset, \<open>maxObjNum\<close> is the highest number in it, and
  \<open>steps\<close> is the trace of the notifications of the observers: task, total and current step.
\<close>

datatype write_task = CONTENT | TRAILER

record pdf_writer =
  offTable :: "(ref, nat) storage"
  maxObjNum :: int
  steps :: "(write_task \<times> nat \<times> nat) list"

record prev_sec_info =
  prev_xrefPos :: nat
  prev_entriesNum :: nat

definition new_writer :: pdf_writer where
  "new_writer = \<lparr>offTable = storage_empty, maxObjNum = 0, steps = []\<rparr>"

definition writer_reset :: "pdf_writer \<Rightarrow> pdf_writer" where
  "writer_reset w = w\<lparr>offTable := storage_clear (offTable w), maxObjNum := 0\<rparr>"

definition notify_step :: "pdf_writer \<Rightarrow> write_task \<Rightarrow> nat \<Rightarrow> nat \<Rightarrow> pdf_writer" where
  "notify_step w task tot step = w\<lparr>steps := steps w @ [(task, tot, step)]\<rparr>"

section \<open>Content\<close>

text \<open>
  The loop of \<^verbatim>\<open>writeContent\<close>: null objects and references already stored are skipped (the index
  counts them).
\<close>

definition record_object :: "pdf_writer \<Rightarrow> ref \<Rightarrow> nat \<Rightarrow> pdf_writer" where
  "record_object w ref pos =
     w\<lparr>maxObjNum := (if ref_num ref > maxObjNum w then ref_num ref else maxObjNum w),
       offTable := storage_set (offTable w) ref pos\<rparr>"

fun write_entries ::
    "writer_env \<Rightarrow> registry \<Rightarrow> nat \<Rightarrow> nat \<Rightarrow> (ref \<times> xobj option) list \<Rightarrow> pdf_writer \<Rightarrow> file_stream
     \<Rightarrow> (pdf_writer \<times> file_stream) result" where
  "write_entries env reg tot index [] w s = Inr (w, s)"
| "write_entries env reg tot index ((ref, obj) # objs) w s =
     (case obj of
        None \<Rightarrow> write_entries env reg tot (Suc index) objs w s
      | Some x \<Rightarrow>
          if storage_contains (offTable w) ref
          then write_entries env reg tot (Suc index) objs w s
          else rbind (writeObject env reg x s (Some ref) True) (\<lambda>s'.
            write_entries env reg tot (Suc index) objs
              (notify_step (record_object w ref (spos s)) CONTENT tot index) s'))"

definition writeContent ::
    "writer_env \<Rightarrow> registry \<Rightarrow> (ref \<times> xobj option) list \<Rightarrow> pdf_writer \<Rightarrow> file_stream \<Rightarrow> nat
     \<Rightarrow> (pdf_writer \<times> file_stream) result" where
  "writeContent env reg objectList w s off =
     write_entries env reg (length objectList) 0 objectList w (if off \<noteq> 0 then setPos s off else s)"

section \<open>Cross reference table\<close>

text \<open>
  Subsections: a map from the first object number to the offsets and generations of a run of
  numbers.  \<open>add_entry\<close> is the body of the loop, with the iterator \<^verbatim>\<open>sub\<close> as the key it points
  to; \<^verbatim>\<open>insert\<close> keeps an entry that is there.
\<close>

type_synonym subsections = "(int, (nat \<times> int) list) storage"

definition new_subsection :: "subsections \<Rightarrow> int \<Rightarrow> nat \<times> int \<Rightarrow> subsections \<times> int option" where
  "new_subsection secs num e =
     (if storage_contains secs num then (secs, Some num) else (storage_set secs num [e], Some num))"

fun add_entry :: "subsections \<times> int option \<Rightarrow> ref \<times> nat \<Rightarrow> subsections \<times> int option" where
  "add_entry (secs, sub) (r, off) =
     (case sub of
        None \<Rightarrow> new_subsection secs (ref_num r) (off, ref_gen r)
      | Some k \<Rightarrow>
          (case storage_get secs k of
             None \<Rightarrow> new_subsection secs (ref_num r) (off, ref_gen r)
           | Some es \<Rightarrow>
               if ref_num r = k + int (length es)
               then (storage_set secs k (es @ [(off, ref_gen r)]), Some k)
               else new_subsection secs (ref_num r) (off, ref_gen r)))"

definition make_subsections :: "(ref, nat) storage \<Rightarrow> subsections" where
  "make_subsections table = fst (foldl add_entry (storage_empty, None) table)"

text \<open>\<^verbatim>\<open>"%010u %05i n "\<close> and \<^verbatim>\<open>"%d %d"\<close>.\<close>

definition pad_int :: "nat \<Rightarrow> int \<Rightarrow> string" where
  "pad_int w i =
     (if i < 0 then CHR ''-'' # pad_left (w - 1) (CHR ''0'') (show_nat (nat (- i)))
      else pad_left w (CHR ''0'') (show_nat (nat i)))"

fun xref_row :: "nat \<times> int \<Rightarrow> string" where
  "xref_row (off, gen) =
     pad_left 10 (CHR ''0'') (show_nat (to_unsigned (int off))) @ '' '' @ pad_int 5 gen @ '' n ''"

fun subsection_lines :: "int \<times> (nat \<times> int) list \<Rightarrow> string list" where
  "subsection_lines (start, es) =
     (show_int start @ '' '' @ show_nat (length es)) # map xref_row es"

definition table_lines :: "subsections \<Rightarrow> string list" where
  "table_lines secs = ''xref'' # concat (map subsection_lines secs)"

section \<open>Trailer\<close>

definition stripXRefStreamFields :: "dict \<Rightarrow> dict" where
  "stripXRefStreamFields trailer =
     foldl (\<lambda>t f. if getType (dict_lookupNF t f) \<noteq> objNull then snd (dict_del t f) else t) trailer
       [''Type'', ''Index'', ''W'', ''Length'', ''Filter'', ''DecodeParms'']"

text \<open>\<^verbatim>\<open>initInt\<close> takes an \<^verbatim>\<open>int\<close>: what does not fit wraps around.\<close>

definition to_int :: "int \<Rightarrow> int" where
  "to_int i = (i + 2147483648) mod 4294967296 - 2147483648"

definition update_trailer :: "pdf_writer \<Rightarrow> prev_sec_info \<Rightarrow> dict \<Rightarrow> dict" where
  "update_trailer w prev trailer =
     (let t1 = (if prev_xrefPos prev = 0 then snd (dict_del trailer ''Prev'')
                else snd (dict_update trailer ''Prev'' (XInt (to_int (int (prev_xrefPos prev))))));
          t2 = snd (dict_del t1 ''XRefStm'');
          t3 = stripXRefStreamFields t2
      in snd (dict_update t3 ''Size''
           (XInt (to_int (int (max (prev_entriesNum prev) (nat (maxObjNum w + 1))))))))"

text \<open>
  \<^verbatim>\<open>writeTrailer\<close>: the table, the trailer, the start of the table, the end of file marker; what is
  behind it is cut.  The result has the position of the marker and the trailer with its new fields.
\<close>

definition cut_behind :: "file_stream \<Rightarrow> file_stream" where
  "cut_behind s =
     (let currPos = spos s; s1 = setPos_end s 0 in
      if spos s1 > currPos then snd (trim s1 currPos) else s1)"

definition notify_subsections :: "pdf_writer \<Rightarrow> nat \<Rightarrow> pdf_writer" where
  "notify_subsections w n = foldl (\<lambda>w i. notify_step w TRAILER n i) w [1..<Suc n]"

definition writeTrailer ::
    "writer_env \<Rightarrow> registry \<Rightarrow> dict \<Rightarrow> prev_sec_info \<Rightarrow> pdf_writer \<Rightarrow> file_stream \<Rightarrow> nat
     \<Rightarrow> (pdf_writer \<times> dict \<times> file_stream \<times> nat) result" where
  "writeTrailer env reg trailer prev w s off =
     (if storage_size (offTable w) = 0 then Inr (w, trailer, s, spos s)
      else
        let (xrefPos, s0) = (if off = 0 then (spos s, s) else (off, setPos s off));
            secs = make_subsections (offTable w);
            s1 = putLines s0 (table_lines secs);
            w1 = notify_subsections w (storage_size secs);
            trailer' = update_trailer w prev trailer;
            s2 = putLine s1 ''trailer''
        in rbind (writeObject env reg (XDict trailer') s2 None False) (\<lambda>s3.
             let s4 = putLine (putLine s3 ''startxref'') (show_nat (to_unsigned (int xrefPos)));
                 pos = spos s4;
                 s5 = cut_behind (putLine s4 ''%%EOF'')
             in Inr (writer_reset w1, trailer', s5, pos)))"

section \<open>Progress\<close>

text \<open>\<^verbatim>\<open>ProgressObserver::notify\<close>, with the calls of the progress bar as a trace.\<close>

datatype bar_call = Start | SetMaxStep nat | Update nat | Finish

record progress =
  bar_present :: bool
  started :: bool
  bar_calls :: "bar_call list"

definition progress_notify :: "progress \<Rightarrow> write_task \<times> nat \<times> nat \<Rightarrow> progress" where
  "progress_notify p ev =
     (case ev of (task, tot, currStep) \<Rightarrow>
        if \<not> bar_present p then p
        else
          let p1 = (if started p then p
                    else p\<lparr>started := True, bar_calls := bar_calls p @ [Start, SetMaxStep tot]\<rparr>);
              p2 = p1\<lparr>bar_calls := bar_calls p1 @ [Update currStep]\<rparr>
          in if currStep = tot
             then p2\<lparr>started := False, bar_calls := bar_calls p2 @ [Finish]\<rparr>
             else p2)"

section \<open>Whole documents\<close>

text \<open>
  \<^verbatim>\<open>PdfDocumentWriter::writeDocument\<close>: \<open>fill\<close> is the virtual \<^verbatim>\<open>fillObjectList\<close> over the state of
  the subclass; the loop ends when it returns no object.  The fuel counts batches.  The return
  values are those of \<^verbatim>\<open>errno.h\<close>.
\<close>

definition writeBatchCount :: nat where
  "writeBatchCount = 1000"

type_synonym 'f filler = "nat \<Rightarrow> 'f \<Rightarrow> ((ref \<times> xobj) list \<times> 'f) result"

fun write_batches ::
    "nat \<Rightarrow> 'f filler \<Rightarrow> writer_env \<Rightarrow> registry \<Rightarrow> 'f \<Rightarrow> pdf_writer \<Rightarrow> file_stream
     \<Rightarrow> (('f \<times> pdf_writer \<times> file_stream) result) option" where
  "write_batches 0 fill env reg st w s = None"
| "write_batches (Suc n) fill env reg st w s =
     (case fill writeBatchCount st of
        Inl e \<Rightarrow> Some (Inl e)
      | Inr (objs, st') \<Rightarrow>
          if objs = [] then Some (Inr (st', w, s))
          else (case writeContent env reg (map (\<lambda>(r, x). (r, Some x)) objs) w s 0 of
                  Inl e \<Rightarrow> Some (Inl e)
                | Inr (w', s') \<Rightarrow> write_batches n fill env reg st' w' s'))"

definition EINVAL :: int where
  "EINVAL = 22"

definition EPERM :: int where
  "EPERM = 1"

definition no_prev :: prev_sec_info where
  "no_prev = \<lparr>prev_xrefPos = 0, prev_entriesNum = 0\<rparr>"

definition writeDocument ::
    "nat \<Rightarrow> 'f filler \<Rightarrow> writer_env \<Rightarrow> registry \<Rightarrow> cxref \<Rightarrow> string \<Rightarrow> 'f \<Rightarrow> pdf_writer option \<Rightarrow> string option
     \<Rightarrow> ((int \<times> string) result) option" where
  "writeDocument fuel fill env reg x version st pdfWriter out =
     (case out of
        None \<Rightarrow> Some (Inr (EINVAL, ''''))
      | Some bytes \<Rightarrow>
          (case pdfWriter of
             None \<Rightarrow> Some (Inr (EINVAL, bytes))
           | Some w \<Rightarrow>
               if needs_credentials x then Some (Inr (EPERM, bytes))
               else if encrypted x then Some (Inl NotImplementedException)
               else
                 (case write_batches fuel fill env reg st w (writeHeader version (new_stream bytes)) of
                    None \<Rightarrow> None
                  | Some (Inl e) \<Rightarrow> Some (Inl e)
                  | Some (Inr (st', w', s')) \<Rightarrow>
                      Some (rbind (writeTrailer env reg (getTrailerDict x) no_prev w' s' 0)
                        (\<lambda>(w'', t, s'', pos). Inr (0, sdata s''))))))"

section \<open>Where objects are written\<close>

text \<open>The objects of a list that are there.\<close>

fun live :: "(ref \<times> xobj option) list \<Rightarrow> (ref \<times> xobj) list" where
  "live [] = []"
| "live ((r, None) # objs) = live objs"
| "live ((r, Some x) # objs) = (r, x) # live objs"

lemma live_map [simp]: "live (map (\<lambda>(r, x). (r, Some x)) objs) = objs"
  by (induction objs) auto

lemma writeObject_line:
  assumes "writeObject env reg x s ref ind = Inr s'" "at_end s"
  shows "at_end s'"
    and "object_line env reg x ref ind = Inr (Some line) \<Longrightarrow> sdata s' = sdata s @ line @ newline"
    and "\<exists>t. sdata s' = sdata s @ t"
proof -
  obtain r where r: "object_line env reg x ref ind = Inr r"
    and s': "s' = (case r of None \<Rightarrow> s | Some line \<Rightarrow> putLine s line)"
    using assms(1) by (auto simp: writeObject_def rbind_Inr_iff)
  show "at_end s'" "\<exists>t. sdata s' = sdata s @ t"
    using s' assms(2) by (cases r; simp add: putLine_at_end at_end_def)+
  show "object_line env reg x ref ind = Inr (Some line) \<Longrightarrow> sdata s' = sdata s @ line @ newline"
    using r s' putLine_at_end [OF assms(2)] by simp
qed

lemma record_object_simps [simp]:
  "offTable (record_object w ref pos) = storage_set (offTable w) ref pos"
  "steps (record_object w ref pos) = steps w"
  "maxObjNum (record_object w ref pos) = max (maxObjNum w) (ref_num ref)"
  by (simp_all add: record_object_def)

lemma notify_step_simps [simp]:
  "offTable (notify_step w task n i) = offTable w"
  "maxObjNum (notify_step w task n i) = maxObjNum w"
  "steps (notify_step w task n i) = steps w @ [(task, n, i)]"
  by (simp_all add: notify_step_def)

text \<open>Writing more objects keeps the offsets recorded and the bytes written so far.\<close>

lemma write_entries_frame:
  "write_entries env reg n i objs w s = Inr (w', s') \<Longrightarrow> at_end s \<Longrightarrow>
   at_end s' \<and> (\<exists>t. sdata s' = sdata s @ t)
   \<and> (\<forall>r p. storage_get (offTable w) r = Some p \<longrightarrow> storage_get (offTable w') r = Some p)"
proof (induction env reg n i objs w s rule: write_entries.induct)
  case (2 env reg n i ref obj objs w s)
  show ?case
  proof (cases "obj = None \<or> storage_contains (offTable w) ref")
    case True
    with 2 show ?thesis by (cases obj) auto
  next
    case False
    then obtain x where obj: "obj = Some x" and nc: "\<not> storage_contains (offTable w) ref" by auto
    with "2.prems" obtain s1 where s1: "writeObject env reg x s (Some ref) True = Inr s1"
      and rest: "write_entries env reg n (Suc i) objs
        (notify_step (record_object w ref (spos s)) CONTENT n i) s1 = Inr (w', s')"
      by (auto simp: rbind_Inr_iff)
    have "at_end s1" "\<exists>t. sdata s1 = sdata s @ t"
      using writeObject_line [OF s1 "2.prems"(2)] by auto
    with "2.IH"(3) [OF obj nc s1 rest] obtain t where
      "at_end s'" "sdata s' = sdata s @ t"
      "\<And>r p. storage_get (storage_set (offTable w) ref (spos s)) r = Some p \<Longrightarrow> storage_get (offTable w') r = Some p"
      by (auto simp del: fun_upd_apply storage_get_set)
    moreover have "r \<noteq> ref" if "storage_get (offTable w) r = Some p" for r p
      using that nc by (auto simp: storage_contains_def)
    ultimately show ?thesis by simp
  qed
qed simp

lemma write_entries_objects:
  "write_entries env reg n i objs w s = Inr (w', s') \<Longrightarrow> at_end s \<Longrightarrow>
   map_of (live objs) ref = Some x \<Longrightarrow> storage_get (offTable w) ref = None \<Longrightarrow>
   object_line env reg x (Some ref) True = Inr (Some line) \<Longrightarrow>
   \<exists>p. storage_get (offTable w') ref = Some p \<and> take (length line + 1) (drop p (sdata s')) = line @ newline"
proof (induction env reg n i objs w s rule: write_entries.induct)
  case (2 env reg n i r obj objs w s)
  show ?case
  proof (cases "obj = None \<or> storage_contains (offTable w) r")
    case True
    with 2 show ?thesis by (cases obj) (auto simp: storage_contains_def split: if_splits)
  next
    case False
    then obtain y where obj: "obj = Some y" and nc: "\<not> storage_contains (offTable w) r" by auto
    let ?w1 = "notify_step (record_object w r (spos s)) CONTENT n i"
    from obj nc "2.prems"(1) obtain s1 where s1: "writeObject env reg y s (Some r) True = Inr s1"
      and rest: "write_entries env reg n (Suc i) objs ?w1 s1 = Inr (w', s')"
      by (auto simp: rbind_Inr_iff)
    have e1: "at_end s1" using writeObject_line(1) [OF s1 "2.prems"(2)] .
    show ?thesis
    proof (cases "r = ref")
      case True
      with obj "2.prems"(3) have "y = x" by simp
      with True have bytes: "sdata s1 = sdata s @ line @ newline"
        using writeObject_line(2) [OF s1 "2.prems"(2)] "2.prems"(5) by simp
      have "storage_get (offTable ?w1) ref = Some (length (sdata s))"
        using True "2.prems"(2) by (simp add: at_end_def)
      with write_entries_frame [OF rest e1] obtain t where
        "storage_get (offTable w') ref = Some (length (sdata s))" "sdata s' = sdata s1 @ t"
        by blast
      with bytes show ?thesis by simp
    next
      case False
      with obj "2.prems"(3,4) have "map_of (live objs) ref = Some x"
        "storage_get (offTable ?w1) ref = None" by simp_all
      with "2.IH"(3) [OF obj nc s1 rest e1] "2.prems"(5) show ?thesis by blast
    qed
  qed
qed simp

text \<open>
  The same from any position inside of the file, where old bytes are overwritten: what is in front
  of the position stays, and an object written earlier is not touched by a later one.
\<close>

lemma writeObject_inside:
  assumes "writeObject env reg x s ref ind = Inr s'" "spos s \<le> length (sdata s)"
  shows "spos s \<le> spos s' \<and> spos s' \<le> length (sdata s') \<and> take (spos s) (sdata s') = take (spos s) (sdata s)"
    and "object_line env reg x ref ind = Inr (Some line) \<Longrightarrow>
      spos s' = spos s + length line + 1 \<and> take (length line + 1) (drop (spos s) (sdata s')) = line @ newline"
proof -
  obtain r where r: "object_line env reg x ref ind = Inr r"
    and s': "s' = (case r of None \<Rightarrow> s | Some line \<Rightarrow> putLine s line)"
    using assms(1) by (auto simp: writeObject_def rbind_Inr_iff)
  show "spos s \<le> spos s' \<and> spos s' \<le> length (sdata s') \<and> take (spos s) (sdata s') = take (spos s) (sdata s)"
    using s' assms(2) by (cases r) (simp_all add: putLine_def Let_def length_write_at take_write_at)
  show "object_line env reg x ref ind = Inr (Some line) \<Longrightarrow>
      spos s' = spos s + length line + 1 \<and> take (length line + 1) (drop (spos s) (sdata s')) = line @ newline"
    using r s' read_write_at [of "line @ newline" "spos s" "sdata s"] by (simp add: putLine_def Let_def)
qed

lemma write_entries_inside:
  "write_entries env reg n i objs w s = Inr (w', s') \<Longrightarrow> spos s \<le> length (sdata s) \<Longrightarrow>
   spos s \<le> spos s' \<and> spos s' \<le> length (sdata s') \<and> take (spos s) (sdata s') = take (spos s) (sdata s)
   \<and> (\<forall>r p. storage_get (offTable w) r = Some p \<longrightarrow> storage_get (offTable w') r = Some p)"
proof (induction env reg n i objs w s rule: write_entries.induct)
  case (2 env reg n i ref obj objs w s)
  show ?case
  proof (cases "obj = None \<or> storage_contains (offTable w) ref")
    case True
    with 2 show ?thesis by (cases obj) auto
  next
    case False
    then obtain x where obj: "obj = Some x" and nc: "\<not> storage_contains (offTable w) ref" by auto
    let ?w1 = "notify_step (record_object w ref (spos s)) CONTENT n i"
    from obj nc "2.prems" obtain s1 where s1: "writeObject env reg x s (Some ref) True = Inr s1"
      and rest: "write_entries env reg n (Suc i) objs ?w1 s1 = Inr (w', s')"
      by (auto simp: rbind_Inr_iff)
    note in1 = writeObject_inside(1) [OF s1 "2.prems"(2)]
    note IH = "2.IH"(3) [OF obj nc s1 rest conjunct1 [OF conjunct2 [OF in1]]]
    have "storage_get (offTable w') r = Some p" if "storage_get (offTable w) r = Some p" for r p
    proof -
      have "r \<noteq> ref" using that nc by (auto simp: storage_contains_def)
      with that have "storage_get (offTable ?w1) r = Some p" by simp
      with IH show ?thesis by blast
    qed
    moreover have "take (spos s) (sdata s') = take (spos s) (take (spos s1) (sdata s'))"
      using in1 by (simp add: min_def)
    then have "take (spos s) (sdata s') = take (spos s) (sdata s)"
      using in1 IH by (simp add: min_def)
    ultimately show ?thesis using in1 IH by simp
  qed
qed simp

lemma take_drop_inside:
  assumes "take n xs = take n ys" "p + k \<le> n"
  shows "take k (drop p xs) = take k (drop p ys)"
proof -
  have "take k (drop p xs) = drop p (take (p + k) xs)" by (simp add: take_drop add.commute)
  also have "take (p + k) xs = take (p + k) (take n xs)" using assms(2) by (simp add: min_def)
  also have "\<dots> = take (p + k) ys" using assms by (simp add: min_def)
  finally show ?thesis by (simp add: take_drop add.commute)
qed

lemma write_entries_objects_inside:
  "write_entries env reg n i objs w s = Inr (w', s') \<Longrightarrow> spos s \<le> length (sdata s) \<Longrightarrow>
   map_of (live objs) ref = Some x \<Longrightarrow> storage_get (offTable w) ref = None \<Longrightarrow>
   object_line env reg x (Some ref) True = Inr (Some line) \<Longrightarrow>
   \<exists>p. storage_get (offTable w') ref = Some p \<and> spos s \<le> p \<and> p + length line + 1 \<le> spos s'
     \<and> take (length line + 1) (drop p (sdata s')) = line @ newline"
proof (induction env reg n i objs w s rule: write_entries.induct)
  case (2 env reg n i r obj objs w s)
  show ?case
  proof (cases "obj = None \<or> storage_contains (offTable w) r")
    case True
    with 2 show ?thesis by (cases obj) (auto simp: storage_contains_def split: if_splits)
  next
    case False
    then obtain y where obj: "obj = Some y" and nc: "\<not> storage_contains (offTable w) r" by auto
    let ?w1 = "notify_step (record_object w r (spos s)) CONTENT n i"
    from obj nc "2.prems"(1) obtain s1 where s1: "writeObject env reg y s (Some r) True = Inr s1"
      and rest: "write_entries env reg n (Suc i) objs ?w1 s1 = Inr (w', s')"
      by (auto simp: rbind_Inr_iff)
    have in1: "spos s \<le> spos s1" "spos s1 \<le> length (sdata s1)"
      using writeObject_inside(1) [OF s1 "2.prems"(2)] by auto
    show ?thesis
    proof (cases "r = ref")
      case True
      with obj "2.prems"(3) have "y = x" by simp
      with True have at: "spos s1 = spos s + length line + 1"
        "take (length line + 1) (drop (spos s) (sdata s1)) = line @ newline"
        using writeObject_inside(2) [OF s1 "2.prems"(2)] "2.prems"(5) by auto
      note fr = write_entries_inside [OF rest in1(2)]
      have "storage_get (offTable w') ref = Some (spos s)"
        using fr True by simp
      moreover have "take (length line + 1) (drop (spos s) (sdata s')) = line @ newline"
        using take_drop_inside [of "spos s1" "sdata s'" "sdata s1" "spos s" "length line + 1"] fr at by simp
      ultimately show ?thesis using fr at(1) by auto
    next
      case False
      with obj "2.prems"(3,4) have "map_of (live objs) ref = Some x"
        "storage_get (offTable ?w1) ref = None" by simp_all
      with "2.IH"(3) [OF obj nc s1 rest in1(2)] "2.prems"(5) in1(1) show ?thesis
        by (meson order_trans)
    qed
  qed
qed simp

lemma writeContent_spec:
  assumes "writeContent env reg objs w s off = Inr (w', s')"
    and "start = (if off = 0 then spos s else off)" and "start \<le> length (sdata s)"
  shows "(\<forall>ref x line. map_of (live objs) ref = Some x \<longrightarrow> storage_get (offTable w) ref = None \<longrightarrow>
            object_line env reg x (Some ref) True = Inr (Some line) \<longrightarrow>
            (\<exists>p. storage_get (offTable w') ref = Some p \<and> start \<le> p \<and> p + length line + 1 \<le> spos s'
               \<and> take (length line + 1) (drop p (sdata s')) = line @ newline))
       \<and> (\<forall>ref p. storage_get (offTable w) ref = Some p \<longrightarrow> storage_get (offTable w') ref = Some p)
       \<and> take start (sdata s') = take start (sdata s)
       \<and> start \<le> spos s' \<and> spos s' \<le> length (sdata s')"
proof -
  define s0 where "s0 = (if off \<noteq> 0 then setPos s off else s)"
  have s0: "spos s0 = start" "sdata s0 = sdata s" using assms(2) by (simp_all add: s0_def setPos_def)
  from assms(1) have run: "write_entries env reg (length objs) 0 objs w s0 = Inr (w', s')"
    by (simp add: writeContent_def s0_def)
  have ok: "spos s0 \<le> length (sdata s0)" using assms(3) s0 by simp
  from write_entries_objects_inside [OF run ok] write_entries_inside [OF run ok] show ?thesis
    unfolding s0 by blast
qed

text \<open>
  Claim C22: after \<^verbatim>\<open>writeContent\<close>, at the current position or the one given, every object that was
  not written before has an offset behind this position, and at this offset of the file there are
  exactly the bytes of the indirect object, up to the end of the line; the offsets recorded before
  and the bytes in front of the position stay.
\<close>

theorem writeContent_offsets:
  assumes "writeContent env reg objs w s off = Inr (w', s')"
    and "start = (if off = 0 then spos s else off)" and "start \<le> length (sdata s)"
  shows "(\<forall>ref x line. map_of (live objs) ref = Some x \<longrightarrow> storage_get (offTable w) ref = None \<longrightarrow>
            object_line env reg x (Some ref) True = Inr (Some line) \<longrightarrow>
            (\<exists>p. storage_get (offTable w') ref = Some p \<and> start \<le> p \<and> p + length line + 1 \<le> spos s'
               \<and> take (length line + 1) (drop p (sdata s')) = line @ newline))
       \<and> (\<forall>ref p. storage_get (offTable w) ref = Some p \<longrightarrow> storage_get (offTable w') ref = Some p)
       \<and> take start (sdata s') = take start (sdata s)"
  using writeContent_spec [OF assms] by blast

definition sample_env :: writer_env where
  "sample_env = \<lparr>w_fetch = (\<lambda>r. XNull), w_decode = (\<lambda>d s. s), w_deflate = (\<lambda>s. Some s), w_stream = (\<lambda>d s. s)\<rparr>"

definition no_filters :: registry where
  "no_filters = \<lparr>writers = [], defaultWriter = None\<rparr>"

theorem writeContent_offsets_witness:
  "\<exists>w' s'. writeContent sample_env no_filters [(Ref 4 0, Some (XInt 7)), (Ref 4 0, Some XNull), (Ref 2 1, None)]
      new_writer (new_stream '''') 0 = Inr (w', s')
    \<and> storage_get (offTable w') (Ref 4 0) = Some 0
    \<and> take 18 (sdata s') = (''4 0 obj '' @ newline @ ''7'' @ newline @ ''endobj'') @ newline
    \<and> storage_get (offTable w') (Ref 2 1) = None"
proof -
  let ?objs = "[(Ref 4 0, Some (XInt 7)), (Ref 4 0, Some XNull), (Ref 2 1, None)]"
  let ?line = "''4 0 obj '' @ newline @ ''7'' @ newline @ ''endobj''"
  have line: "object_line sample_env no_filters (XInt 7) (Some (Ref 4 0)) True
      = Inr (Some ?line)"
    by code_simp
  have ok: "(if (0 :: nat) = 0 then spos (new_stream '''') else 0) \<le> length (sdata (new_stream ''''))"
    by (simp add: new_stream_def)
  have "case writeContent sample_env no_filters ?objs new_writer (new_stream '''') 0 of Inl _ \<Rightarrow> False
    | Inr (w', s') \<Rightarrow> storage_get (offTable w') (Ref 4 0) = Some 0 \<and> storage_get (offTable w') (Ref 2 1) = None"
    by code_simp
  then obtain w' s' where run: "writeContent sample_env no_filters ?objs new_writer (new_stream '''') 0 = Inr (w', s')"
    and off: "storage_get (offTable w') (Ref 4 0) = Some 0" "storage_get (offTable w') (Ref 2 1) = None"
    by (auto split: sum.splits)
  have "map_of (live ?objs) (Ref 4 0) = Some (XInt 7)" "storage_get (offTable new_writer) (Ref 4 0) = None"
    by (simp_all add: new_writer_def storage_empty_def)
  with conjunct1 [OF writeContent_offsets [OF run refl ok]] line obtain p where
    p: "storage_get (offTable w') (Ref 4 0) = Some p"
       "take (length ?line + 1) (drop p (sdata s')) = ?line @ newline" by blast
  have len: "length ?line + 1 = 18" by (simp add: newline_def)
  have "p = 0" using p(1) off by simp
  then have "take 18 (sdata s') = ?line @ newline" using p(2) unfolding len by (simp only: drop0)
  with run off show ?thesis by blast
qed

section \<open>Subsections\<close>

text \<open>What a table of subsections says: object number, offset and generation of each entry.\<close>

definition section_entries :: "int \<times> (nat \<times> int) list \<Rightarrow> (int \<times> nat \<times> int) list" where
  "section_entries sec = zip (map (\<lambda>i. fst sec + int i) [0..<length (snd sec)]) (snd sec)"

definition table_entries :: "subsections \<Rightarrow> (int \<times> nat \<times> int) list" where
  "table_entries secs = concat (map section_entries secs)"

definition offset_entries :: "(ref, nat) storage \<Rightarrow> (int \<times> nat \<times> int) list" where
  "offset_entries table = map (\<lambda>(r, off). (ref_num r, off, ref_gen r)) table"

text \<open>Two subsections are apart when the second neither overlaps nor continues the first.\<close>

definition apart :: "int \<times> (nat \<times> int) list \<Rightarrow> int \<times> (nat \<times> int) list \<Rightarrow> bool" where
  "apart a b \<longleftrightarrow> fst a + int (length (snd a)) < fst b"

lemma section_entries_snoc:
  "section_entries (k, es @ [e]) = section_entries (k, es) @ [(k + int (length es), e)]"
  by (simp add: section_entries_def)

lemma table_entries_snoc: "table_entries (secs @ [s]) = table_entries secs @ section_entries s"
  by (simp add: table_entries_def)

lemma storage_set_last:
  "\<forall>x\<in>set m. fst x < k \<Longrightarrow> storage_set (m @ [(k, v)]) k v' = m @ [(k, v')]"
  by (induction m) (auto simp: less_le_not_le)

lemma storage_set_greater:
  "\<forall>x\<in>set m. fst x < k \<Longrightarrow> storage_set m k v = m @ [(k, v)]"
  by (induction m) (auto simp: less_le_not_le)

lemma storage_get_greater:
  "\<forall>x\<in>set m. fst x < (k::'a::linorder) \<Longrightarrow> storage_get m k = None"
  by (induction m) auto

lemma storage_get_last:
  "\<forall>x\<in>set m. fst x < (k::'a::linorder) \<Longrightarrow> storage_get (m @ [(k, v)]) k = Some v"
  by (induction m) auto

text \<open>The state of the loop after the entries \<open>done\<close>, the last of which has the number \<open>n\<close>.\<close>

definition sections_inv :: "(ref \<times> nat) list \<Rightarrow> subsections \<times> int option \<Rightarrow> bool" where
  "sections_inv xs st \<longleftrightarrow>
     table_entries (fst st) = offset_entries xs \<and> sorted_wrt apart (fst st) \<and>
     (\<forall>sec\<in>set (fst st). snd sec \<noteq> []) \<and>
     (if xs = [] then st = ([], None)
      else \<exists>secs k es. st = (secs @ [(k, es)], Some k) \<and>
             k + int (length es) = ref_num (fst (last xs)) + 1)"

lemma sections_inv_step:
  assumes inv: "sections_inv xs st" and gt: "\<forall>x\<in>set xs. ref_num (fst x) < ref_num r"
  shows "sections_inv (xs @ [(r, off)]) (add_entry st (r, off))"
proof (cases "xs = []")
  case True
  with inv have "st = ([], None)" by (simp add: sections_inv_def)
  with True show ?thesis
    by (simp add: sections_inv_def new_subsection_def storage_contains_def table_entries_def
        section_entries_def offset_entries_def)
next
  case False
  with inv obtain secs k es where st: "st = (secs @ [(k, es)], Some k)"
    and last: "k + int (length es) = ref_num (fst (last xs)) + 1"
    and flat: "table_entries (secs @ [(k, es)]) = offset_entries xs"
    and sorted: "sorted_wrt apart (secs @ [(k, es)])" and ne: "\<forall>sec\<in>set (secs @ [(k, es)]). snd sec \<noteq> []"
    by (auto simp: sections_inv_def)
  have below: "\<forall>x\<in>set secs. fst x < k"
    using sorted by (auto simp: sorted_wrt_append apart_def)
  have le: "k + int (length es) \<le> ref_num r"
    using last gt False by (auto simp: last_in_set dest!: bspec [of _ _ "last xs"])
  have len: "0 < length es" using ne by simp
  show ?thesis
  proof (cases "ref_num r = k + int (length es)")
    case True
    have "add_entry st (r, off) = (secs @ [(k, es @ [(off, ref_gen r)])], Some k)"
      using True below by (simp add: st storage_get_last storage_set_last)
    then show ?thesis
      using True flat sorted ne
      by (auto simp: sections_inv_def table_entries_snoc section_entries_snoc offset_entries_def
          sorted_wrt_append apart_def)
  next
    case False
    with le have gt': "k + int (length es) < ref_num r" by simp
    have above: "\<forall>x\<in>set (secs @ [(k, es)]). fst x < ref_num r"
      using below gt' len by force
    have "add_entry st (r, off) = ((secs @ [(k, es)]) @ [(ref_num r, [(off, ref_gen r)])], Some (ref_num r))"
      using False below storage_get_greater [OF above] storage_set_greater [OF above]
      by (simp add: st storage_get_last new_subsection_def storage_contains_def)
    moreover have "\<forall>x\<in>set (secs @ [(k, es)]). apart x (ref_num r, [(off, ref_gen r)])"
      using sorted gt' by (auto simp: sorted_wrt_append apart_def)
    ultimately show ?thesis
      using flat sorted ne table_entries_snoc [of "secs @ [(k, es)]"]
      by (auto simp: sections_inv_def section_entries_def offset_entries_def sorted_wrt_append)
  qed
qed

lemma sections_inv_fold:
  assumes "sorted_wrt (<) (map (ref_num \<circ> fst) table)"
  shows "sections_inv table (foldl add_entry ([], None) table)"
  using assms
proof (induction table rule: rev_induct)
  case Nil
  show ?case by (simp add: sections_inv_def table_entries_def offset_entries_def)
next
  case (snoc x table)
  then show ?case
    using sections_inv_step [of table "foldl add_entry ([], None) table" "fst x" "snd x"]
    by (auto simp: sorted_wrt_append)
qed

lemma storage_ok_numbers:
  assumes "storage_ok table" "distinct (map (ref_num \<circ> fst) table)"
  shows "sorted_wrt (<) (map (ref_num \<circ> fst) table)"
  using assms
proof (induction table)
  case (Cons a table)
  obtain r off where a: "a = (r, off)" by force
  with Cons have "\<forall>x\<in>set table. r < fst x" and "\<forall>x\<in>set table. ref_num r \<noteq> ref_num (fst x)"
    by (auto simp: storage_ok_Cons)
  then have "\<forall>x\<in>set table. ref_num r < ref_num (fst x)"
    by (auto simp: less_ref_def ref_less_def split: if_splits)
  with a Cons show ?case by (auto simp: storage_ok_Cons)
qed simp



text \<open>
  Of two references with the same number at the start of a subsection only the first
  comes into the table: the second object is in the file, but nothing refers to it.
\<close>

theorem subsections_same_number:
  "make_subsections [(Ref n g, p), (Ref n g', p')] = [(n, [(p, g)])]"
  by (simp add: make_subsections_def storage_empty_def new_subsection_def storage_contains_def)

section \<open>Rows\<close>

lemma read_digits_zeros: "read_digits 0 (replicate k (CHR ''0'') @ s) = read_digits 0 s"
  by (induction k) (simp_all add: digit_value_def)

lemma read_digits_pad:
  "digit_value c = None \<Longrightarrow> read_digits 0 (pad_left w (CHR ''0'') (show_nat n) @ c # s) = (n, c # s)"
  by (simp add: pad_left_def read_digits_zeros read_digits_show_nat)

text \<open>
  A row of the cross reference table takes exactly 20 bytes with its end of line, for any
  offset and every generation of up to five digits, and its two numbers read back as the offset
  (modulo \<open>2 ^ 32\<close>) and the generation, in front of the keyword of entries in use.
\<close>

theorem xref_row_format:
  assumes "0 \<le> gen" and "gen < 100000"
  shows "length (xref_row (off, gen) @ newline) = 20
    \<and> (\<exists>rest. read_digits 0 (xref_row (off, gen)) = (off mod 4294967296, CHR '' '' # rest)
          \<and> read_digits 0 rest = (nat gen, '' n ''))"
proof -
  have "to_unsigned (int off) < 10 ^ 10" and u: "to_unsigned (int off) = off mod 4294967296"
    by (auto simp: to_unsigned_def nat_mod_distrib nat_less_iff intro: order.strict_trans [of _ 4294967296])
  then have l1: "length (show_nat (to_unsigned (int off))) \<le> 10"
    by (intro length_show_nat_le) simp_all
  have l2: "length (show_nat (nat gen)) \<le> 5"
    using assms by (intro length_show_nat_le) simp_all
  have sp: "digit_value (CHR '' '') = None" by (simp add: digit_value_def)
  let ?rest = "pad_left 5 (CHR ''0'') (show_nat (nat gen)) @ '' n ''"
  have "xref_row (off, gen) = pad_left 10 (CHR ''0'') (show_nat (to_unsigned (int off))) @ CHR '' '' # ?rest"
    using assms by (simp add: pad_int_def)
  moreover have "read_digits 0 ?rest = (nat gen, '' n '')"
    using read_digits_pad [OF sp, of 5 "nat gen"] by simp
  ultimately show ?thesis
    using l1 l2 read_digits_pad [OF sp, of 10 "to_unsigned (int off)" ?rest] u assms
    by (simp add: pad_int_def newline_def)
qed

theorem xref_row_format_witness:
  "length (xref_row (1234, 65535) @ newline) = 20 \<and> xref_row (1234, 65535) = ''0000001234 65535 n ''"
proof -
  have "length (xref_row (1234, 65535) @ newline) = 20"
    using xref_row_format [of 65535 1234] by simp
  moreover have "xref_row (1234, 65535) = ''0000001234 65535 n ''"
    by (simp add: pad_int_def pad_left_def to_unsigned_def show_nat.simps digit_char_simps)
      (simp add: numeral_eq_Suc)
  ultimately show ?thesis by blast
qed

section \<open>The trailer\<close>

text \<open>What \<^verbatim>\<open>writeContent\<close> keeps: offsets in key order, and \<^verbatim>\<open>maxObjNum\<close> above all numbers.\<close>

definition writer_inv :: "pdf_writer \<Rightarrow> bool" where
  "writer_inv w \<longleftrightarrow> storage_ok (offTable w) \<and> 0 \<le> maxObjNum w \<and>
     (\<forall>r\<in>fst ` set (offTable w). ref_num r \<le> maxObjNum w)"

lemma writer_inv_new [inv_intros]: "writer_inv new_writer"
  by (simp add: writer_inv_def new_writer_def storage_empty_def)

lemma writer_inv_notify [inv_intros]: "writer_inv w \<Longrightarrow> writer_inv (notify_step w task n i)"
  by (simp add: writer_inv_def)

lemma writer_inv_record [inv_intros]: "writer_inv w \<Longrightarrow> writer_inv (record_object w ref pos)"
  by (auto simp: writer_inv_def keys_storage_set intro: inv_intros)

lemma writer_inv_entries [inv_intros]:
  "writer_inv w \<Longrightarrow> write_entries env reg n i objs w s = Inr (w', s') \<Longrightarrow> writer_inv w'"
proof (induction env reg n i objs w s rule: write_entries.induct)
  case (2 env reg n i ref obj objs w s)
  show ?case
  proof (cases "obj = None \<or> storage_contains (offTable w) ref")
    case True
    with 2 show ?thesis by (cases obj) auto
  next
    case False
    then obtain x where obj: "obj = Some x" and nc: "\<not> storage_contains (offTable w) ref" by auto
    with "2.prems" obtain s1 where s1: "writeObject env reg x s (Some ref) True = Inr s1"
      and rest: "write_entries env reg n (Suc i) objs
        (notify_step (record_object w ref (spos s)) CONTENT n i) s1 = Inr (w', s')"
      by (auto simp: rbind_Inr_iff)
    show ?thesis
      using "2.IH"(3) [OF obj nc s1 _ rest] "2.prems"(1) by (blast intro: inv_intros)
  qed
qed simp

lemma writer_inv_content [inv_intros]:
  "writer_inv w \<Longrightarrow> writeContent env reg objs w s off = Inr (w', s') \<Longrightarrow> writer_inv w'"
  unfolding writeContent_def by (rule writer_inv_entries)

lemma to_int_id: "- 2147483648 \<le> i \<Longrightarrow> i < 2147483648 \<Longrightarrow> to_int i = i"
  by (simp add: to_int_def)

lemma dict_lookupNF_del:
  "distinct (map fst d) \<Longrightarrow> dict_lookupNF (snd (dict_del d k)) = (dict_lookupNF d)(k := XNull)"
  by (auto simp: dict_lookupNF_def dict_del_def dict_drop_find fun_eq_iff)

lemma distinct_dict_del [inv_intros]:
  "distinct (map fst d) \<Longrightarrow> distinct (map fst (snd (dict_del d k)))"
  by (simp add: dict_del_def distinct_dict_drop)

definition xref_stream_fields :: "string list" where
  "xref_stream_fields = [''Type'', ''Index'', ''W'', ''Length'', ''Filter'', ''DecodeParms'']"

definition strip :: "dict \<Rightarrow> string \<Rightarrow> dict" where
  "strip t f = (if getType (dict_lookupNF t f) \<noteq> objNull then snd (dict_del t f) else t)"

lemma objNull_iff: "getType x = objNull \<longleftrightarrow> x = XNull"
  by (cases x) simp_all

lemma strip_lookup:
  "distinct (map fst t) \<Longrightarrow> dict_lookupNF (strip t f) = (dict_lookupNF t)(f := XNull)"
  by (auto simp: strip_def dict_lookupNF_del objNull_iff fun_eq_iff)

lemma strip_distinct: "distinct (map fst t) \<Longrightarrow> distinct (map fst (strip t f))"
  by (simp add: strip_def distinct_dict_del)

lemma strip_all_lookup:
  "distinct (map fst t) \<Longrightarrow>
   distinct (map fst (foldl strip t fs)) \<and>
   dict_lookupNF (foldl strip t fs) k = (if k \<in> set fs then XNull else dict_lookupNF t k)"
  by (induction fs arbitrary: t) (auto simp: strip_distinct strip_lookup)

lemma stripXRefStreamFields_eq:
  "stripXRefStreamFields t = foldl strip t xref_stream_fields"
  by (simp add: stripXRefStreamFields_def xref_stream_fields_def strip_def [abs_def])

lemma update_trailer_lookup:
  assumes "distinct (map fst trailer)"
  shows "dict_lookupNF (update_trailer w prev trailer) k =
    (if k = ''Size'' then XInt (to_int (int (max (prev_entriesNum prev) (nat (maxObjNum w + 1)))))
     else if k \<in> set (''XRefStm'' # xref_stream_fields) then XNull
     else if k = ''Prev'' then
       (if prev_xrefPos prev = 0 then XNull else XInt (to_int (int (prev_xrefPos prev))))
     else dict_lookupNF trailer k)"
proof -
  define t1 where "t1 = (if prev_xrefPos prev = 0 then snd (dict_del trailer ''Prev'')
      else snd (dict_update trailer ''Prev'' (XInt (to_int (int (prev_xrefPos prev))))))"
  define t2 where "t2 = snd (dict_del t1 ''XRefStm'')"
  have d1: "distinct (map fst t1)"
    using assms by (auto simp: t1_def intro: inv_intros)
  then have d2: "distinct (map fst t2)" by (simp add: t2_def distinct_dict_del)
  have l1: "dict_lookupNF t1 = (dict_lookupNF trailer)(''Prev'' :=
      (if prev_xrefPos prev = 0 then XNull else XInt (to_int (int (prev_xrefPos prev)))))"
    using assms by (auto simp: t1_def dict_lookupNF_del dict_lookupNF_update fun_eq_iff)
  have fields: "''Size'' \<notin> set xref_stream_fields" "''Prev'' \<notin> set xref_stream_fields"
    by (simp_all add: xref_stream_fields_def)
  have "update_trailer w prev trailer = snd (dict_update (stripXRefStreamFields t2) ''Size''
      (XInt (to_int (int (max (prev_entriesNum prev) (nat (maxObjNum w + 1)))))))"
    by (simp add: update_trailer_def Let_def t1_def t2_def)
  then show ?thesis
    using strip_all_lookup [OF d2, of xref_stream_fields k] d1 fields
    by (simp add: stripXRefStreamFields_eq dict_lookupNF_update t2_def dict_lookupNF_del l1)
qed

text \<open>
  Claim C24: the trailer that is written says where the previous section is (or nothing, when there
  is none), keeps no trace of cross reference streams and hybrid files, has a size above every
  object number in the table and not below the size of the previous section, and has the other
  entries of the trailer as they were.
\<close>

theorem trailer_fields:
  assumes "distinct (map fst trailer)" and "writer_inv w"
    and "prev_xrefPos prev < 2147483648" and "prev_entriesNum prev < 2147483648"
    and "maxObjNum w < 2147483647"
  shows "dict_lookupNF (update_trailer w prev trailer) ''Prev''
      = (if prev_xrefPos prev = 0 then XNull else XInt (int (prev_xrefPos prev)))
    \<and> (\<exists>n. dict_lookupNF (update_trailer w prev trailer) ''Size'' = XInt n
          \<and> int (prev_entriesNum prev) \<le> n \<and> (\<forall>r\<in>fst ` set (offTable w). ref_num r < n))
    \<and> (\<forall>k\<in>set (''XRefStm'' # xref_stream_fields).
          dict_lookupNF (update_trailer w prev trailer) k = XNull)
    \<and> (\<forall>k. k \<notin> set (''Prev'' # ''Size'' # ''XRefStm'' # xref_stream_fields) \<longrightarrow>
          dict_lookupNF (update_trailer w prev trailer) k = dict_lookupNF trailer k)"
proof -
  define n where "n = int (max (prev_entriesNum prev) (nat (maxObjNum w + 1)))"
  have "to_int n = n"
    using assms by (intro to_int_id) (auto simp: n_def writer_inv_def)
  moreover have "int (prev_entriesNum prev) \<le> n" by (simp add: n_def)
  moreover have "\<forall>r\<in>fst ` set (offTable w). ref_num r < n"
    using assms(2) by (fastforce simp: writer_inv_def n_def)
  moreover have "to_int (int (prev_xrefPos prev)) = int (prev_xrefPos prev)"
    using assms(3) by (intro to_int_id) auto
  ultimately show ?thesis
    by (auto simp: update_trailer_lookup [OF assms(1)] n_def [symmetric] xref_stream_fields_def)
qed

definition sample_writer :: pdf_writer where
  "sample_writer = \<lparr>offTable = [(Ref 4 0, 15), (Ref 9 1, 40)], maxObjNum = 9, steps = []\<rparr>"

definition sample_trailer :: dict where
  "sample_trailer = [(''Size'', XInt 5), (''Root'', XRefObj (Ref 1 0)), (''XRefStm'', XInt 77), (''W'', XArray [])]"

lemma sample_writer_inv: "writer_inv sample_writer"
  by (auto simp: writer_inv_def sample_writer_def storage_ok_def less_ref_def ref_less_def)

theorem trailer_fields_witness:
  "dict_lookupNF (update_trailer sample_writer \<lparr>prev_xrefPos = 1000, prev_entriesNum = 5\<rparr> sample_trailer) ''Prev'' = XInt 1000
   \<and> dict_lookupNF (update_trailer sample_writer \<lparr>prev_xrefPos = 1000, prev_entriesNum = 5\<rparr> sample_trailer) ''Root'' = XRefObj (Ref 1 0)"
proof -
  have d: "distinct (map fst sample_trailer)" by (simp add: sample_trailer_def)
  note t = trailer_fields [OF d sample_writer_inv, of "\<lparr>prev_xrefPos = 1000, prev_entriesNum = 5\<rparr>"]
  from t have "dict_lookupNF (update_trailer sample_writer \<lparr>prev_xrefPos = 1000, prev_entriesNum = 5\<rparr> sample_trailer) ''Prev'' = XInt 1000"
    by (simp add: sample_writer_def)
  moreover from t have "dict_lookupNF (update_trailer sample_writer \<lparr>prev_xrefPos = 1000, prev_entriesNum = 5\<rparr> sample_trailer) ''Root'' = dict_lookupNF sample_trailer ''Root''"
    by (simp add: sample_writer_def xref_stream_fields_def)
  ultimately show ?thesis by (simp add: sample_trailer_def dict_lookupNF_def)
qed

section \<open>The end of the file\<close>

lemma cut_behind_sdata:
  assumes "sstart s = 0" "\<not> slimited s" "spos s \<le> length (sdata s)"
  shows "sdata (cut_behind s) = take (spos s) (sdata s)" "spos (cut_behind s) = spos s"
  using assms
  by (auto simp: cut_behind_def Let_def setPos_end_def trim_def setPos_def truncate_file_def min_def)

lemma notify_subsections_simps [simp]:
  "offTable (notify_subsections w n) = offTable w"
  "maxObjNum (notify_subsections w n) = maxObjNum w"
proof -
  have "offTable (foldl (\<lambda>w i. notify_step w TRAILER n i) w xs) = offTable w
      \<and> maxObjNum (foldl (\<lambda>w i. notify_step w TRAILER n i) w xs) = maxObjNum w" for xs
    by (induction xs arbitrary: w) simp_all
  then show "offTable (notify_subsections w n) = offTable w"
    "maxObjNum (notify_subsections w n) = maxObjNum w"
    by (simp_all add: notify_subsections_def)
qed

text \<open>All lines \<^verbatim>\<open>writeTrailer\<close> puts, given the text of the trailer.\<close>

definition trailer_lines :: "pdf_writer \<Rightarrow> nat \<Rightarrow> string \<Rightarrow> string list" where
  "trailer_lines w xrefPos body =
     table_lines (make_subsections (offTable w))
       @ [''trailer'', body, ''startxref'', show_nat (to_unsigned (int xrefPos)), ''%%EOF'']"

lemma writeTrailer_lines:
  assumes "writeTrailer env reg trailer prev w s off = Inr (w', t', s', pos)" and "offTable w \<noteq> []"
  defines "start \<equiv> (if off = 0 then spos s else off)"
  obtains body where "obj_string (w_stream env) (XDict t') = Inr body"
    "t' = update_trailer w prev trailer"
    "s' = cut_behind (putLines (setPos s start) (trailer_lines w start body))"
    "pos = spos (setPos s start) + length (lines_bytes (butlast (trailer_lines w start body)))"
    "offTable w' = []" "maxObjNum w' = 0"
proof -
  have len: "storage_size (offTable w) \<noteq> 0" using assms(2) by (simp add: storage_size_def)
  have st: "(if off = 0 then (spos s, s) else (off, setPos s off)) = (start, setPos s start)"
    by (simp add: start_def setPos_def)
  let ?t = "update_trailer w prev trailer"
  let ?s2 = "putLine (putLines (setPos s start) (table_lines (make_subsections (offTable w)))) ''trailer''"
  from assms(1) obtain s3 where s3: "writeObject env reg (XDict ?t) ?s2 None False = Inr s3"
    and r: "w' = writer_reset (notify_subsections w (storage_size (make_subsections (offTable w))))"
      "t' = ?t" "pos = spos (putLine (putLine s3 ''startxref'') (show_nat (to_unsigned (int start))))"
      "s' = cut_behind (putLine (putLine (putLine s3 ''startxref'') (show_nat (to_unsigned (int start)))) ''%%EOF'')"
    unfolding writeTrailer_def Let_def st prod.case using len
    by (auto simp: rbind_Inr_iff)
  from s3 obtain body where body: "obj_string (w_stream env) (XDict ?t) = Inr body" "s3 = putLine ?s2 body"
    unfolding writeObject_def object_line_def by (auto simp: rbind_Inr_iff simp del: obj_string.simps)
  have "s' = cut_behind (putLines (setPos s start) (trailer_lines w start body))"
    by (simp add: r(4) body(2) trailer_lines_def)
  moreover have "pos = spos (setPos s start) + length (lines_bytes (butlast (trailer_lines w start body)))"
    unfolding r(3) body(2) putLines_spos [symmetric] by (simp add: trailer_lines_def butlast_append)
  ultimately show ?thesis
    using that [of body] r body by (simp add: writer_reset_def storage_clear_def)
qed

lemma writeTrailer_spec:
  assumes "writeTrailer env reg trailer prev w s 0 = Inr (w', t', s', pos)" and "offTable w \<noteq> []"
    and "spos s \<le> length (sdata s)" and "sstart s = 0" and "\<not> slimited s"
  shows "\<exists>body. obj_string (w_stream env) (XDict t') = Inr body \<and> t' = update_trailer w prev trailer
      \<and> sdata s' = take (spos s) (sdata s) @ lines_bytes (trailer_lines w (spos s) body)
      \<and> take 4 (drop (spos s) (sdata s')) = ''xref''
      \<and> drop pos (sdata s') = ''%%EOF'' @ newline
      \<and> offTable w' = [] \<and> maxObjNum w' = 0"
proof -
  from writeTrailer_lines [OF assms(1,2)] obtain body where
    body: "obj_string (w_stream env) (XDict t') = Inr body" "t' = update_trailer w prev trailer"
    and s': "s' = cut_behind (putLines (setPos s (spos s)) (trailer_lines w (spos s) body))"
    and pos: "pos = spos (setPos s (spos s)) + length (lines_bytes (butlast (trailer_lines w (spos s) body)))"
    and w': "offTable w' = []" "maxObjNum w' = 0"
    by auto
  let ?ls = "trailer_lines w (spos s) body"
  have id: "setPos s (spos s) = s" by (simp add: setPos_def)
  have data: "sdata s' = take (spos s) (sdata s) @ lines_bytes ?ls"
    unfolding s' id using assms(3-5) putLines_pos_ok [OF assms(3), of ?ls]
    by (simp add: cut_behind_sdata putLines_sdata putLines_spos write_at_def)
  have "take 4 (lines_bytes ?ls) = ''xref''"
    by (simp add: trailer_lines_def table_lines_def)
  moreover have "lines_bytes ?ls = lines_bytes (butlast ?ls) @ ''%%EOF'' @ newline"
    by (simp add: trailer_lines_def butlast_append)
  ultimately show ?thesis
    using body w' data pos assms(3) by (auto simp: setPos_def)
qed

text \<open>
  Claim C25: behind what was in the file up to the current position come the cross reference table,
  the trailer, the position of the table, which is where the keyword \<^verbatim>\<open>xref\<close> is, and the end of
  file marker, at the position returned, and after that the file ends, however long it was before;
  the writer is then as new.
\<close>

theorem writeTrailer_file:
  assumes "writeTrailer env reg trailer prev w s 0 = Inr (w', t', s', pos)" and "offTable w \<noteq> []"
    and "spos s \<le> length (sdata s)" and "sstart s = 0" and "\<not> slimited s"
  shows "\<exists>body. obj_string (w_stream env) (XDict t') = Inr body \<and> t' = update_trailer w prev trailer
      \<and> sdata s' = take (spos s) (sdata s) @ lines_bytes (trailer_lines w (spos s) body)
      \<and> take 4 (drop (spos s) (sdata s')) = ''xref''
      \<and> drop pos (sdata s') = ''%%EOF'' @ newline
      \<and> offTable w' = [] \<and> maxObjNum w' = 0"
  using writeTrailer_spec [OF assms] .

theorem writeTrailer_file_witness:
  "\<exists>w' t' s' pos. writeTrailer sample_env no_filters sample_trailer no_prev sample_writer
      \<lparr>sdata = ''ABCrubbish'', spos = 3, sstart = 0, slimited = False, slen = 0\<rparr> 0 = Inr (w', t', s', pos)
    \<and> take 4 (drop 3 (sdata s')) = ''xref'' \<and> drop pos (sdata s') = ''%%EOF'' @ newline"
proof -
  let ?s = "\<lparr>sdata = ''ABCrubbish'', spos = 3, sstart = 0, slimited = False, slen = 0\<rparr>"
  have "writeTrailer sample_env no_filters sample_trailer no_prev sample_writer ?s 0 \<noteq> Inl e" for e
    by (simp add: writeTrailer_def sample_writer_def storage_size_def Let_def writeObject_def object_line_def
        update_trailer_def no_prev_def sample_trailer_def dict_update_def dict_del_def dict_add_def
        stripXRefStreamFields_def dict_lookupNF_def)
  then obtain w' t' s' pos where run:
    "writeTrailer sample_env no_filters sample_trailer no_prev sample_writer ?s 0 = Inr (w', t', s', pos)"
    by (cases "writeTrailer sample_env no_filters sample_trailer no_prev sample_writer ?s 0") auto
  have "offTable sample_writer \<noteq> []" by (simp add: sample_writer_def)
  from writeTrailer_file [OF run this] run show ?thesis by fastforce
qed

section \<open>Progress of the two phases\<close>

lemma write_entries_steps:
  "write_entries env reg n i objs w s = Inr (w', s') \<Longrightarrow> i + length objs \<le> n \<Longrightarrow>
   \<exists>evs. steps w' = steps w @ evs \<and> (\<forall>ev\<in>set evs. \<exists>k<n. ev = (CONTENT, n, k))"
proof (induction env reg n i objs w s rule: write_entries.induct)
  case (2 env reg n i ref obj objs w s)
  show ?case
  proof (cases "obj = None \<or> storage_contains (offTable w) ref")
    case True
    with 2 show ?thesis by (cases obj) auto
  next
    case False
    then obtain x where obj: "obj = Some x" and nc: "\<not> storage_contains (offTable w) ref" by auto
    with "2.prems" obtain s1 where s1: "writeObject env reg x s (Some ref) True = Inr s1"
      and rest: "write_entries env reg n (Suc i) objs
        (notify_step (record_object w ref (spos s)) CONTENT n i) s1 = Inr (w', s')"
      by (auto simp: rbind_Inr_iff)
    from "2.prems"(2) have i: "i < n" "Suc i + length objs \<le> n" by simp_all
    from "2.IH"(3) [OF obj nc s1 rest i(2)] obtain evs where
      "steps w' = steps w @ [(CONTENT, n, i)] @ evs" "\<forall>ev\<in>set evs. \<exists>k<n. ev = (CONTENT, n, k)"
      by auto
    with i(1) show ?thesis by (intro exI [of _ "(CONTENT, n, i) # evs"]) auto
  qed
qed simp

lemma progress_below:
  "\<forall>ev\<in>set evs. \<exists>t k. k < n \<and> ev = (t, n, k) \<Longrightarrow> bar_present p \<Longrightarrow>
   count_list (bar_calls (foldl progress_notify p evs)) Finish = count_list (bar_calls p) Finish
   \<and> (evs \<noteq> [] \<longrightarrow> started (foldl progress_notify p evs)) \<and> bar_present (foldl progress_notify p evs)"
proof (induction evs arbitrary: p)
  case (Cons ev evs)
  then obtain t k where "k < n" "ev = (t, n, k)" by auto
  with Cons.prems(2) have
    "count_list (bar_calls (progress_notify p ev)) Finish = count_list (bar_calls p) Finish"
    "started (progress_notify p ev)" "bar_present (progress_notify p ev)"
    by (auto simp: progress_notify_def Let_def)
  with Cons.IH [of "progress_notify p ev"] Cons.prems show ?case by (cases evs) auto
qed simp

text \<open>
  The steps of the content phase are numbered from zero, so a progress bar that follows
  them never gets to its end: it is started with the first object and not finished by the last.
\<close>

theorem content_phase_not_finished:
  assumes "writeContent env reg objs w s off = Inr (w', s')" and "steps w = []" and "steps w' \<noteq> []"
  shows "started (foldl progress_notify \<lparr>bar_present = True, started = False, bar_calls = []\<rparr> (steps w'))
    \<and> Finish \<notin> set (bar_calls (foldl progress_notify \<lparr>bar_present = True, started = False, bar_calls = []\<rparr> (steps w')))"
proof -
  from assms write_entries_steps [of env reg "length objs" 0 objs w _ w' s']
  have "\<forall>ev\<in>set (steps w'). \<exists>t k. k < length objs \<and> ev = (t, length objs, k)"
    by (fastforce simp: writeContent_def)
  from progress_below [OF this, of "\<lparr>bar_present = True, started = False, bar_calls = []\<rparr>"] assms(3)
  have "started (foldl progress_notify \<lparr>bar_present = True, started = False, bar_calls = []\<rparr> (steps w'))"
    "count_list (bar_calls (foldl progress_notify \<lparr>bar_present = True, started = False, bar_calls = []\<rparr> (steps w'))) Finish = 0"
    by simp_all
  then show ?thesis by (simp only: count_list_0_iff simp_thms)
qed

theorem content_phase_not_finished_witness:
  "\<exists>w' s'. writeContent sample_env no_filters [(Ref 4 0, Some (XInt 7))] new_writer (new_stream '''') 0 = Inr (w', s')
    \<and> started (foldl progress_notify \<lparr>bar_present = True, started = False, bar_calls = []\<rparr> (steps w'))"
proof -
  have "case writeContent sample_env no_filters [(Ref 4 0, Some (XInt 7))] new_writer (new_stream '''') 0 of
      Inl _ \<Rightarrow> False | Inr (w', s') \<Rightarrow> steps w' \<noteq> []"
    by code_simp
  then obtain w' s' where run:
    "writeContent sample_env no_filters [(Ref 4 0, Some (XInt 7))] new_writer (new_stream '''') 0 = Inr (w', s')"
    and ne: "steps w' \<noteq> []"
    by (auto split: sum.splits)
  from content_phase_not_finished [OF run _ ne] run show ?thesis
    by (auto simp: new_writer_def)
qed

end
