(* ===== verification/Document_Writers.thy ===== *)
theory Document_Writers
  imports Old_Style_Writer
begin

text \<open>
  The two writers of whole documents: \<^verbatim>\<open>Delinearizator\<close> of \<^verbatim>\<open>src/src/kernel/delinearizator.cc\<close>,
  which copies all used objects except the linearization dictionary, and \<^verbatim>\<open>Flattener\<close> of
  \<^verbatim>\<open>src/src/kernel/flattener.cc\<close>, which copies what can be reached from the trailer.  Both fill
  the batches of \<open>writeDocument\<close>.
\<close>

section \<open>Delinearizator\<close>

definition entry_ref :: "nat \<Rightarrow> xref_entry \<Rightarrow> ref" where
  "entry_ref num e = Ref (int num) (if entry_type e = xrefEntryCompressed then 0 else entry_gen e)"

lemma tab_xref_fetch [simp]: "tab (snd (xref_fetch x r)) = tab x"
  by (auto simp: xref_fetch_def Let_def split: entry_type.splits option.splits)

text \<open>
  \<^verbatim>\<open>Delinearizator::fillObjectList\<close>: \<open>lastObj\<close> is kept between the batches, \<open>acc\<close> is the list
  under construction.
\<close>

function delin_fill ::
    "ref \<Rightarrow> nat \<Rightarrow> cxref \<Rightarrow> nat \<Rightarrow> (ref \<times> xobj) list \<Rightarrow> ((ref \<times> xobj) list \<times> cxref \<times> nat) result" where
  "delin_fill linRef maxCount x lastObj acc =
     (if lastObj < length (entries (tab x)) then
        if maxCount > 0 \<and> length acc \<ge> maxCount then Inr (acc, x, lastObj)
        else
          let e = entries (tab x) ! lastObj; ref = entry_ref lastObj e in
          if entry_type e = xrefEntryFree then delin_fill linRef maxCount x (Suc lastObj) acc
          else if ref = linRef then delin_fill linRef maxCount x (Suc lastObj) acc
          else if \<not> ok (snd (xref_fetch x ref)) then Inl MalformedFormatExeption
          else delin_fill linRef maxCount (snd (xref_fetch x ref)) (Suc lastObj)
                 (acc @ [(ref, fst (xref_fetch x ref))])
      else Inr (acc, x, lastObj))"
  by pat_completeness auto
termination
  by (relation "measure (\<lambda>(l, m, x, n, acc). length (entries (tab x)) - n)") auto

declare delin_fill.simps [simp del]

definition delin_fillObjectList :: "ref \<Rightarrow> (cxref \<times> nat) filler" where
  "delin_fillObjectList linRef maxCount st = delin_fill linRef maxCount (fst st) (snd st) []"

text \<open>\<^verbatim>\<open>Delinearizator::delinearize\<close> starts from the first entry.\<close>

definition delinearize ::
    "nat \<Rightarrow> ref \<Rightarrow> writer_env \<Rightarrow> registry \<Rightarrow> cxref \<Rightarrow> string \<Rightarrow> pdf_writer option \<Rightarrow> string option
     \<Rightarrow> ((int \<times> string) result) option" where
  "delinearize fuel linRef env reg x version w out =
     writeDocument fuel (delin_fillObjectList linRef) env reg x version (x, 0) w out"

section \<open>Flattener\<close>

text \<open>
  \<^verbatim>\<open>collectReachableRefs\<close>, depth first; \<^verbatim>\<open>refList\<close> grows before the target is visited.  The
  fuel bounds the number of references on the path from the trailer.
\<close>

function (sequential) collect_obj ::
    "nat \<Rightarrow> cxref \<Rightarrow> xobj \<Rightarrow> ref list \<Rightarrow> ((ref list \<times> cxref) result) option"
  and collect_array :: "nat \<Rightarrow> cxref \<Rightarrow> xobj list \<Rightarrow> ref list \<Rightarrow> ((ref list \<times> cxref) result) option"
  and collectDictRefElems :: "nat \<Rightarrow> cxref \<Rightarrow> dict \<Rightarrow> ref list \<Rightarrow> ((ref list \<times> cxref) result) option" where
  "collect_obj fuel x (XArray xs) refs = collect_array fuel x xs refs"
| "collect_obj fuel x (XDict d) refs = collectDictRefElems fuel x d refs"
| "collect_obj fuel x (XStream d s) refs = collectDictRefElems fuel x d refs"
| "collect_obj fuel x (XRefObj r) refs =
     (if r \<in> set refs then Some (Inr (refs, x))
      else case fuel of
        0 \<Rightarrow> None
      | Suc n \<Rightarrow>
          (case cxref_fetch deep_copy x r of
             (Inl e, x1) \<Rightarrow> Some (Inl e)
           | (Inr target, x1) \<Rightarrow> collect_obj n x1 target (refs @ [r])))"
| "collect_obj fuel x obj refs = Some (Inr (refs, x))"
| "collect_array fuel x [] refs = Some (Inr (refs, x))"
| "collect_array fuel x (v # vs) refs =
     (case collect_obj fuel x v refs of
        None \<Rightarrow> None
      | Some (Inl e) \<Rightarrow> Some (Inl e)
      | Some (Inr (refs', x')) \<Rightarrow> collect_array fuel x' vs refs')"
| "collectDictRefElems fuel x [] refs = Some (Inr (refs, x))"
| "collectDictRefElems fuel x ((k, v) # d) refs =
     (case collect_obj fuel x v refs of
        None \<Rightarrow> None
      | Some (Inl e) \<Rightarrow> Some (Inl e)
      | Some (Inr (refs', x')) \<Rightarrow> collectDictRefElems fuel x' d refs')"
  by pat_completeness auto
termination
  by (relation "measures [
        (\<lambda>p. case p of Inl (n, _) \<Rightarrow> n | Inr (Inl (n, _)) \<Rightarrow> n | Inr (Inr (n, _)) \<Rightarrow> n),
        (\<lambda>p. case p of Inl (_, _, v, _) \<Rightarrow> size v | Inr (Inl (_, _, vs, _)) \<Rightarrow> size_list size vs
           | Inr (Inr (_, _, d, _)) \<Rightarrow> size_list (size_prod (\<lambda>_. 0) size) d)]")
     auto

declare collect_obj.simps [simp del] collect_array.simps [simp del] collectDictRefElems.simps [simp del]

text \<open>
  \<^verbatim>\<open>Flattener::fillObjectList\<close>; the objects are fetched from the table of the file, past the
  changes, of which a flattener has none.
\<close>

fun flat_fill ::
    "nat \<Rightarrow> cxref \<Rightarrow> ref list \<Rightarrow> (ref \<times> xobj) list \<Rightarrow> ((ref \<times> xobj) list \<times> cxref \<times> ref list) result" where
  "flat_fill maxCount x [] acc = Inr (acc, x, [])"
| "flat_fill maxCount x (ref # refs) acc =
     (if maxCount > 0 \<and> length acc \<ge> maxCount then Inr (acc, x, ref # refs)
      else if \<not> ok (snd (xref_fetch x ref)) then Inl MalformedFormatExeption
      else flat_fill maxCount (snd (xref_fetch x ref)) refs (acc @ [(ref, fst (xref_fetch x ref))]))"

definition flat_fillObjectList :: "(cxref \<times> ref list) filler" where
  "flat_fillObjectList maxCount st = flat_fill maxCount (fst st) (snd st) []"

text \<open>
  \<^verbatim>\<open>initReachableObjects\<close> and \<^verbatim>\<open>flatten\<close>.  The position \<^verbatim>\<open>lastIndex\<close> in the list of references is
  represented by the references from there on.
\<close>

definition initReachableObjects :: "nat \<Rightarrow> cxref \<Rightarrow> ((ref list \<times> cxref) result) option" where
  "initReachableObjects fuel x = collect_obj fuel x (XDict (getTrailerDict x)) []"

definition flatten ::
    "nat \<Rightarrow> writer_env \<Rightarrow> registry \<Rightarrow> cxref \<Rightarrow> string \<Rightarrow> pdf_writer option \<Rightarrow> string option
     \<Rightarrow> ((int \<times> string) result) option" where
  "flatten fuel env reg x version w out =
     (case initReachableObjects fuel x of
        None \<Rightarrow> None
      | Some (Inl e) \<Rightarrow> Some (Inl e)
      | Some (Inr (refs, x1)) \<Rightarrow>
          writeDocument fuel flat_fillObjectList env reg x1 version (x1, refs) w out)"

section \<open>The contract of the batches\<close>

text \<open>
  \<^verbatim>\<open>writeDocument\<close> relies on \<^verbatim>\<open>fillObjectList\<close> to hand out, batch by batch, some fixed list of
  objects; \<open>pending\<close> is what is left of it.
\<close>

locale object_filler =
  fixes fill :: "'f filler" and pending :: "'f \<Rightarrow> (ref \<times> xobj) list" and valid :: "'f \<Rightarrow> bool"
  assumes fill_valid: "valid st \<Longrightarrow> fill n st = Inr (objs, st') \<Longrightarrow> valid st'"
    and fill_pending: "valid st \<Longrightarrow> 0 < n \<Longrightarrow> fill n st = Inr (objs, st') \<Longrightarrow> pending st = objs @ pending st'"
    and fill_end: "valid st \<Longrightarrow> 0 < n \<Longrightarrow> fill n st = Inr ([], st') \<Longrightarrow> pending st = []"
begin

lemma write_batches_returns:
  "valid st \<Longrightarrow> length (pending st) < fuel \<Longrightarrow> write_batches fuel fill env reg st w s \<noteq> None"
proof (induction fuel arbitrary: st w s)
  case (Suc fuel)
  show ?case
  proof (cases "fill writeBatchCount st")
    case (Inr r)
    obtain objs st' where r: "r = (objs, st')" by force
    have pos: "0 < writeBatchCount" by (simp add: writeBatchCount_def)
    show ?thesis
    proof (cases "objs = []")
      case False
      have "length (pending st') < fuel" "valid st'"
        using fill_pending [OF Suc.prems(1) pos] fill_valid [OF Suc.prems(1)] Inr r Suc.prems(2) False
        by (auto simp: neq_Nil_conv)
      with Suc.IH show ?thesis
        using Inr r by (simp split: sum.split prod.split)
    qed (use Inr r in simp)
  qed simp
qed simp

end

lemma write_entries_new:
  "write_entries env reg n i objs w s = Inr (w', s') \<Longrightarrow> storage_get (offTable w) ref = None \<Longrightarrow>
   map_of (live objs) ref = None \<Longrightarrow> storage_get (offTable w') ref = None"
proof (induction env reg n i objs w s rule: write_entries.induct)
  case (2 env reg n i r obj objs w s)
  show ?case
  proof (cases "obj = None \<or> storage_contains (offTable w) r")
    case True
    with 2 show ?thesis by (cases obj) (auto split: if_splits)
  next
    case False
    then obtain y where obj: "obj = Some y" and nc: "\<not> storage_contains (offTable w) r" by auto
    from obj nc "2.prems"(1) obtain s1 where s1: "writeObject env reg y s (Some r) True = Inr s1"
      and rest: "write_entries env reg n (Suc i) objs
        (notify_step (record_object w r (spos s)) CONTENT n i) s1 = Inr (w', s')"
      by (auto simp: rbind_Inr_iff)
    with "2.IH"(3) [OF obj nc s1 rest] "2.prems"(2,3) obj show ?thesis
      by (auto split: if_splits)
  qed
qed simp

text \<open>What one batch after another leaves: offsets and bytes stay, the inventory is kept.\<close>

lemma write_batches_frame:
  "write_batches fuel fill env reg st w s = Some (Inr (st', w', s')) \<Longrightarrow> at_end s \<Longrightarrow> writer_inv w \<Longrightarrow>
   at_end s' \<and> (\<exists>t. sdata s' = sdata s @ t) \<and> writer_inv w'
   \<and> (\<forall>r p. storage_get (offTable w) r = Some p \<longrightarrow> storage_get (offTable w') r = Some p)"
proof (induction fuel arbitrary: st w s)
  case (Suc fuel)
  from Suc.prems obtain objs st1 where f: "fill writeBatchCount st = Inr (objs, st1)"
    by (auto split: sum.splits)
  show ?case
  proof (cases "objs = []")
    case True
    with f Suc.prems show ?thesis by auto
  next
    case False
    with f Suc.prems obtain w1 s1 where
      c: "writeContent env reg (map (\<lambda>(r, x). (r, Some x)) objs) w s 0 = Inr (w1, s1)"
      and b: "write_batches fuel fill env reg st1 w1 s1 = Some (Inr (st', w', s'))"
      by (auto split: sum.splits)
    from c have e: "write_entries env reg (length objs) 0 (map (\<lambda>(r, x). (r, Some x)) objs) w s = Inr (w1, s1)"
      by (simp add: writeContent_def)
    obtain t1 where 1: "at_end s1" "sdata s1 = sdata s @ t1" "writer_inv w1"
      "\<And>r p. storage_get (offTable w) r = Some p \<Longrightarrow> storage_get (offTable w1) r = Some p"
      using write_entries_frame [OF e Suc.prems(2)] writer_inv_entries [OF Suc.prems(3) e] by auto
    with Suc.IH [OF b 1(1,3)] show ?thesis by fastforce
  qed
qed simp

text \<open>The bytes of an object stand at its offset.\<close>

definition stored_at :: "pdf_writer \<Rightarrow> string \<Rightarrow> ref \<Rightarrow> string \<Rightarrow> bool" where
  "stored_at w bytes ref line \<longleftrightarrow>
     (\<exists>p. storage_get (offTable w) ref = Some p \<and> take (length line + 1) (drop p bytes) = line @ newline)"

lemma stored_at_mono:
  assumes "stored_at w bytes ref line"
    and "\<And>r p. storage_get (offTable w) r = Some p \<Longrightarrow> storage_get (offTable w') r = Some p"
  shows "stored_at w' (bytes @ t) ref line"
proof -
  from assms(1) obtain p where p: "storage_get (offTable w) ref = Some p"
    and b: "take (length line + 1) (drop p bytes) = line @ newline"
    by (auto simp: stored_at_def)
  from b have "length line + 1 \<le> length (drop p bytes)"
    by (metis add.commute length_append length_newline length_take min.cobounded1)
  with b have "take (length line + 1) (drop p (bytes @ t)) = line @ newline" by simp
  with assms(2) [OF p] show ?thesis by (auto simp: stored_at_def)
qed

context object_filler
begin

lemma write_batches_stored:
  "write_batches fuel fill env reg st w s = Some (Inr (st', w', s')) \<Longrightarrow> at_end s \<Longrightarrow> writer_inv w \<Longrightarrow>
   valid st \<Longrightarrow> map_of (pending st) ref = Some x \<Longrightarrow> storage_get (offTable w) ref = None \<or> stored_at w (sdata s) ref line \<Longrightarrow>
   object_line env reg x (Some ref) True = Inr (Some line) \<Longrightarrow>
   stored_at w' (sdata s') ref line"
proof (induction fuel arbitrary: st w s)
  case (Suc fuel)
  have pos: "0 < writeBatchCount" by (simp add: writeBatchCount_def)
  from Suc.prems obtain objs st1 where f: "fill writeBatchCount st = Inr (objs, st1)"
    by (auto split: sum.splits)
  have ne: "objs \<noteq> []"
    using fill_end [OF Suc.prems(4) pos] f Suc.prems(5) by auto
  with f Suc.prems(1) obtain w1 s1 where
    c: "writeContent env reg (map (\<lambda>(r, x). (r, Some x)) objs) w s 0 = Inr (w1, s1)"
    and b: "write_batches fuel fill env reg st1 w1 s1 = Some (Inr (st', w', s'))"
    by (auto split: sum.splits)
  from c have e: "write_entries env reg (length objs) 0 (map (\<lambda>(r, x). (r, Some x)) objs) w s = Inr (w1, s1)"
    by (simp add: writeContent_def)
  obtain t1 where 1: "at_end s1" "sdata s1 = sdata s @ t1" "writer_inv w1"
    and keep: "\<And>r p. storage_get (offTable w) r = Some p \<Longrightarrow> storage_get (offTable w1) r = Some p"
    using write_entries_frame [OF e Suc.prems(2)] writer_inv_entries [OF Suc.prems(3) e] by auto
  obtain t2 where 2: "sdata s' = sdata s1 @ t2"
    and keep2: "\<And>r p. storage_get (offTable w1) r = Some p \<Longrightarrow> storage_get (offTable w') r = Some p"
    using write_batches_frame [OF b 1(1,3)] by auto
  have split: "pending st = objs @ pending st1" and v1: "valid st1"
    using fill_pending [OF Suc.prems(4) pos f] fill_valid [OF Suc.prems(4) f] by auto
  show ?case
  proof (cases "stored_at w (sdata s) ref line")
    case True
    then have "stored_at w1 (sdata s1) ref line" unfolding 1(2) by (rule stored_at_mono) (rule keep)
    then show ?thesis unfolding 2 by (rule stored_at_mono) (rule keep2)
  next
    case False
    with Suc.prems(6) have none: "storage_get (offTable w) ref = None" by simp
    show ?thesis
    proof (cases "map_of objs ref")
      case None
      have "storage_get (offTable w1) ref = None"
        using write_entries_new [OF e none] None by simp
      with Suc.IH [OF b 1(1,3) v1 _ _ Suc.prems(7)] Suc.prems(5) None split show ?thesis
        by (simp add: map_add_def)
    next
      case (Some y)
      with Suc.prems(5) split have "y = x" by (simp add: map_add_Some_iff)
      with Some have "stored_at w1 (sdata s1) ref line"
        using write_entries_objects [OF e Suc.prems(2) _ none Suc.prems(7)]
        by (simp add: stored_at_def)
      then show ?thesis unfolding 2 by (rule stored_at_mono) (rule keep2)
    qed
  qed
qed simp

end

section \<open>The two fillers\<close>

lemma fst_xref_fetch_ok: "fst (xref_fetch (x\<lparr>ok := b\<rparr>) r) = fst (xref_fetch x r)"
  by (auto simp: xref_fetch_def Let_def split: entry_type.split option.split)

lemma xref_fetch_ok_irrelevant: "fst (xref_fetch (snd (xref_fetch x r)) r') = fst (xref_fetch x r')"
  by (metis fst_xref_fetch_ok prod.collapse xref_fetch_frame)

definition delin_copied :: "ref \<Rightarrow> cxref \<Rightarrow> nat \<Rightarrow> bool" where
  "delin_copied linRef x i \<longleftrightarrow>
     (let e = entries (tab x) ! i in used_entry e \<and> entry_ref i e \<noteq> linRef)"

definition delin_pending :: "ref \<Rightarrow> cxref \<times> nat \<Rightarrow> (ref \<times> xobj) list" where
  "delin_pending linRef st =
     (case st of (x, n) \<Rightarrow>
        map (\<lambda>i. let r = entry_ref i (entries (tab x) ! i) in (r, fst (xref_fetch x r)))
          (filter (delin_copied linRef x) [n..<length (entries (tab x))]))"

lemma delin_pending_step:
  "n < length (entries (tab x)) \<Longrightarrow> delin_pending linRef (x, n) =
     (if delin_copied linRef x n
      then [(entry_ref n (entries (tab x) ! n), fst (xref_fetch x (entry_ref n (entries (tab x) ! n))))]
      else []) @ delin_pending linRef (x, Suc n)"
  by (simp add: delin_pending_def upt_rec [of n] Let_def)

lemma delin_pending_frame:
  "delin_pending linRef (snd (xref_fetch x r), n) = delin_pending linRef (x, n)"
  by (simp add: delin_pending_def xref_fetch_ok_irrelevant delin_copied_def [abs_def])

lemma delin_fill_skip:
  assumes "n < length (entries (tab x))" "\<not> (0 < m \<and> m \<le> length acc)" "\<not> delin_copied linRef x n"
  shows "delin_fill linRef m x n acc = delin_fill linRef m x (Suc n) acc"
proof -
  have "entry_type (entries (tab x) ! n) = xrefEntryFree \<or> entry_ref n (entries (tab x) ! n) = linRef"
    using assms(3) by (auto simp: delin_copied_def used_entry_def Let_def)
  then show ?thesis
    using assms(1,2) by (subst delin_fill.simps) (auto simp: Let_def)
qed

lemma delin_fill_spec:
  "delin_fill linRef m x n acc = Inr (acc', x', n') \<Longrightarrow>
   acc' @ delin_pending linRef (x', n') = acc @ delin_pending linRef (x, n)
   \<and> (0 < m \<longrightarrow> acc' = [] \<longrightarrow> delin_pending linRef (x', n') = [])"
proof (induction linRef m x n acc rule: delin_fill.induct)
  case (1 linRef m x n acc)
  let ?e = "entries (tab x) ! n"
  let ?r = "entry_ref n ?e"
  show ?case
  proof (cases "n < length (entries (tab x))")
    case False
    with "1.prems" show ?thesis
      by (subst (asm) delin_fill.simps) (simp add: delin_pending_def)
  next
    case True
    show ?thesis
    proof (cases "0 < m \<and> m \<le> length acc")
      case full: True
      with True "1.prems" show ?thesis by (subst (asm) delin_fill.simps) auto
    next
      case room: False
      show ?thesis
      proof (cases "delin_copied linRef x n")
        case skip: False
        then have "delin_fill linRef m x (Suc n) acc = Inr (acc', x', n')"
          using "1.prems" delin_fill_skip [OF True room skip] by simp
        moreover have "entry_type ?e = xrefEntryFree \<or> entry_type ?e \<noteq> xrefEntryFree \<and> ?r = linRef"
          using skip by (auto simp: delin_copied_def used_entry_def Let_def)
        ultimately have "acc' @ delin_pending linRef (x', n') = acc @ delin_pending linRef (x, Suc n)
            \<and> (0 < m \<longrightarrow> acc' = [] \<longrightarrow> delin_pending linRef (x', n') = [])"
          using "1.IH"(1,2) [OF True room refl refl] by blast
        with skip True show ?thesis by (simp add: delin_pending_step)
      next
        case take: True
        then have used: "entry_type ?e \<noteq> xrefEntryFree" "?r \<noteq> linRef"
          by (simp_all add: delin_copied_def used_entry_def Let_def)
        with True room "1.prems" have okx: "ok (snd (xref_fetch x ?r))"
          and rest: "delin_fill linRef m (snd (xref_fetch x ?r)) (Suc n) (acc @ [(?r, fst (xref_fetch x ?r))]) = Inr (acc', x', n')"
          by (subst (asm) delin_fill.simps; auto simp: Let_def split: if_splits)+
        from room have "\<not> (0 < m \<and> m \<le> length acc)" .
        from "1.IH"(3) [OF True this refl refl used _ rest] okx show ?thesis
          using take True by (simp add: delin_pending_step delin_pending_frame)
      qed
    qed
  qed
qed

interpretation delin: object_filler "delin_fillObjectList linRef" "delin_pending linRef" "\<lambda>_. True"
proof
  fix n st objs st'
  assume "delin_fillObjectList linRef n st = Inr (objs, st')"
  then have f: "delin_fill linRef n (fst st) (snd st) [] = Inr (objs, fst st', snd st')"
    by (simp add: delin_fillObjectList_def)
  show "delin_pending linRef st = objs @ delin_pending linRef st'"
    using delin_fill_spec [OF f] by simp
next
  fix n st st'
  assume "0 < n" "delin_fillObjectList linRef n st = Inr ([], st')"
  then have "delin_fill linRef n (fst st) (snd st) [] = Inr ([], fst st', snd st')"
    by (simp add: delin_fillObjectList_def)
  from delin_fill_spec [OF this] \<open>0 < n\<close> show "delin_pending linRef st = []" by auto
qed simp

definition flat_pending :: "cxref \<times> ref list \<Rightarrow> (ref \<times> xobj) list" where
  "flat_pending st = map (\<lambda>r. (r, fst (xref_fetch (fst st) r))) (snd st)"

lemma flat_fill_spec:
  "flat_fill m x refs acc = Inr (acc', x', refs') \<Longrightarrow>
   acc' @ flat_pending (x', refs') = acc @ flat_pending (x, refs)
   \<and> (0 < m \<longrightarrow> acc' = [] \<longrightarrow> refs' = [])"
proof (induction m x refs acc rule: flat_fill.induct)
  case (2 m x ref refs acc)
  then show ?case
    by (auto simp: flat_pending_def xref_fetch_ok_irrelevant split: if_splits)
qed simp

interpretation flat: object_filler flat_fillObjectList flat_pending "\<lambda>_. True"
proof
  fix n st objs st'
  assume "flat_fillObjectList n st = Inr (objs, st')"
  then have f: "flat_fill n (fst st) (snd st) [] = Inr (objs, fst st', snd st')"
    by (simp add: flat_fillObjectList_def)
  show "flat_pending st = objs @ flat_pending st'"
    using flat_fill_spec [OF f] by simp
next
  fix n st st'
  assume "0 < n" "flat_fillObjectList n st = Inr ([], st')"
  then have "flat_fill n (fst st) (snd st) [] = Inr ([], fst st', snd st')"
    by (simp add: flat_fillObjectList_def)
  from flat_fill_spec [OF this] \<open>0 < n\<close> show "flat_pending st = []" by (auto simp: flat_pending_def)
qed simp

section \<open>Whole documents\<close>

lemma writeHeader_new: "at_end (writeHeader version (new_stream ''''))"
  "sdata (writeHeader version (new_stream '''')) = lines_bytes (header_lines version)"
  "sstart (writeHeader version (new_stream '''')) = 0"
  "\<not> slimited (writeHeader version (new_stream ''''))"
proof -
  have eq: "writeHeader version (new_stream '''') = putLines (new_stream '''') (header_lines version)"
    by (simp add: writeHeader_def stream_reset_def setPos_def new_stream_def putLines_def)
  show "sdata (writeHeader version (new_stream '''')) = lines_bytes (header_lines version)"
    "sstart (writeHeader version (new_stream '''')) = 0" "\<not> slimited (writeHeader version (new_stream ''''))"
    unfolding eq by (simp_all add: putLines_sdata new_stream_def write_at_def)
  show "at_end (writeHeader version (new_stream ''''))"
    unfolding eq by (simp add: at_end_def putLines_spos putLines_sdata new_stream_def write_at_def)
qed

lemma writeObject_fields:
  "writeObject env reg y s ref ind = Inr s' \<Longrightarrow> sstart s' = sstart s \<and> slimited s' = slimited s"
  by (auto simp: writeObject_def rbind_Inr_iff putLine_def Let_def split: option.splits)

lemma write_entries_fields:
  "write_entries env reg n i objs w s = Inr (w', s') \<Longrightarrow> sstart s' = sstart s \<and> slimited s' = slimited s"
proof (induction env reg n i objs w s rule: write_entries.induct)
  case (2 env reg n i r obj objs w s)
  show ?case
  proof (cases "obj = None \<or> storage_contains (offTable w) r")
    case True
    with 2 show ?thesis by (cases obj) auto
  next
    case False
    then obtain y where obj: "obj = Some y" and nc: "\<not> storage_contains (offTable w) r" by auto
    from obj nc "2.prems"(1) obtain s1 where s1: "writeObject env reg y s (Some r) True = Inr s1"
      and rest: "write_entries env reg n (Suc i) objs
        (notify_step (record_object w r (spos s)) CONTENT n i) s1 = Inr (w', s')"
      by (auto simp: rbind_Inr_iff)
    with "2.IH"(3) [OF obj nc s1 rest] writeObject_fields [OF s1] show ?thesis by simp
  qed
qed simp

lemma write_batches_fields:
  "write_batches fuel fill env reg st w s = Some (Inr (st', w', s')) \<Longrightarrow>
   sstart s' = sstart s \<and> slimited s' = slimited s"
proof (induction fuel arbitrary: st w s)
  case (Suc fuel)
  from Suc.prems obtain objs st1 where f: "fill writeBatchCount st = Inr (objs, st1)"
    by (auto split: sum.splits)
  show ?case
  proof (cases "objs = []")
    case True
    with f Suc.prems show ?thesis by auto
  next
    case False
    with f Suc.prems obtain w1 s1 where
      c: "writeContent env reg (map (\<lambda>(r, x). (r, Some x)) objs) w s 0 = Inr (w1, s1)"
      and b: "write_batches fuel fill env reg st1 w1 s1 = Some (Inr (st', w', s'))"
      by (auto split: sum.splits)
    with Suc.IH [OF b] write_entries_fields [of env reg] show ?thesis
      by (fastforce simp: writeContent_def)
  qed
qed simp

context object_filler
begin

lemma writeDocument_stored:
  assumes run: "writeDocument fuel fill env reg x version st (Some new_writer) (Some '''') = Some (Inr (0, bytes))"
    and "valid st"
  shows "\<exists>w body tbody. bytes = body @ (if offTable w = [] then [] else lines_bytes (trailer_lines w (length body) tbody))
     \<and> (\<forall>ref y line. map_of (pending st) ref = Some y \<longrightarrow>
          object_line env reg y (Some ref) True = Inr (Some line) \<longrightarrow> stored_at w body ref line)"
proof -
  let ?s0 = "writeHeader version (new_stream '''')"
  from run obtain st' w' s' where b: "write_batches fuel fill env reg st new_writer ?s0 = Some (Inr (st', w', s'))"
    and t: "rbind (writeTrailer env reg (getTrailerDict x) no_prev w' s' 0) (\<lambda>(w'', t, s'', pos). Inr (0 :: int, sdata s''))
        = Inr (0, bytes)"
    by (auto simp: writeDocument_def EINVAL_def EPERM_def split: if_splits option.splits sum.splits)
  from t obtain w'' tr s'' pos where tr: "writeTrailer env reg (getTrailerDict x) no_prev w' s' 0 = Inr (w'', tr, s'', pos)"
    and bytes: "bytes = sdata s''"
    by (auto simp: rbind_Inr_iff)
  have fr: "at_end s'" using write_batches_frame [OF b writeHeader_new(1) writer_inv_new] by blast
  have fields: "sstart s' = 0 \<and> \<not> slimited s'"
    using write_batches_fields [OF b] by (simp add: writeHeader_new)
  have none: "storage_get (offTable new_writer) ref = None" for ref
    by (simp add: new_writer_def storage_empty_def)
  have st: "\<forall>ref y line. map_of (pending st) ref = Some y \<longrightarrow>
      object_line env reg y (Some ref) True = Inr (Some line) \<longrightarrow> stored_at w' (sdata s') ref line"
    using write_batches_stored [OF b writeHeader_new(1) writer_inv_new assms(2)] none by blast
  show ?thesis
  proof (cases "offTable w' = []")
    case True
    then have "s'' = s'" using tr by (simp add: writeTrailer_def storage_size_def)
    with True st bytes show ?thesis by (intro exI [of _ w'] exI [of _ "sdata s'"]) simp
  next
    case False
    from writeTrailer_spec [OF tr False] fr fields obtain tbody where
      "sdata s'' = take (spos s') (sdata s') @ lines_bytes (trailer_lines w' (spos s') tbody)"
      by (auto simp: at_end_def)
    with False st bytes fr show ?thesis
      by (intro exI [of _ w'] exI [of _ "sdata s'"] exI [of _ tbody]) (simp add: at_end_def)
  qed
qed

lemma writeDocument_returns:
  assumes "valid st" "length (pending st) < fuel"
  shows "writeDocument fuel fill env reg x version st w out \<noteq> None"
proof (cases w; cases out)
  fix w0 bytes
  assume "w = Some w0" "out = Some bytes"
  moreover obtain y where "write_batches fuel fill env reg st w0 (writeHeader version (new_stream bytes)) = Some y"
    using write_batches_returns [OF assms] by blast
  ultimately show ?thesis by (auto simp: writeDocument_def split: sum.split prod.split)
qed (simp_all add: writeDocument_def)

end

lemma entry_ref_inj: "entry_ref i e = entry_ref j e' \<Longrightarrow> i = j"
  by (simp add: entry_ref_def)

lemma map_of_delin_pending:
  assumes "i < length (entries (tab x))" "delin_copied linRef x i"
  defines "r \<equiv> entry_ref i (entries (tab x) ! i)"
  shows "map_of (delin_pending linRef (x, 0)) r = Some (fst (xref_fetch x r))"
proof -
  have "distinct (map fst (delin_pending linRef (x, 0)))"
    by (auto simp: delin_pending_def Let_def distinct_map inj_on_def dest: entry_ref_inj)
  moreover have "(r, fst (xref_fetch x r)) \<in> set (delin_pending linRef (x, 0))"
    using assms by (auto simp: delin_pending_def Let_def)
  ultimately show ?thesis by simp
qed

text \<open>
  Claim C26: a delinearized document contains every used object of the original but the
  linearization dictionary, complete and at the offset its cross reference table gives, and the
  table comes right behind the objects.
\<close>

theorem delinearize_complete:
  assumes "delinearize fuel linRef env reg x version (Some new_writer) (Some '''') = Some (Inr (0, bytes))"
  shows "\<exists>w body tbody.
      bytes = body @ (if offTable w = [] then [] else lines_bytes (trailer_lines w (length body) tbody))
    \<and> (\<forall>i<length (entries (tab x)). \<forall>line. delin_copied linRef x i \<longrightarrow>
         object_line env reg (fst (xref_fetch x (entry_ref i (entries (tab x) ! i))))
           (Some (entry_ref i (entries (tab x) ! i))) True = Inr (Some line) \<longrightarrow>
         stored_at w body (entry_ref i (entries (tab x) ! i)) line)"
proof -
  from assms delin.writeDocument_stored [of fuel linRef env reg x version "(x, 0)" bytes]
  obtain w body tbody where
    "bytes = body @ (if offTable w = [] then [] else lines_bytes (trailer_lines w (length body) tbody))"
    and st: "\<And>ref y line. map_of (delin_pending linRef (x, 0)) ref = Some y \<Longrightarrow>
      object_line env reg y (Some ref) True = Inr (Some line) \<Longrightarrow> stored_at w body ref line"
    unfolding delinearize_def by blast
  moreover have "\<forall>i<length (entries (tab x)). \<forall>line. delin_copied linRef x i \<longrightarrow>
         object_line env reg (fst (xref_fetch x (entry_ref i (entries (tab x) ! i))))
           (Some (entry_ref i (entries (tab x) ! i))) True = Inr (Some line) \<longrightarrow>
         stored_at w body (entry_ref i (entries (tab x) ! i)) line"
    using st map_of_delin_pending by blast
  ultimately show ?thesis by blast
qed

text \<open>Delinearization ends: one unit of fuel more than the table has entries is enough.\<close>

theorem delinearize_returns:
  assumes "length (entries (tab x)) < fuel"
  shows "delinearize fuel linRef env reg x version w out \<noteq> None"
proof -
  have "length (delin_pending linRef (x, 0)) \<le> length (entries (tab x))"
    using length_filter_le [of "delin_copied linRef x" "[0..<length (entries (tab x))]"]
    by (simp add: delin_pending_def)
  with assms show ?thesis
    unfolding delinearize_def by (intro delin.writeDocument_returns) simp_all
qed

theorem delinearize_returns_witness:
  "delinearize 6 (Ref 1 0) toy_env no_filters sample_cxref ''1.4'' None None \<noteq> None"
  by (rule delinearize_returns) (simp add: sample_cxref_def sample_tab_def)

section \<open>Reachable objects\<close>

fun refs_in :: "xobj \<Rightarrow> ref set" and refs_in_list :: "xobj list \<Rightarrow> ref set" and refs_in_dict :: "dict \<Rightarrow> ref set" where
  "refs_in (XArray xs) = refs_in_list xs"
| "refs_in (XDict d) = refs_in_dict d"
| "refs_in (XStream d s) = refs_in_dict d"
| "refs_in (XRefObj r) = {r}"
| "refs_in _ = {}"
| "refs_in_list [] = {}"
| "refs_in_list (v # vs) = refs_in v \<union> refs_in_list vs"
| "refs_in_dict [] = {}"
| "refs_in_dict ((k, v) # d) = refs_in v \<union> refs_in_dict d"

definition ref_target :: "cxref \<Rightarrow> ref \<Rightarrow> xobj" where
  "ref_target x r = (case fst (cxref_fetch deep_copy x r) of Inl e \<Rightarrow> XNull | Inr v \<Rightarrow> v)"

definition ref_edges :: "cxref \<Rightarrow> (ref \<times> ref) set" where
  "ref_edges x = {(r, r'). r' \<in> refs_in (ref_target x r)}"

definition reachable_refs :: "cxref \<Rightarrow> xobj \<Rightarrow> ref set" where
  "reachable_refs x obj = (ref_edges x)\<^sup>* `` refs_in obj"

lemma cxref_fetch_same:
  "ok x \<Longrightarrow> cxref_fetch deep_copy x r = (Inr v, x') \<Longrightarrow> x' = x \<and> v = ref_target x r"
  using cxref_fetch_state [of x r v x'] by (simp add: ref_target_def)

text \<open>
  What a visit of an object with the references \<open>R\<close> adds to the list: all of \<open>R\<close>, nothing that is
  not reachable from them, and with each new reference those of its target.
\<close>

definition visited :: "cxref \<Rightarrow> ref list \<Rightarrow> ref list \<Rightarrow> ref set \<Rightarrow> bool" where
  "visited x refs refs' R \<longleftrightarrow>
     (\<exists>new. refs' = refs @ new \<and> R \<subseteq> set refs' \<and> set new \<subseteq> (ref_edges x)\<^sup>* `` R \<and>
        (distinct refs \<longrightarrow> distinct refs') \<and>
        (\<forall>r\<in>set new. refs_in (ref_target x r) \<subseteq> set refs'))"

lemma visited_empty: "visited x refs refs {}"
  by (simp add: visited_def)

lemma visited_trans:
  assumes "visited x refs refs1 R1" "visited x refs1 refs2 R2"
  shows "visited x refs refs2 (R1 \<union> R2)"
proof -
  obtain new1 where n1: "refs1 = refs @ new1" "R1 \<subseteq> set refs1" "set new1 \<subseteq> (ref_edges x)\<^sup>* `` R1"
    "distinct refs \<longrightarrow> distinct refs1" "\<forall>r\<in>set new1. refs_in (ref_target x r) \<subseteq> set refs1"
    using assms(1) unfolding visited_def by blast
  obtain new2 where n2: "refs2 = refs1 @ new2" "R2 \<subseteq> set refs2" "set new2 \<subseteq> (ref_edges x)\<^sup>* `` R2"
    "distinct refs1 \<longrightarrow> distinct refs2" "\<forall>r\<in>set new2. refs_in (ref_target x r) \<subseteq> set refs2"
    using assms(2) unfolding visited_def by blast
  have mono: "set refs1 \<subseteq> set refs2" by (simp add: n2(1))
  show ?thesis
    unfolding visited_def
  proof (intro exI [of _ "new1 @ new2"] conjI)
    show "refs2 = refs @ new1 @ new2" by (simp add: n1(1) n2(1))
    show "R1 \<union> R2 \<subseteq> set refs2" using n1(2) n2(2) mono by blast
    show "set (new1 @ new2) \<subseteq> (ref_edges x)\<^sup>* `` (R1 \<union> R2)" using n1(3) n2(3) by (simp add: Image_Un le_supI1 le_supI2)
    show "distinct refs \<longrightarrow> distinct refs2" using n1(4) n2(4) by blast
    show "\<forall>r\<in>set (new1 @ new2). refs_in (ref_target x r) \<subseteq> set refs2"
      using n1(5) n2(5) mono by (metis UnE set_append subset_trans)
  qed
qed

lemma visited_ref:
  assumes "r \<notin> set refs" "visited x (refs @ [r]) refs' (refs_in (ref_target x r))"
  shows "visited x refs refs' {r}"
proof -
  obtain new where n: "refs' = (refs @ [r]) @ new" "refs_in (ref_target x r) \<subseteq> set refs'"
    "set new \<subseteq> (ref_edges x)\<^sup>* `` refs_in (ref_target x r)"
    "distinct (refs @ [r]) \<longrightarrow> distinct refs'" "\<forall>q\<in>set new. refs_in (ref_target x q) \<subseteq> set refs'"
    using assms(2) unfolding visited_def by blast
  have "(r, q) \<in> (ref_edges x)\<^sup>*" if "q \<in> set new" for q
  proof -
    from n(3) that obtain q0 where "q0 \<in> refs_in (ref_target x r)" "(q0, q) \<in> (ref_edges x)\<^sup>*" by auto
    then show ?thesis by (intro converse_rtrancl_into_rtrancl [of r q0]) (simp_all add: ref_edges_def)
  qed
  then show ?thesis
    unfolding visited_def using n(1,2,4,5) assms(1)
    by (intro exI [of _ "r # new"] conjI) (auto simp: n(1))
qed

lemma collect_visits:
  "ok x \<Longrightarrow> collect_obj fuel x obj refs = Some (Inr (refs', x')) \<Longrightarrow> x' = x \<and> visited x refs refs' (refs_in obj)"
  "ok x \<Longrightarrow> collect_array fuel x vs refs = Some (Inr (refs', x')) \<Longrightarrow> x' = x \<and> visited x refs refs' (refs_in_list vs)"
  "ok x \<Longrightarrow> collectDictRefElems fuel x d refs = Some (Inr (refs', x')) \<Longrightarrow> x' = x \<and> visited x refs refs' (refs_in_dict d)"
proof (induction fuel x obj refs and fuel x vs refs and fuel x d refs
    arbitrary: refs' x' and refs' x' and refs' x' rule: collect_obj_collect_array_collectDictRefElems.induct)
  case (4 fuel x r refs)
  show ?case
  proof (cases "r \<in> set refs")
    case True
    with 4 show ?thesis by (simp add: collect_obj.simps visited_def)
  next
    case False
    with "4.prems"(2) obtain n v x1 where n: "fuel = Suc n" and f: "cxref_fetch deep_copy x r = (Inr v, x1)"
      and c: "collect_obj n x1 v (refs @ [r]) = Some (Inr (refs', x'))"
      by (auto simp: collect_obj.simps split: nat.splits prod.splits sum.splits)
    have same: "x1 = x" "v = ref_target x r" using cxref_fetch_same [OF "4.prems"(1) f] by auto
    from "4.IH" [OF False n f [symmetric] refl] c "4.prems"(1) same
    have "x' = x \<and> visited x (refs @ [r]) refs' (refs_in (ref_target x r))" by simp
    with visited_ref [OF False] show ?thesis by simp
  qed
next
  case (7 fuel x v vs refs)
  from "7.prems"(2) obtain refs1 x1 where c1: "collect_obj fuel x v refs = Some (Inr (refs1, x1))"
    and c2: "collect_array fuel x1 vs refs1 = Some (Inr (refs', x'))"
    by (auto simp: collect_array.simps split: option.splits sum.splits prod.splits)
  from "7.IH"(1) [OF "7.prems"(1) c1] have 1: "x1 = x" "visited x refs refs1 (refs_in v)" by auto
  from "7.IH"(2) [OF c1 refl refl] c2 1(1) "7.prems"(1)
  have "x' = x \<and> visited x refs1 refs' (refs_in_list vs)" by simp
  with visited_trans [OF 1(2)] show ?case by simp
next
  case (9 fuel x k v d refs)
  from "9.prems"(2) obtain refs1 x1 where c1: "collect_obj fuel x v refs = Some (Inr (refs1, x1))"
    and c2: "collectDictRefElems fuel x1 d refs1 = Some (Inr (refs', x'))"
    by (auto simp: collectDictRefElems.simps split: option.splits sum.splits prod.splits)
  from "9.IH"(1) [OF "9.prems"(1) c1] have 1: "x1 = x" "visited x refs refs1 (refs_in v)" by auto
  from "9.IH"(2) [OF c1 refl refl] c2 1(1) "9.prems"(1)
  have "x' = x \<and> visited x refs1 refs' (refs_in_dict d)" by simp
  with visited_trans [OF 1(2)] show ?case by simp
qed (auto simp: collect_obj.simps collect_array.simps collectDictRefElems.simps visited_empty)

lemma collect_visits_all:
  assumes "ok x" and "initReachableObjects fuel x = Some (Inr (refs, x'))"
  shows "set refs = reachable_refs x (XDict (getTrailerDict x)) \<and> distinct refs \<and> x' = x"
proof -
  let ?R = "refs_in (XDict (getTrailerDict x))"
  have run: "collect_obj fuel x (XDict (getTrailerDict x)) [] = Some (Inr (refs, x'))"
    using assms(2) by (simp add: initReachableObjects_def)
  from collect_visits(1) [OF assms(1) run] have x: "x' = x" and v: "visited x [] refs ?R" by auto
  then have sub: "?R \<subseteq> set refs" "set refs \<subseteq> (ref_edges x)\<^sup>* `` ?R" "distinct refs"
    and closed: "\<forall>r\<in>set refs. refs_in (ref_target x r) \<subseteq> set refs"
    by (auto simp: visited_def)
  have "q \<in> set refs" if "(r, q) \<in> (ref_edges x)\<^sup>*" "r \<in> set refs" for r q
    using that by (induction rule: rtrancl_induct) (use closed in \<open>auto simp: ref_edges_def\<close>)
  with sub(1) have "(ref_edges x)\<^sup>* `` ?R \<subseteq> set refs" by auto
  with sub x show ?thesis by (auto simp: reachable_refs_def)
qed

text \<open>
  Claim C27: the flattener collects exactly the references that can be reached from the trailer, each
  one once, through arrays, dictionaries, stream dictionaries and the objects the references lead to,
  cycles included.
\<close>

theorem flattener_collects_reachable:
  assumes "ok x" and "initReachableObjects fuel x = Some (Inr (refs, x'))"
  shows "set refs = reachable_refs x (XDict (getTrailerDict x)) \<and> distinct refs \<and> x' = x"
  using collect_visits_all [OF assms] .

lemma sample_fill:
  "delin_fillObjectList (Ref 1 0) writeBatchCount (sample_cxref, 0) = Inr ([(Ref 3 0, XInt 7)], sample_cxref, 5)"
  "delin_fillObjectList (Ref 1 0) writeBatchCount (sample_cxref, 5) = Inr ([], sample_cxref, 5)"
  by (simp_all add: delin_fillObjectList_def delin_fill.simps writeBatchCount_def sample_cxref_def
      sample_tab_def entry_ref_def xref_fetch_def Let_def)

definition sample_line :: string where
  "sample_line = ''3 0 obj '' @ newline @ ''7'' @ newline @ ''endobj''"

lemma sample_object_line: "object_line toy_env no_filters (XInt 7) (Some (Ref 3 0)) True = Inr (Some sample_line)"
  by code_simp

lemma sample_batches:
  "write_batches 6 (delin_fillObjectList (Ref 1 0)) toy_env no_filters (sample_cxref, 0) new_writer s
     = Some (Inr ((sample_cxref, 5), notify_step (record_object new_writer (Ref 3 0) (spos s)) CONTENT 1 0,
         putLine s sample_line))"
proof -
  have c: "writeContent toy_env no_filters [(Ref 3 0, Some (XInt 7))] new_writer s 0
      = Inr (notify_step (record_object new_writer (Ref 3 0) (spos s)) CONTENT 1 0, putLine s sample_line)"
    by (simp add: writeContent_def writeObject_def sample_object_line storage_contains_def new_writer_def storage_empty_def)
  have "write_batches (Suc (Suc n)) (delin_fillObjectList (Ref 1 0)) toy_env no_filters (sample_cxref, 0) new_writer s
     = Some (Inr ((sample_cxref, 5), notify_step (record_object new_writer (Ref 3 0) (spos s)) CONTENT 1 0,
         putLine s sample_line))" for n
    by (simp add: sample_fill c)
  moreover have "Suc (Suc 4) = 6" by simp
  ultimately show ?thesis by metis
qed

lemma sample_trailer_written:
  "\<exists>r. writeTrailer toy_env no_filters (getTrailerDict sample_cxref) no_prev
      (notify_step (record_object new_writer q p) CONTENT 1 0) s 0 = Inr r"
proof -
  let ?w = "notify_step (record_object new_writer q p) CONTENT 1 0"
  have "writeTrailer toy_env no_filters (getTrailerDict sample_cxref) no_prev ?w s 0 \<noteq> Inl e" for e
    by (simp add: writeTrailer_def storage_size_def Let_def writeObject_def object_line_def
        update_trailer_def no_prev_def sample_cxref_def sample_tab_def getTrailerDict_def dict_update_def
        dict_del_def dict_add_def stripXRefStreamFields_def dict_lookupNF_def new_writer_def storage_empty_def)
  then show ?thesis by (metis sum.exhaust)
qed

lemma delinearize_sample:
  "\<exists>bytes. delinearize 6 (Ref 1 0) toy_env no_filters sample_cxref ''1.4'' (Some new_writer) (Some '''') = Some (Inr (0, bytes))"
proof -
  let ?s = "writeHeader ''1.4'' (new_stream '''')"
  obtain w t s p where "writeTrailer toy_env no_filters (getTrailerDict sample_cxref) no_prev
      (notify_step (record_object new_writer (Ref 3 0) (spos ?s)) CONTENT 1 0) (putLine ?s sample_line) 0 = Inr (w, t, s, p)"
    using sample_trailer_written [of "Ref 3 0" "spos ?s" "putLine ?s sample_line"] by auto
  moreover have "needs_credentials sample_cxref = False" "encrypted sample_cxref = False"
    by (simp_all add: sample_cxref_def)
  ultimately show ?thesis
    by (simp add: delinearize_def writeDocument_def sample_batches)
qed

theorem delinearize_complete_witness:
  "\<exists>bytes w body. delinearize 6 (Ref 1 0) toy_env no_filters sample_cxref ''1.4'' (Some new_writer) (Some '''') = Some (Inr (0, bytes))
    \<and> take (length body) bytes = body
    \<and> stored_at w body (Ref 3 0) (''3 0 obj '' @ newline @ ''7'' @ newline @ ''endobj'')"
proof -
  obtain bytes where run: "delinearize 6 (Ref 1 0) toy_env no_filters sample_cxref ''1.4'' (Some new_writer) (Some '''') = Some (Inr (0, bytes))"
    using delinearize_sample by blast
  have r: "entry_ref 3 (entries (tab sample_cxref) ! 3) = Ref 3 0"
    and i: "3 < length (entries (tab sample_cxref))" "delin_copied (Ref 1 0) sample_cxref 3"
    and v: "fst (xref_fetch sample_cxref (Ref 3 0)) = XInt 7"
    by (simp_all add: sample_cxref_def sample_tab_def entry_ref_def delin_copied_def used_entry_def xref_fetch_def)
  from delinearize_complete [OF run] obtain w body tbody where
    b: "bytes = body @ (if offTable w = [] then [] else lines_bytes (trailer_lines w (length body) tbody))"
    and st: "\<forall>i<length (entries (tab sample_cxref)). \<forall>line. delin_copied (Ref 1 0) sample_cxref i \<longrightarrow>
         object_line toy_env no_filters (fst (xref_fetch sample_cxref (entry_ref i (entries (tab sample_cxref) ! i))))
           (Some (entry_ref i (entries (tab sample_cxref) ! i))) True = Inr (Some line) \<longrightarrow>
         stored_at w body (entry_ref i (entries (tab sample_cxref) ! i)) line"
    by blast
  from st [rule_format, OF i, of sample_line] have "stored_at w body (Ref 3 0) sample_line"
    unfolding r v by (simp add: sample_object_line)
  moreover have "take (length body) bytes = body" by (simp add: b)
  ultimately show ?thesis using run unfolding sample_line_def by blast
qed

section \<open>The flattener ends\<close>

text \<open>References that lead on: their targets contain references, so they are in the table or changed.\<close>

definition live_refs :: "cxref \<Rightarrow> ref set" where
  "live_refs x = {r. refs_in (ref_target x r) \<noteq> {}}"

definition known_refs :: "cxref \<Rightarrow> ref list" where
  "known_refs x = map (\<lambda>i. entry_ref i (entries (tab x) ! i)) [0..<length (entries (tab x))] @ map fst (changedStorage x)"

lemma xref_fetch_unknown:
  assumes "\<And>i. i < length (entries (tab x)) \<Longrightarrow> r \<noteq> entry_ref i (entries (tab x) ! i)"
  shows "fst (xref_fetch x r) = XNull"
proof (cases "ref_num r < 0 \<or> ref_num r \<ge> int (length (entries (tab x)))")
  case False
  then have n: "nat (ref_num r) < length (entries (tab x))" by (simp add: nat_less_iff)
  with assms [OF n] False show ?thesis
    by (cases r) (auto simp: xref_fetch_def Let_def entry_ref_def split: entry_type.split if_splits)
qed (auto simp: xref_fetch_def Let_def)

lemma live_refs_known: "live_refs x \<subseteq> set (known_refs x)"
proof
  fix r
  assume "r \<in> live_refs x"
  then have ne: "ref_target x r \<noteq> XNull" by (auto simp: live_refs_def)
  show "r \<in> set (known_refs x)"
  proof (rule ccontr)
    assume "r \<notin> set (known_refs x)"
    then have "storage_get (changedStorage x) r = None"
      and "fst (xref_fetch x r) = XNull"
      by (auto simp: known_refs_def storage_get_None_iff intro!: xref_fetch_unknown)
    with ne show False by (auto simp: ref_target_def fst_cxref_fetch deep_copy_def split: if_splits)
  qed
qed

lemma collect_no_refs:
  "refs_in obj = {} \<Longrightarrow> collect_obj fuel x obj refs \<noteq> None"
  "refs_in_list vs = {} \<Longrightarrow> collect_array fuel x vs refs \<noteq> None"
  "refs_in_dict d = {} \<Longrightarrow> collectDictRefElems fuel x d refs \<noteq> None"
  by (induction fuel x obj refs and fuel x vs refs and fuel x d refs
      rule: collect_obj_collect_array_collectDictRefElems.induct)
    (auto simp: collect_obj.simps collect_array.simps collectDictRefElems.simps split: option.split sum.split)

lemma card_live_mono:
  assumes "finite L" "set refs \<subseteq> set refs'"
  shows "card (L - set refs') \<le> card (L - set refs)"
  using assms by (intro card_mono) auto

lemma collect_returns:
  "ok x \<Longrightarrow> card (live_refs x - set refs) < fuel \<Longrightarrow> collect_obj fuel x obj refs \<noteq> None"
  "ok x \<Longrightarrow> card (live_refs x - set refs) < fuel \<Longrightarrow> collect_array fuel x vs refs \<noteq> None"
  "ok x \<Longrightarrow> card (live_refs x - set refs) < fuel \<Longrightarrow> collectDictRefElems fuel x d refs \<noteq> None"
proof (induction fuel x obj refs and fuel x vs refs and fuel x d refs
    rule: collect_obj_collect_array_collectDictRefElems.induct)
  case (4 fuel x r refs)
  have fin: "finite (live_refs x)" using live_refs_known by (rule finite_subset) simp
  show ?case
  proof (cases "r \<in> set refs")
    case False
    from "4.prems"(2) obtain n where n: "fuel = Suc n" by (cases fuel) auto
    show ?thesis
    proof (cases "cxref_fetch deep_copy x r")
      case (Pair res x1)
      show ?thesis
      proof (cases res)
        case (Inr v)
        have same: "x1 = x" "v = ref_target x r"
          using cxref_fetch_same [OF "4.prems"(1)] Pair Inr by auto
        have "collect_obj n x1 v (refs @ [r]) \<noteq> None"
        proof (cases "r \<in> live_refs x")
          case True
          then have "card (live_refs x - set (refs @ [r])) < card (live_refs x - set refs)"
            using False fin by (intro psubset_card_mono) auto
          then have "card (live_refs x1 - set (refs @ [r])) < n"
            using "4.prems"(2) n same by simp
          with "4.IH" [OF False n Pair [symmetric] Inr] "4.prems"(1) same show ?thesis by simp
        next
          case False
          then show ?thesis using same collect_no_refs(1) by (simp add: live_refs_def)
        qed
        with n Pair Inr False show ?thesis by (simp add: collect_obj.simps)
      qed (use n Pair False in \<open>simp add: collect_obj.simps\<close>)
    qed
  qed (simp add: collect_obj.simps)
next
  case (7 fuel x v vs refs)
  have fin: "finite (live_refs x)" using live_refs_known by (rule finite_subset) simp
  show ?case
  proof (cases "\<exists>refs1 x1. collect_obj fuel x v refs = Some (Inr (refs1, x1))")
    case True
    then obtain refs1 x1 where c1: "collect_obj fuel x v refs = Some (Inr (refs1, x1))" by blast
    from collect_visits(1) [OF "7.prems"(1) c1] have 1: "x1 = x" "set refs \<subseteq> set refs1" by (auto simp: visited_def)
    with card_live_mono [OF fin 1(2)] "7.IH"(2) [OF c1 refl refl] "7.prems" c1 show ?thesis
      by (simp add: collect_array.simps)
  next
    case False
    with "7.IH"(1) [OF "7.prems"] show ?thesis
      by (auto simp: collect_array.simps split: option.split sum.split)
  qed
next
  case (9 fuel x k v d refs)
  have fin: "finite (live_refs x)" using live_refs_known by (rule finite_subset) simp
  show ?case
  proof (cases "\<exists>refs1 x1. collect_obj fuel x v refs = Some (Inr (refs1, x1))")
    case True
    then obtain refs1 x1 where c1: "collect_obj fuel x v refs = Some (Inr (refs1, x1))" by blast
    from collect_visits(1) [OF "9.prems"(1) c1] have 1: "x1 = x" "set refs \<subseteq> set refs1" by (auto simp: visited_def)
    with card_live_mono [OF fin 1(2)] "9.IH"(2) [OF c1 refl refl] "9.prems" c1 show ?thesis
      by (simp add: collectDictRefElems.simps)
  next
    case False
    with "9.IH"(1) [OF "9.prems"] show ?thesis
      by (auto simp: collectDictRefElems.simps split: option.split sum.split)
  qed
qed (auto simp: collect_obj.simps collect_array.simps collectDictRefElems.simps)


lemma card_live_refs: "card (live_refs x - set refs) \<le> length (known_refs x)"
proof -
  have "card (live_refs x - set refs) \<le> card (set (known_refs x))"
    using live_refs_known by (intro card_mono) auto
  then show ?thesis using card_length [of "known_refs x"] by simp
qed

text \<open>
  Claim C28: collecting the references of a document ends, whatever cycles they make, with one unit of
  fuel more than there are entries and changed objects: only references to those lead on.
\<close>

theorem flattener_collection_returns:
  assumes "ok x" and "length (entries (tab x)) + length (changedStorage x) < fuel"
  shows "initReachableObjects fuel x \<noteq> None"
  unfolding initReachableObjects_def
  using collect_returns(1) [OF assms(1)] card_live_refs [of x "[]"] assms(2)
  by (simp add: known_refs_def)

text \<open>A catalog and a page that refer to each other, and an object nothing refers to.\<close>

definition cyclic_tab :: xref_tab where
  "cyclic_tab =
     \<lparr>entries = [\<lparr>entry_offset = 0, entry_gen = 65535, entry_type = xrefEntryFree\<rparr>,
                 \<lparr>entry_offset = 15, entry_gen = 0, entry_type = xrefEntryUncompressed\<rparr>,
                 \<lparr>entry_offset = 60, entry_gen = 0, entry_type = xrefEntryUncompressed\<rparr>,
                 \<lparr>entry_offset = 99, entry_gen = 0, entry_type = xrefEntryUncompressed\<rparr>],
      trailerDict = [(''Root'', XRefObj (Ref 1 0))],
      parsed = (\<lambda>n. if n = 1 then Some (XDict [(''Pages'', XArray [XRefObj (Ref 2 0)])])
                     else if n = 2 then Some (XDict [(''Parent'', XRefObj (Ref 1 0))])
                     else if n = 3 then Some (XInt 7) else None),
      maxObj = 3\<rparr>"

definition cyclic_cxref :: cxref where
  "cyclic_cxref = sample_cxref\<lparr>tab := cyclic_tab\<rparr>"

lemma cyclic_collect: "initReachableObjects 5 cyclic_cxref = Some (Inr ([Ref 1 0, Ref 2 0], cyclic_cxref))"
proof -
  have f: "cxref_fetch deep_copy cyclic_cxref (Ref 1 0) = (Inr (XDict [(''Pages'', XArray [XRefObj (Ref 2 0)])]), cyclic_cxref)"
    "cxref_fetch deep_copy cyclic_cxref (Ref 2 0) = (Inr (XDict [(''Parent'', XRefObj (Ref 1 0))]), cyclic_cxref)"
    by (simp_all add: cxref_fetch_def xref_fetch_def cyclic_cxref_def cyclic_tab_def sample_cxref_def deep_copy_def Let_def)
  have t: "getTrailerDict cyclic_cxref = [(''Root'', XRefObj (Ref 1 0))]"
    by (simp add: getTrailerDict_def cyclic_cxref_def cyclic_tab_def sample_cxref_def)
  have "collect_obj (Suc (Suc 3)) cyclic_cxref (XDict [(''Root'', XRefObj (Ref 1 0))]) []
      = Some (Inr ([Ref 1 0, Ref 2 0], cyclic_cxref))"
    by (simp add: f collect_obj.simps collect_array.simps collectDictRefElems.simps)
  moreover have "Suc (Suc 3) = 5" by simp
  ultimately show ?thesis unfolding initReachableObjects_def t by metis
qed

lemma cyclic_ok: "ok cyclic_cxref"
  by (simp add: cyclic_cxref_def sample_cxref_def)

theorem flattener_collects_reachable_witness:
  "reachable_refs cyclic_cxref (XDict (getTrailerDict cyclic_cxref)) = {Ref 1 0, Ref 2 0}"
  using flattener_collects_reachable [OF cyclic_ok cyclic_collect] by auto

theorem flattener_collection_returns_witness:
  "initReachableObjects 6 cyclic_cxref \<noteq> None"
  by (rule flattener_collection_returns) (simp_all add: cyclic_ok, simp add: cyclic_cxref_def cyclic_tab_def sample_cxref_def)

text \<open>
  Claim C29: a flattened document contains every object that can be reached from the trailer,
  complete and at the offset its cross reference table gives.
\<close>

theorem flatten_complete:
  assumes "ok x"
    and "flatten fuel env reg x version (Some new_writer) (Some '''') = Some (Inr (0, bytes))"
  shows "\<exists>w body tbody.
      bytes = body @ (if offTable w = [] then [] else lines_bytes (trailer_lines w (length body) tbody))
    \<and> (\<forall>r\<in>reachable_refs x (XDict (getTrailerDict x)). \<forall>line.
         object_line env reg (fst (xref_fetch x r)) (Some r) True = Inr (Some line) \<longrightarrow> stored_at w body r line)"
proof -
  from assms(2) obtain refs x1 where init: "initReachableObjects fuel x = Some (Inr (refs, x1))"
    and run: "writeDocument fuel flat_fillObjectList env reg x1 version (x1, refs) (Some new_writer) (Some '''')
      = Some (Inr (0, bytes))"
    by (auto simp: flatten_def split: option.splits sum.splits)
  from collect_visits_all [OF assms(1) init]
  have refs: "set refs = reachable_refs x (XDict (getTrailerDict x))" and x1: "x1 = x" by auto
  have m: "map_of (flat_pending (x, refs)) r = Some (fst (xref_fetch x r))" if "r \<in> set refs" for r
    using that by (simp add: flat_pending_def map_of_map_restrict)
  from flat.writeDocument_stored [OF run TrueI] m show ?thesis
    unfolding x1 refs [symmetric] by blast
qed


definition catalog :: xobj where
  "catalog = XDict [(''Type'', XName ''Catalog'')]"

definition catalog_line :: string where
  "catalog_line = ''1 0 obj '' @ newline @ ''<<'' @ newline @ ''/Type /Catalog'' @ newline @ ''>>'' @ newline @ ''endobj''"

lemma catalog_object_line: "object_line toy_env no_filters catalog (Some (Ref 1 0)) True = Inr (Some catalog_line)"
  by code_simp

lemma sample_flat:
  "initReachableObjects 6 sample_cxref = Some (Inr ([Ref 1 0], sample_cxref))"
  "flat_fillObjectList writeBatchCount (sample_cxref, [Ref 1 0]) = Inr ([(Ref 1 0, catalog)], sample_cxref, [])"
  "flat_fillObjectList writeBatchCount (sample_cxref, []) = Inr ([], sample_cxref, [])"
proof -
  have f: "cxref_fetch deep_copy sample_cxref (Ref 1 0) = (Inr catalog, sample_cxref)"
    by (simp add: cxref_fetch_def xref_fetch_def sample_cxref_def sample_tab_def deep_copy_def Let_def catalog_def)
  have t: "getTrailerDict sample_cxref = [(''Size'', XInt 5), (''Root'', XRefObj (Ref 1 0))]"
    by (simp add: getTrailerDict_def sample_cxref_def sample_tab_def)
  have "collect_obj (Suc (Suc 4)) sample_cxref (XDict [(''Size'', XInt 5), (''Root'', XRefObj (Ref 1 0))]) []
      = Some (Inr ([Ref 1 0], sample_cxref))"
    by (simp add: f collect_obj.simps collect_array.simps collectDictRefElems.simps catalog_def)
  moreover have "Suc (Suc 4) = 6" by simp
  ultimately show "initReachableObjects 6 sample_cxref = Some (Inr ([Ref 1 0], sample_cxref))"
    unfolding initReachableObjects_def t by metis
  show "flat_fillObjectList writeBatchCount (sample_cxref, [Ref 1 0]) = Inr ([(Ref 1 0, catalog)], sample_cxref, [])"
    "flat_fillObjectList writeBatchCount (sample_cxref, []) = Inr ([], sample_cxref, [])"
    by (simp_all add: flat_fillObjectList_def writeBatchCount_def sample_cxref_def sample_tab_def xref_fetch_def catalog_def)
qed

lemma flatten_sample:
  "\<exists>bytes. flatten 6 toy_env no_filters sample_cxref ''1.4'' (Some new_writer) (Some '''') = Some (Inr (0, bytes))"
proof -
  let ?s = "writeHeader ''1.4'' (new_stream '''')"
  let ?w = "notify_step (record_object new_writer (Ref 1 0) (spos ?s)) CONTENT 1 0"
  have c: "writeContent toy_env no_filters [(Ref 1 0, Some catalog)] new_writer ?s 0 = Inr (?w, putLine ?s catalog_line)"
    by (simp add: writeContent_def writeObject_def catalog_object_line storage_contains_def new_writer_def storage_empty_def)
  have "write_batches (Suc (Suc n)) flat_fillObjectList toy_env no_filters (sample_cxref, [Ref 1 0]) new_writer ?s
     = Some (Inr ((sample_cxref, []), ?w, putLine ?s catalog_line))" for n
    by (simp add: sample_flat c)
  moreover have "Suc (Suc 4) = 6" by simp
  ultimately have b: "write_batches 6 flat_fillObjectList toy_env no_filters (sample_cxref, [Ref 1 0]) new_writer ?s
     = Some (Inr ((sample_cxref, []), ?w, putLine ?s catalog_line))"
    by metis
  obtain w t s p where "writeTrailer toy_env no_filters (getTrailerDict sample_cxref) no_prev ?w (putLine ?s catalog_line) 0
      = Inr (w, t, s, p)"
    using sample_trailer_written [of "Ref 1 0" "spos ?s" "putLine ?s catalog_line"] by auto
  moreover have "needs_credentials sample_cxref = False" "encrypted sample_cxref = False"
    by (simp_all add: sample_cxref_def)
  ultimately show ?thesis by (simp add: flatten_def writeDocument_def sample_flat b)
qed

theorem flatten_complete_witness:
  "\<exists>bytes w body. flatten 6 toy_env no_filters sample_cxref ''1.4'' (Some new_writer) (Some '''') = Some (Inr (0, bytes))
    \<and> take (length body) bytes = body \<and> stored_at w body (Ref 1 0) catalog_line"
proof -
  have good: "ok sample_cxref" by (simp add: sample_cxref_def)
  obtain bytes where run: "flatten 6 toy_env no_filters sample_cxref ''1.4'' (Some new_writer) (Some '''') = Some (Inr (0, bytes))"
    using flatten_sample by blast
  have "Ref 1 0 \<in> reachable_refs sample_cxref (XDict (getTrailerDict sample_cxref))"
    using collect_visits_all [OF good sample_flat(1)] by auto
  moreover have "fst (xref_fetch sample_cxref (Ref 1 0)) = catalog"
    by (simp add: sample_cxref_def sample_tab_def xref_fetch_def catalog_def)
  moreover from flatten_complete [OF good run] obtain w body tbody where
    b: "bytes = body @ (if offTable w = [] then [] else lines_bytes (trailer_lines w (length body) tbody))"
    and "\<forall>r\<in>reachable_refs sample_cxref (XDict (getTrailerDict sample_cxref)). \<forall>line.
         object_line toy_env no_filters (fst (xref_fetch sample_cxref r)) (Some r) True = Inr (Some line) \<longrightarrow> stored_at w body r line"
    by blast
  ultimately have "stored_at w body (Ref 1 0) catalog_line"
    using catalog_object_line by metis
  moreover have "take (length body) bytes = body" by (simp add: b)
  ultimately show ?thesis using run by blast
qed

end
