(* ===== verification/XRef_Writer.thy ===== *)
theory XRef_Writer
  imports Old_Style_Writer
begin

text \<open>
  \<^verbatim>\<open>src/src/kernel/xrefwriter.cc\<close> and \<^verbatim>\<open>xrefwriter.h\<close>: the cross reference table of an open
  document.  It guards every change by credentials, revision, mode of the document and type safety,
  writes the changes behind the document as an incremental update, and moves between the revisions
  of the file.  \<^verbatim>\<open>save\<close> and \<^verbatim>\<open>clone\<close> of \<^verbatim>\<open>src/src/kernel/cpdf.cc\<close> are the clients.
\<close>

section \<open>State\<close>

datatype writer_mode = easy | paranoid
datatype pdf_mode = ReadOnly | ReadWrite | Advanced

record xref_writer =
  base :: cxref
  writer_mode :: writer_mode
  pdf_mode :: "pdf_mode option"
  revision :: nat
  revisions :: "nat list"
  storePos :: nat
  linearized :: bool
  pdfWriter :: "pdf_writer option"
  xstr :: file_stream

text \<open>
  What is outside: \<open>load bytes off\<close> is the reading of a cross reference section at an offset, with
  its success (\<^verbatim>\<open>XRef::initInternals\<close>); \<open>parse bytes pos\<close> is \<^verbatim>\<open>Parser::getObj\<close>, the object and
  where it ends, or \<open>None\<close> for a null pointer.
\<close>

type_synonym loader = "string \<Rightarrow> nat \<Rightarrow> xref_tab \<times> bool"
type_synonym obj_parser = "string \<Rightarrow> nat \<Rightarrow> (xobj \<times> nat) option"

section \<open>Revision dependent access\<close>

text \<open>The comparison is of an \<^verbatim>\<open>unsigned\<close> with a \<^verbatim>\<open>size_t\<close> that wraps around for no revision.\<close>

definition isLatestRevision :: "xref_writer \<Rightarrow> bool" where
  "isLatestRevision x \<longleftrightarrow> revisions x \<noteq> [] \<and> revision x = length (revisions x) - 1"

definition xw_fetch :: "(xobj \<Rightarrow> xobj option) \<Rightarrow> xref_writer fetcher" where
  "xw_fetch clone x r =
     (if isLatestRevision x
      then (case cxref_fetch clone (base x) r of (res, b) \<Rightarrow> (res, x\<lparr>base := b\<rparr>))
      else (case xref_fetch (base x) r of (v, b) \<Rightarrow> (Inr v, x\<lparr>base := b\<rparr>)))"

definition xw_knowsRef :: "xref_writer \<Rightarrow> ref \<Rightarrow> ref_state result" where
  "xw_knowsRef x r = (if isLatestRevision x then cxref_knowsRef (base x) r else xref_knowsRef (base x) r)"

definition xw_getTrailerDict :: "xref_writer \<Rightarrow> dict" where
  "xw_getTrailerDict x =
     (if isLatestRevision x then getTrailerDict (base x) else trailerDict (tab (base x)))"

text \<open>\<^verbatim>\<open>getNumObjects\<close> asks whether the revision is 0, which is the oldest one.\<close>

definition xw_getNumObjects :: "xref_writer \<Rightarrow> nat" where
  "xw_getNumObjects x =
     (if revision x = 0 then cxref_getNumObjects (base x) else xref_getNumObjects (tab (base x)))"

definition setPdfWriter :: "xref_writer \<Rightarrow> pdf_writer option \<Rightarrow> pdf_writer option \<times> xref_writer" where
  "setPdfWriter x writer =
     (pdfWriter x, case writer of None \<Rightarrow> x | Some w \<Rightarrow> x\<lparr>pdfWriter := Some w\<rparr>)"

section \<open>Changes\<close>

text \<open>\<^verbatim>\<open>paranoidCheck\<close>.\<close>

definition paranoidCheck ::
    "(xobj \<Rightarrow> xobj option) \<Rightarrow> xref_writer \<Rightarrow> ref \<Rightarrow> xobj \<Rightarrow> bool result \<times> xref_writer" where
  "paranoidCheck clone x r obj =
     (if writer_mode x = paranoid then
        (case xw_knowsRef x r of
           Inl e \<Rightarrow> (Inl e, x)
         | Inr UNUSED_REF \<Rightarrow> (Inr False, x)
         | Inr INITIALIZED_REF \<Rightarrow>
             (case xw_fetch clone x r of
                (Inl e, x1) \<Rightarrow> (Inl e, x1)
              | (Inr original, x1) \<Rightarrow> typeSafe (xw_fetch clone) x1 (Some original) (Some obj))
         | Inr RESERVED_REF \<Rightarrow> (Inr True, x))
      else (Inr True, x))"

text \<open>
  The guards in front of the operations.  A \<^verbatim>\<open>CPdf\<close> in read only mode refuses changes; a writer
  without a document has no mode.
\<close>

definition revision_error :: "xref_writer \<Rightarrow> exn option" where
  "revision_error x =
     (if \<not> isLatestRevision x then Some ReadOnlyDocumentException
      else if pdf_mode x = Some ReadOnly then Some ReadOnlyDocumentException
      else None)"

definition xw_changeObject ::
    "(xobj \<Rightarrow> xobj option) \<Rightarrow> xref_writer \<Rightarrow> ref \<Rightarrow> xobj \<Rightarrow> unit result \<times> xref_writer" where
  "xw_changeObject clone x r obj =
     (if needs_credentials (base x) then (Inl PermissionException, x)
      else case revision_error x of
        Some e \<Rightarrow> (Inl e, x)
      | None \<Rightarrow>
          if encrypted (base x) then (Inl NotImplementedException, x)
          else (case paranoidCheck clone x r obj of
                  (Inl e, x1) \<Rightarrow> (Inl e, x1)
                | (Inr False, x1) \<Rightarrow> (Inl ElementBadTypeException, x1)
                | (Inr True, x1) \<Rightarrow>
                    (case cxref_changeObject clone (base x1) r obj of
                       (Inl e, b) \<Rightarrow> (Inl e, x1\<lparr>base := b\<rparr>)
                     | (Inr old, b) \<Rightarrow> (Inr (), x1\<lparr>base := b\<rparr>))))"

definition canChangeTrailerEntry :: "string \<Rightarrow> bool" where
  "canChangeTrailerEntry name \<longleftrightarrow> name \<notin> set [''Prev'', ''Size'', ''Encrypt'']"

definition typeSafeTrailerEntry ::
    "'s fetcher \<Rightarrow> 's \<Rightarrow> string \<Rightarrow> xobj \<Rightarrow> bool result \<times> 's" where
  "typeSafeTrailerEntry fet s name value =
     (if name = ''Prev'' \<or> name = ''Size'' then (Inr (getType value = objInt), s)
      else if name = ''Root'' \<or> name = ''Info'' then
        (case value of
           XRefObj r \<Rightarrow>
             (case fet s r of
                (Inl e, s1) \<Rightarrow> (Inl e, s1)
              | (Inr v, s1) \<Rightarrow> (Inr (getType v = objDict), s1))
         | _ \<Rightarrow> (Inr False, s))
      else if name = ''ID'' then (Inr (getType value = objArray), s)
      else if name = ''Encrypt'' then
        (case deref fet s value of
           (Inl e, s1) \<Rightarrow> (Inl e, s1)
         | (Inr v, s1) \<Rightarrow> (Inr (getType v = objDict), s1))
      else (Inr True, s))"

definition xw_changeTrailer ::
    "(xobj \<Rightarrow> xobj option) \<Rightarrow> xref_writer \<Rightarrow> string option \<Rightarrow> xobj option
     \<Rightarrow> (xobj option) result \<times> xref_writer" where
  "xw_changeTrailer clone x name value =
     (case (name, value) of
        (Some key, Some v) \<Rightarrow>
          if needs_credentials (base x) then (Inl PermissionException, x)
          else if encrypted (base x) then (Inl NotImplementedException, x)
          else (case revision_error x of
            Some e \<Rightarrow> (Inl e, x)
          | None \<Rightarrow>
              (let check = (if writer_mode x = paranoid
                            then if \<not> canChangeTrailerEntry key then (Inl ElementBadTypeException, x)
                                 else typeSafeTrailerEntry (xw_fetch clone) x key v
                            else (Inr True, x)) in
               case check of
                 (Inl e, x1) \<Rightarrow> (Inl e, x1)
               | (Inr False, x1) \<Rightarrow> (Inl ElementBadTypeException, x1)
               | (Inr True, x1) \<Rightarrow>
                   (case cxref_changeTrailer clone (base x1) name value of
                      (res, b) \<Rightarrow> (res, x1\<lparr>base := b\<rparr>))))
      | _ \<Rightarrow> (Inl ElementBadTypeException, x))"

definition xw_reserveRef :: "xref_writer \<Rightarrow> ref result \<times> xref_writer" where
  "xw_reserveRef x =
     (if needs_credentials (base x) then (Inl PermissionException, x)
      else case revision_error x of
        Some e \<Rightarrow> (Inl e, x)
      | None \<Rightarrow> (case cxref_reserveRef (base x) of (res, b) \<Rightarrow> (res, x\<lparr>base := b\<rparr>)))"

text \<open>\<^verbatim>\<open>CXref::createObject\<close> calls the virtual \<^verbatim>\<open>reserveRef\<close>, which checks once more.\<close>

definition xw_createObject :: "xref_writer \<Rightarrow> objtype \<Rightarrow> (new_object \<times> ref) result \<times> xref_writer" where
  "xw_createObject x t =
     (if needs_credentials (base x) then (Inl PermissionException, x)
      else case revision_error x of
        Some e \<Rightarrow> (Inl e, x)
      | None \<Rightarrow>
          if encrypted (base x) then (Inl NotImplementedException, x)
          else (case xw_reserveRef x of
                  (Inl e, x1) \<Rightarrow> (Inl e, x1)
                | (Inr r, x1) \<Rightarrow> (Inr (init_object t, r), x1)))"

section \<open>Reopening\<close>

text \<open>
  \<^verbatim>\<open>checkEncryptedContent\<close> and \<^verbatim>\<open>reopen\<close> with the virtual calls of this class: the trailer and the
  fetch are those of the revision that is still current.
\<close>

definition xw_checkEncryptedContent ::
    "(xobj \<Rightarrow> xobj option) \<Rightarrow> xref_writer \<Rightarrow> bool result \<times> xref_writer" where
  "xw_checkEncryptedContent clone x =
     (let x1 = x\<lparr>base := (base x)\<lparr>needs_credentials := False, internal_fetch := True\<rparr>\<rparr> in
      case deref (xw_fetch clone) x1 (dict_lookupNF (xw_getTrailerDict x1) ''Encrypt'') of
        (Inl e, x2) \<Rightarrow> (Inl e, x2)
      | (Inr v, x2) \<Rightarrow>
          let enc = (getType v = objDict)
          in (Inr enc, x2\<lparr>base := (base x2)\<lparr>internal_fetch := False, encrypted := enc, needs_credentials := enc\<rparr>\<rparr>))"

definition xw_reopen ::
    "(xobj \<Rightarrow> xobj option) \<Rightarrow> loader \<Rightarrow> xref_writer \<Rightarrow> nat \<Rightarrow> bool \<Rightarrow> bool result \<times> xref_writer" where
  "xw_reopen clone load x off dropChanges =
     (let b = (if dropChanges then cleanUp (base x) else base x);
          (t, good) = load (sdata (xstr x)) off
      in xw_checkEncryptedContent clone
           (x\<lparr>base := b\<lparr>tab := t, ok := good, lastXRefPos := off\<rparr>\<rparr>))"

section \<open>Saving\<close>

text \<open>
  \<^verbatim>\<open>saveChanges\<close>: copies of the changed objects are written from \<open>storePos\<close> on, then table and
  trailer; the writer updates the trailer in place.  A new revision moves \<open>storePos\<close> in front of the
  new end of file marker, reads the new section and drops the changes.
\<close>

definition put_trailer :: "xref_writer \<Rightarrow> dict \<Rightarrow> xref_writer" where
  "put_trailer x t =
     (let b = base x in
      if isLatestRevision x \<and> currTrailer b \<noteq> None then x\<lparr>base := b\<lparr>currTrailer := Some t\<rparr>\<rparr>
      else x\<lparr>base := b\<lparr>tab := (tab b)\<lparr>trailerDict := t\<rparr>\<rparr>\<rparr>)"

definition changed_list :: "(xobj \<Rightarrow> xobj option) \<Rightarrow> cxref \<Rightarrow> (ref \<times> xobj option) list" where
  "changed_list clone b = map (\<lambda>(r, obj). (r, clone obj)) (changedStorage b)"

definition section_info :: "cxref \<Rightarrow> prev_sec_info" where
  "section_info b = \<lparr>prev_xrefPos = lastXRefPos b, prev_entriesNum = nat (maxObj (tab b) + 1)\<rparr>"

definition saveChanges ::
    "(xobj \<Rightarrow> xobj option) \<Rightarrow> loader \<Rightarrow> writer_env \<Rightarrow> registry \<Rightarrow> xref_writer \<Rightarrow> bool \<Rightarrow> xref_writer result" where
  "saveChanges clone load env reg x newRevision =
     (if needs_credentials (base x) then Inl PermissionException
      else if storage_size (changedStorage (base x)) = 0 then Inr x
      else case pdfWriter x of
        None \<Rightarrow> Inr x
      | Some w \<Rightarrow>
          rbind (writeContent env reg (changed_list clone (base x)) w (xstr x) (storePos x)) (\<lambda>(w1, s1).
            let xrefPos = spos s1 in
            rbind (writeTrailer env reg (xw_getTrailerDict x) (section_info (base x)) w1 s1 0)
              (\<lambda>(w2, t, s2, newEofPos).
                let x1 = put_trailer (x\<lparr>pdfWriter := Some w2, xstr := s2\<rparr>) t in
                if newRevision then
                  (case xw_reopen clone load (x1\<lparr>storePos := newEofPos\<rparr>) xrefPos True of
                     (Inl e, _) \<Rightarrow> Inl e
                   | (Inr _, x2) \<Rightarrow>
                       Inr (x2\<lparr>revisions := revisions x2 @ [xrefPos], revision := length (revisions x2)\<rparr>))
                else Inr x1)))"

text \<open>\<^verbatim>\<open>CPdf::save\<close>; the mode is the one of the document.\<close>

definition pdf_save ::
    "(xobj \<Rightarrow> xobj option) \<Rightarrow> loader \<Rightarrow> writer_env \<Rightarrow> registry \<Rightarrow> pdf_mode \<Rightarrow> xref_writer \<Rightarrow> bool \<Rightarrow> xref_writer result" where
  "pdf_save clone load env reg m x newRevision =
     guard (linearized x) NotImplementedException
       (guard (m = ReadOnly) ReadOnlyDocumentException
         (guard (\<not> isLatestRevision x) ReadOnlyDocumentException
           (saveChanges clone load env reg x newRevision)))"

section \<open>Lines of the file\<close>

text \<open>
  \<^verbatim>\<open>Stream::getLine\<close>: at most \<open>n\<close>-1 characters, up to the end of a line, which is consumed;
  \<open>None\<close> at the end of the file.  The result is the line and what is behind it.
\<close>

fun line_chars :: "nat \<Rightarrow> string \<Rightarrow> string \<times> string" where
  "line_chars 0 rest = ([], rest)"
| "line_chars (Suc n) [] = ([], [])"
| "line_chars (Suc n) (c # cs) =
     (if code c = 10 then ([], cs)
      else if code c = 13 then ([], case cs of d # ds \<Rightarrow> (if code d = 10 then ds else cs) | [] \<Rightarrow> [])
      else case line_chars n cs of (l, rest) \<Rightarrow> (c # l, rest))"

definition getLine :: "nat \<Rightarrow> string \<Rightarrow> (string \<times> string) option" where
  "getLine n rest = (if rest = [] then None else Some (line_chars (n - 1) rest))"

text \<open>\<^verbatim>\<open>strstr\<close> on a buffer sees it as a C string.\<close>

fun substring_of :: "string \<Rightarrow> string \<Rightarrow> bool" where
  "substring_of pat [] \<longleftrightarrow> pat = []"
| "substring_of pat (c # cs) \<longleftrightarrow> take (length pat) (c # cs) = pat \<or> substring_of pat cs"

definition strstr :: "string \<Rightarrow> string \<Rightarrow> bool" where
  "strstr buf pat \<longleftrightarrow> substring_of pat (takeWhile (\<lambda>c. code c \<noteq> 0) buf)"


lemma line_chars_length: "length (snd (line_chars n rest)) \<le> length rest"
proof (induction n rest rule: line_chars.induct)
  case (3 n c cs)
  then show ?case by (auto split: prod.split list.split)
qed simp_all

lemma getLine_length:
  assumes "getLine n rest = Some (l, rest')" "1 < n"
  shows "length rest' < length rest"
proof -
  obtain c cs where rest: "rest = c # cs" using assms(1) by (cases rest) (auto simp: getLine_def)
  obtain m where n: "n = Suc (Suc m)" using assms(2) by (cases n; cases "n - 1") auto
  from assms(1) have "rest' = snd (line_chars (Suc m) (c # cs))"
    by (simp add: getLine_def rest n)
  then show ?thesis
    using line_chars_length [of m cs] rest by (auto split: prod.split list.split)
qed

section \<open>Trailers of older revisions\<close>

text \<open>\<^verbatim>\<open>getPrevFromTrailer\<close>; \<open>None\<close> is \<^verbatim>\<open>ERR_OFFSET\<close>.\<close>

definition getPrevFromTrailer :: "xobj \<Rightarrow> nat option" where
  "getPrevFromTrailer trailer =
     (let prev_of = (\<lambda>d. case dict_lookupNF d ''Prev'' of XInt i \<Rightarrow> (if i < 0 then None else Some (nat i)) | _ \<Rightarrow> None)
      in case trailer of XDict d \<Rightarrow> prev_of d | XStream d raw \<Rightarrow> prev_of d | _ \<Rightarrow> None)"

text \<open>
  \<^verbatim>\<open>getOldStyleTrailer\<close>: lines are skipped up to one with the keyword, and the dictionary is parsed
  from the next line on.  \<open>None\<close> is the error code.
\<close>

definition trailer_buffer :: nat where
  "trailer_buffer = 1023"

function find_trailer :: "obj_parser \<Rightarrow> string \<Rightarrow> string \<Rightarrow> xobj option" where
  "find_trailer parse bytes rest =
     (case getLine trailer_buffer rest of
        None \<Rightarrow> None
      | Some (l, rest') \<Rightarrow>
          if strstr l ''startxref'' then None
          else if strstr l ''trailer'' then
            (case parse bytes (length bytes - length rest') of
               Some (XDict d, _) \<Rightarrow> Some (XDict d)
             | _ \<Rightarrow> None)
          else find_trailer parse bytes rest')"
  by pat_completeness auto
termination
  by (relation "measure (\<lambda>(p, b, rest). length rest)") (auto dest: getLine_length simp: trailer_buffer_def)

declare find_trailer.simps [simp del]

definition getOldStyleTrailer :: "obj_parser \<Rightarrow> string \<Rightarrow> nat \<Rightarrow> xobj option" where
  "getOldStyleTrailer parse bytes off = find_trailer parse bytes (drop off bytes)"

text \<open>\<^verbatim>\<open>getStreamTrailer\<close>: behind the object number come the generation, \<^verbatim>\<open>obj\<close>, and a stream.\<close>

definition getStreamTrailer :: "obj_parser \<Rightarrow> string \<Rightarrow> nat \<Rightarrow> xobj option" where
  "getStreamTrailer parse bytes pos =
     (case parse bytes pos of
        Some (XInt gen, p1) \<Rightarrow>
          (case parse bytes p1 of
             Some (XCmd cmd, p2) \<Rightarrow>
               if cmd = ''obj'' then
                 (case parse bytes p2 of Some (XStream d raw, p3) \<Rightarrow> Some (XStream d raw) | _ \<Rightarrow> None)
               else None
           | _ \<Rightarrow> None)
      | _ \<Rightarrow> None)"

text \<open>
  The loop of \<^verbatim>\<open>collectRevisions\<close>, with the offset and the trailer of the section at hand.  The
  code asks the trailer for \<^verbatim>\<open>XRefStm\<close> by \<^verbatim>\<open>dictLookupNF\<close>, which reads the dictionary member of
  the object: for the trailer of a cross reference stream this is not a dictionary.
\<close>

definition section_trailer :: "obj_parser \<Rightarrow> string \<Rightarrow> nat \<Rightarrow> (xobj option) result" where
  "section_trailer parse bytes off =
     (case parse bytes off of
        None \<Rightarrow> Inl MalformedFormatExeption
      | Some (XCmd cmd, p) \<Rightarrow> Inr (if cmd = ''xref'' then getOldStyleTrailer parse bytes off else None)
      | Some (XInt num, p) \<Rightarrow> Inr (getStreamTrailer parse bytes p)
      | _ \<Rightarrow> Inr None)"

fun collect_loop ::
    "nat \<Rightarrow> obj_parser \<Rightarrow> string \<Rightarrow> nat \<Rightarrow> xobj \<Rightarrow> bool \<Rightarrow> nat list \<Rightarrow> ((nat list) result) option" where
  "collect_loop 0 parse bytes off trailer hybrid revs = None"
| "collect_loop (Suc n) parse bytes off trailer hybrid revs =
     (let revs1 = (if hybrid then revs else off # revs) in
      case getPrevFromTrailer trailer of
        None \<Rightarrow> Some (Inr revs1)
      | Some off' \<Rightarrow>
          (case trailer of
             XDict d \<Rightarrow>
               let hybrid' = is_int (dict_lookupNF d ''XRefStm'') in
               if \<not> hybrid' \<and> off' \<in> set revs1 then Some (Inr revs1)
               else (case section_trailer parse bytes off' of
                       Inl e \<Rightarrow> Some (Inl e)
                     | Inr None \<Rightarrow> Some (Inr revs1)
                     | Inr (Some t) \<Rightarrow> collect_loop n parse bytes off' t hybrid' revs1)
           | _ \<Rightarrow> Some (Inl UndefinedBehaviour)))"

definition collectRevisions ::
    "nat \<Rightarrow> (xobj \<Rightarrow> xobj option) \<Rightarrow> obj_parser \<Rightarrow> xref_writer \<Rightarrow> (xref_writer result) option" where
  "collectRevisions fuel clone parse x =
     (let off = lastXRefPos (base x) in
      if linearized x then Some (Inr (x\<lparr>revisions := revisions x @ [off]\<rparr>))
      else case clone (XDict (trailerDict (tab (base x)))) of
        None \<Rightarrow> Some (Inr (x\<lparr>revisions := []\<rparr>))
      | Some trailer \<Rightarrow>
          (case collect_loop fuel parse (sdata (xstr x)) off trailer False [] of
             None \<Rightarrow> None
           | Some (Inl e) \<Rightarrow> Some (Inl e)
           | Some (Inr revs) \<Rightarrow> Some (Inr (x\<lparr>revisions := revs, revision := length revs - 1\<rparr>))))"

section \<open>Moving between revisions\<close>

definition changeRevision ::
    "(xobj \<Rightarrow> xobj option) \<Rightarrow> loader \<Rightarrow> xref_writer \<Rightarrow> nat \<Rightarrow> unit result \<times> xref_writer" where
  "changeRevision clone load x revNumber =
     (if needs_credentials (base x) then (Inl PermissionException, x)
      else if revNumber = revision x then (Inr (), x)
      else if linearized x then (Inl NotImplementedException, x)
      else if revisions x = [] then (Inl UndefinedBehaviour, x)
      else if revNumber > length (revisions x) - 1 then (Inl OutOfRange, x)
      else (case xw_reopen clone load x (revisions x ! revNumber) False of
              (Inl e, x1) \<Rightarrow> (Inl e, x1)
            | (Inr _, x1) \<Rightarrow> (Inr (), x1\<lparr>revision := revNumber\<rparr>)))"

text \<open>
  \<^verbatim>\<open>getRevisionEnd\<close>: behind the line that follows the first one starting with \<^verbatim>\<open>startxref\<close>, or the
  end of the file.
\<close>

function behind_startxref :: "string \<Rightarrow> string" where
  "behind_startxref rest =
     (case getLine BUFSIZ rest of
        None \<Rightarrow> rest
      | Some (l, rest') \<Rightarrow>
          if take 9 l = ''startxref''
          then (case getLine BUFSIZ rest' of None \<Rightarrow> rest' | Some (_, rest'') \<Rightarrow> rest'')
          else behind_startxref rest')"
  by pat_completeness auto
termination
  by (relation "measure length") (auto dest: getLine_length simp: BUFSIZ_def)

declare behind_startxref.simps [simp del]

definition getRevisionEnd :: "file_stream \<Rightarrow> nat \<Rightarrow> nat" where
  "getRevisionEnd s xrefStart =
     (let rest = drop xrefStart (sdata s) in xrefStart + (length rest - length (behind_startxref rest)))"

text \<open>\<^verbatim>\<open>cloneRevision\<close>: the result is what is written to the other file.\<close>

definition cloneRevision :: "xref_writer \<Rightarrow> string result" where
  "cloneRevision x =
     (if needs_credentials (base x) then Inl PermissionException
      else if encrypted (base x) then Inl NotImplementedException
      else if revision x \<ge> length (revisions x) then Inl UndefinedBehaviour
      else Inr (fst (cloneToFile (xstr x) 0 (getRevisionEnd (xstr x) (revisions x ! revision x))) @ ''%%EOF''))"

text \<open>
  \<^verbatim>\<open>getRevisionSize\<close>; without revisions the bound wraps around, and a size that is not positive
  fails the assertion.
\<close>

definition getRevisionSize :: "xref_writer \<Rightarrow> nat \<Rightarrow> bool \<Rightarrow> nat result" where
  "getRevisionSize x r includeXref =
     (if revisions x = [] then Inl UndefinedBehaviour
      else if r > length (revisions x) - 1 then Inl OutOfRange
      else
        let prevEnd = (if r > 0 then getRevisionEnd (xstr x) (revisions x ! (r - 1)) else 0);
            revStart = (if includeXref then getRevisionEnd (xstr x) (revisions x ! r) else revisions x ! r)
        in if revStart > prevEnd then Inr (revStart - prevEnd) else Inl UndefinedBehaviour)"

section \<open>Linearized documents\<close>

text \<open>
  \<^verbatim>\<open>checkLinearized\<close> reads three objects at a time from the first \<^verbatim>\<open>FIRST_LINEARIZED_BLOCK\<close> bytes
  and looks for a dictionary with the key behind the header of an indirect object.  The stream is
  ahead of the parser by its look-ahead: \<open>ahead pos\<close> is where the stream is.
\<close>

definition FIRST_LINEARIZED_BLOCK :: nat where
  "FIRST_LINEARIZED_BLOCK = 1024"

fun checkLinearized :: "nat \<Rightarrow> (nat \<Rightarrow> nat) \<Rightarrow> obj_parser \<Rightarrow> string \<Rightarrow> nat \<Rightarrow> ((ref option) result) option" where
  "checkLinearized 0 ahead parse bytes pos = None"
| "checkLinearized (Suc n) ahead parse bytes pos =
     (if ahead pos \<ge> FIRST_LINEARIZED_BLOCK then Some (Inr None)
      else case parse bytes pos of
        None \<Rightarrow> Some (Inl MalformedFormatExeption)
      | Some (o1, p1) \<Rightarrow> if o1 = XEOF then Some (Inr None) else
          (case parse bytes p1 of
             None \<Rightarrow> Some (Inl MalformedFormatExeption)
           | Some (o2, p2) \<Rightarrow> if o2 = XEOF then Some (Inr None) else
               (case parse bytes p2 of
                  None \<Rightarrow> Some (Inl MalformedFormatExeption)
                | Some (o3, p3) \<Rightarrow> if o3 = XEOF then Some (Inr None) else
                    if is_int o1 \<and> is_int o2 \<and> getType o3 = objCmd then
                      (case parse bytes p3 of
                         None \<Rightarrow> Some (Inl MalformedFormatExeption)
                       | Some (XEOF, p4) \<Rightarrow> Some (Inr None)
                       | Some (obj, p4) \<Rightarrow>
                           if getType obj = objDict \<and>
                              dict_lookupNF (case obj of XDict d \<Rightarrow> d | _ \<Rightarrow> []) ''Linearized'' \<noteq> XNull
                           then Some (Inr (Some (Ref (int_value o1) (int_value o2))))
                           else checkLinearized n ahead parse bytes p4)
                    else checkLinearized n ahead parse bytes p3)))"

section \<open>Guards\<close>

text \<open>A document that may not be changed: no credentials, an older revision, or read only.\<close>

definition locked :: "xref_writer \<Rightarrow> bool" where
  "locked x \<longleftrightarrow> needs_credentials (base x) \<or> \<not> isLatestRevision x \<or> pdf_mode x = Some ReadOnly"

text \<open>
  Claim C14: in an older revision, in read only mode and without the credentials of an encrypted
  document, no operation changes anything: each one throws and leaves the document as it was.
\<close>

theorem locked_unchanged:
  assumes "locked x"
  shows "(\<exists>e. xw_changeObject clone x r v = (Inl e, x))
    \<and> (\<exists>e. xw_changeTrailer clone x name value = (Inl e, x))
    \<and> (\<exists>e. xw_reserveRef x = (Inl e, x))
    \<and> (\<exists>e. xw_createObject x t = (Inl e, x))"
  using assms
  by (auto simp: locked_def xw_changeObject_def xw_changeTrailer_def xw_reserveRef_def
      xw_createObject_def revision_error_def split: option.split)

definition sample_xw :: xref_writer where
  "sample_xw = \<lparr>base = sample_cxref, writer_mode = paranoid, pdf_mode = Some ReadWrite, revision = 0,
     revisions = [120], storePos = 130, linearized = False, pdfWriter = Some new_writer,
     xstr = new_stream (replicate 136 (CHR ''x''))\<rparr>"

theorem locked_unchanged_witness:
  "\<exists>e. xw_changeObject deep_copy (sample_xw\<lparr>revisions := [120, 300]\<rparr>) (Ref 3 0) (XInt 8)
     = (Inl e, sample_xw\<lparr>revisions := [120, 300]\<rparr>)"
proof -
  have "locked (sample_xw\<lparr>revisions := [120, 300]\<rparr>)"
    by (simp add: locked_def isLatestRevision_def sample_xw_def)
  from locked_unchanged [OF this] show ?thesis by blast
qed

section \<open>Changing objects\<close>

lemma revision_error_None:
  "revision_error x = None \<longleftrightarrow> isLatestRevision x \<and> pdf_mode x \<noteq> Some ReadOnly"
  by (simp add: revision_error_def)

lemma xw_fetch_latest:
  "isLatestRevision x \<Longrightarrow> fst (xw_fetch clone x r) = fst (cxref_fetch clone (base x) r)"
  by (simp add: xw_fetch_def split: prod.split)

lemma xw_fetch_frame:
  "xw_fetch clone x r = (v, x') \<Longrightarrow> \<exists>b. x' = x\<lparr>base := (base x)\<lparr>ok := b\<rparr>\<rparr>"
  by (auto simp: xw_fetch_def split: if_splits prod.splits dest!: cxref_fetch_frame xref_fetch_frame) metis+

lemma deref_xw_frame:
  "deref (xw_fetch clone) x v = (res, x') \<Longrightarrow> \<exists>b. x' = x\<lparr>base := (base x)\<lparr>ok := b\<rparr>\<rparr>"
proof (cases v)
  case (XRefObj r)
  then show "deref (xw_fetch clone) x v = (res, x') \<Longrightarrow> ?thesis"
    using xw_fetch_frame by (simp add: deref_def)
qed (auto simp: deref_def intro: exI [of _ "ok (base x)"])

lemma typeSafe_frame:
  assumes "typeSafe (xw_fetch clone) x o1 o2 = (res, x')"
  shows "\<exists>b. x' = x\<lparr>base := (base x)\<lparr>ok := b\<rparr>\<rparr>"
proof (cases "o1 = None \<or> o2 = None")
  case True
  with assms show ?thesis by (auto simp: typeSafe_def intro: exI [of _ "ok (base x)"] split: option.splits)
next
  case False
  then obtain a b where ab: "o1 = Some a" "o2 = Some b" by auto
  obtain r1 x1 where d1: "deref (xw_fetch clone) x a = (r1, x1)" by force
  obtain b1 where x1: "x1 = x\<lparr>base := (base x)\<lparr>ok := b1\<rparr>\<rparr>" using deref_xw_frame [OF d1] by blast
  obtain r2 x2 where d2: "deref (xw_fetch clone) x1 b = (r2, x2)" by force
  obtain b2 where x2: "x2 = x1\<lparr>base := (base x1)\<lparr>ok := b2\<rparr>\<rparr>" using deref_xw_frame [OF d2] by blast
  show ?thesis
    using assms ab d1 d2 x1 x2 by (auto simp: typeSafe_def split: sum.splits)
qed

lemma paranoidCheck_frame:
  assumes "paranoidCheck clone x r v = (res, x')"
  shows "\<exists>b. x' = x\<lparr>base := (base x)\<lparr>ok := b\<rparr>\<rparr>"
proof -
  have id: "\<exists>b. x = x\<lparr>base := (base x)\<lparr>ok := b\<rparr>\<rparr>" by (rule exI [of _ "ok (base x)"]) simp
  obtain f x1 where f: "xw_fetch clone x r = (f, x1)" by force
  obtain b1 where x1: "x1 = x\<lparr>base := (base x)\<lparr>ok := b1\<rparr>\<rparr>" using xw_fetch_frame [OF f] by blast
  have ts: "\<exists>b. x2 = x\<lparr>base := (base x)\<lparr>ok := b\<rparr>\<rparr>" if "typeSafe (xw_fetch clone) x1 a b = (res, x2)" for a b x2
    using typeSafe_frame [OF that] x1 by auto
  show ?thesis
    using assms id x1 ts
    by (auto simp: paranoidCheck_def f split: if_splits sum.splits ref_state.splits)
qed

lemma xw_fetch_state:
  assumes "ok (base x)" "isLatestRevision x" "xw_fetch deep_copy x r = (Inr v, x')"
  shows "x' = x"
  using assms cxref_fetch_state [OF assms(1)]
  by (auto simp: xw_fetch_def split: prod.splits)

lemma deref_xw_state:
  "ok (base x) \<Longrightarrow> isLatestRevision x \<Longrightarrow> deref (xw_fetch deep_copy) x v = (Inr w, x') \<Longrightarrow> x' = x"
  using xw_fetch_state by (auto simp: deref_def split: xobj.splits)

lemma typeSafe_state:
  assumes "ok (base x)" "isLatestRevision x" "typeSafe (xw_fetch deep_copy) x (Some a) (Some b) = (Inr safe, x')"
  obtains o1 o2 where "x' = x" "fst (deref (xw_fetch deep_copy) x a) = Inr o1"
    "fst (deref (xw_fetch deep_copy) x b) = Inr o2"
    "safe \<longleftrightarrow> getType o1 = getType o2 \<or> getType a = objRef \<and> getType o1 = objNull"
proof -
  from assms(3) obtain o1 x1 o2 where d1: "deref (xw_fetch deep_copy) x a = (Inr o1, x1)"
    and d2: "deref (xw_fetch deep_copy) x1 b = (Inr o2, x')"
    and r: "safe \<longleftrightarrow> getType o1 = getType o2 \<or> getType a = objRef \<and> getType o1 = objNull"
    by (auto simp: typeSafe_def split: prod.splits sum.splits)
  from deref_xw_state [OF assms(1,2) d1] have x1: "x1 = x" .
  with deref_xw_state [OF assms(1,2)] d2 have "x' = x" by simp
  with that d1 d2 x1 r show ?thesis by simp
qed

lemma paranoidCheck_state:
  assumes "ok (base x)" "isLatestRevision x" "paranoidCheck deep_copy x r v = (Inr good, x')"
  shows "x' = x"
proof (cases "writer_mode x = paranoid \<and> xw_knowsRef x r = Inr INITIALIZED_REF")
  case False
  with assms(3) show ?thesis by (auto simp: paranoidCheck_def split: if_splits sum.splits ref_state.splits)
next
  case True
  with assms(3) obtain orig x1 where f: "xw_fetch deep_copy x r = (Inr orig, x1)"
    and t: "typeSafe (xw_fetch deep_copy) x1 (Some orig) (Some v) = (Inr good, x')"
    by (auto simp: paranoidCheck_def split: prod.splits sum.splits)
  from t have "typeSafe (xw_fetch deep_copy) x (Some orig) (Some v) = (Inr good, x')"
    unfolding xw_fetch_state [OF assms(1,2) f] .
  then show ?thesis by (rule typeSafe_state [OF assms(1,2)])
qed

lemma xw_changeObject_Inr:
  assumes "xw_changeObject clone x r v = (Inr (), x')"
  obtains x1 old b where "\<not> needs_credentials (base x)" "isLatestRevision x" "pdf_mode x \<noteq> Some ReadOnly"
    "\<not> encrypted (base x)" "paranoidCheck clone x r v = (Inr True, x1)"
    "cxref_changeObject clone (base x1) r v = (Inr old, b)" "x' = x1\<lparr>base := b\<rparr>"
  using assms
  by (auto simp: xw_changeObject_def revision_error_def split: if_splits option.splits prod.splits sum.splits bool.splits)

text \<open>
  Claim C13: a change that goes through in paranoid mode is one of a known reference, to a value of
  the type the object had, references followed (anything may replace what a dangling reference
  stands for); afterwards the object has the new value and every other object is what it was.
\<close>

theorem change_type_safe:
  assumes "ok (base x)" and "writer_mode x = paranoid"
    and "xw_changeObject deep_copy x r v = (Inr (), x')"
  shows "(xw_knowsRef x r = Inr RESERVED_REF \<or> xw_knowsRef x r = Inr INITIALIZED_REF)
    \<and> (xw_knowsRef x r = Inr INITIALIZED_REF \<longrightarrow>
        (\<exists>orig o1 o2. fst (xw_fetch deep_copy x r) = Inr orig
           \<and> fst (deref (xw_fetch deep_copy) x orig) = Inr o1
           \<and> fst (deref (xw_fetch deep_copy) x v) = Inr o2
           \<and> (getType o1 = getType o2 \<or> getType orig = objRef \<and> getType o1 = objNull)))
    \<and> fst (xw_fetch deep_copy x' r) = Inr v
    \<and> (\<forall>q. q \<noteq> r \<longrightarrow> fst (xw_fetch deep_copy x' q) = fst (xw_fetch deep_copy x q))"
proof -
  from assms(3) obtain x1 old b where latest: "isLatestRevision x"
    and p: "paranoidCheck deep_copy x r v = (Inr True, x1)"
    and c: "cxref_changeObject deep_copy (base x1) r v = (Inr old, b)" and x': "x' = x1\<lparr>base := b\<rparr>"
    by (rule xw_changeObject_Inr)
  have x1: "x1 = x" using paranoidCheck_state [OF assms(1) latest p] .
  have latest': "isLatestRevision x'" using latest by (simp add: x' x1 isLatestRevision_def)
  have b: "base x' = b" by (simp add: x')
  have "fst (xw_fetch deep_copy x' r) = Inr v"
    using cx.change_read [OF c] unfolding xw_fetch_latest [OF latest'] b .
  moreover have "fst (xw_fetch deep_copy x' q) = fst (xw_fetch deep_copy x q)" if "q \<noteq> r" for q
    using cx.change_frame [OF c that] unfolding xw_fetch_latest [OF latest'] xw_fetch_latest [OF latest] b x1 .
  moreover have "xw_knowsRef x r = Inr RESERVED_REF \<or> xw_knowsRef x r = Inr INITIALIZED_REF"
    using p assms(2) by (auto simp: paranoidCheck_def split: sum.splits ref_state.splits)
  moreover have "\<exists>orig o1 o2. fst (xw_fetch deep_copy x r) = Inr orig
           \<and> fst (deref (xw_fetch deep_copy) x orig) = Inr o1
           \<and> fst (deref (xw_fetch deep_copy) x v) = Inr o2
           \<and> (getType o1 = getType o2 \<or> getType orig = objRef \<and> getType o1 = objNull)"
    if i: "xw_knowsRef x r = Inr INITIALIZED_REF"
  proof -
    from p i assms(2) obtain orig x2 where f: "xw_fetch deep_copy x r = (Inr orig, x2)"
      and t: "typeSafe (xw_fetch deep_copy) x2 (Some orig) (Some v) = (Inr True, x1)"
      by (auto simp: paranoidCheck_def split: prod.splits sum.splits)
    from xw_fetch_state [OF assms(1) latest f] t
    have "typeSafe (xw_fetch deep_copy) x (Some orig) (Some v) = (Inr True, x1)" by simp
    from typeSafe_state [OF assms(1) latest this] f show ?thesis by (metis fst_conv)
  qed
  ultimately show ?thesis by blast
qed

theorem change_type_safe_witness:
  "\<exists>x'. xw_changeObject deep_copy sample_xw (Ref 3 0) (XInt 8) = (Inr (), x')
     \<and> fst (xw_fetch deep_copy x' (Ref 3 0)) = Inr (XInt 8)"
proof -
  have good: "ok (base sample_xw)" "writer_mode sample_xw = paranoid"
    by (simp_all add: sample_xw_def sample_cxref_def)
  have "fst (xw_changeObject deep_copy sample_xw (Ref 3 0) (XInt 8)) = Inr ()"
    by (simp add: xw_changeObject_def revision_error_def isLatestRevision_def sample_xw_def sample_cxref_def
        sample_tab_def paranoidCheck_def xw_knowsRef_def cxref_knowsRef_def xref_knowsRef_def xw_fetch_def
        cxref_fetch_def xref_fetch_def deep_copy_def typeSafe_def deref_def cxref_changeObject_def
        storage_put_def storage_contains_def Let_def)
  then obtain x' where run: "xw_changeObject deep_copy sample_xw (Ref 3 0) (XInt 8) = (Inr (), x')"
    by (metis prod.collapse)
  from change_type_safe [OF good run] run show ?thesis by blast
qed

section \<open>Saving a new revision\<close>

lemma write_entries_records:
  assumes "write_entries env reg n i ((r, Some v) # objs) w s = Inr (w', s')" "spos s \<le> length (sdata s)"
  shows "offTable w' \<noteq> []"
proof (cases "storage_contains (offTable w) r")
  case True
  then obtain p where "storage_get (offTable w) r = Some p" by (auto simp: storage_contains_def)
  with write_entries_inside [OF assms] have "storage_get (offTable w') r = Some p" by blast
  then show ?thesis by auto
next
  case False
  let ?w1 = "notify_step (record_object w r (spos s)) CONTENT n i"
  from False assms(1) obtain s1 where s1: "writeObject env reg v s (Some r) True = Inr s1"
    and rest: "write_entries env reg n (Suc i) objs ?w1 s1 = Inr (w', s')"
    by (auto simp: rbind_Inr_iff)
  from writeObject_inside(1) [OF s1 assms(2)] have "spos s1 \<le> length (sdata s1)" by simp
  from write_entries_inside [OF rest this] have "storage_get (offTable w') r = Some (spos s)" by simp
  then show ?thesis by auto
qed

lemma writeContent_stream:
  assumes "writeContent env reg objs w s off = Inr (w', s')"
  shows "sstart s' = sstart s \<and> slimited s' = slimited s"
proof -
  have put: "writeObject env reg v s r b = Inr s1 \<Longrightarrow> sstart s1 = sstart s \<and> slimited s1 = slimited s" for env reg v s r b s1
    by (auto simp: rbind_Inr_iff writeObject_def putLine_def split: option.splits)
  have "write_entries env reg n i objs w s = Inr (w', s') \<Longrightarrow> sstart s' = sstart s \<and> slimited s' = slimited s"
    for n i objs w s
  proof (induction env reg n i objs w s rule: write_entries.induct)
    case (2 env reg n i r obj objs w s)
    show ?case
    proof (cases "obj = None \<or> storage_contains (offTable w) r")
      case True
      with 2 show ?thesis by (cases obj) auto
    next
      case False
      then obtain v where obj: "obj = Some v" and nc: "\<not> storage_contains (offTable w) r" by auto
      with "2.prems" obtain s1 where s1: "writeObject env reg v s (Some r) True = Inr s1"
        and rest: "write_entries env reg n (Suc i) objs (notify_step (record_object w r (spos s)) CONTENT n i) s1 = Inr (w', s')"
        by (auto simp: rbind_Inr_iff)
      from "2.IH"(3) [OF obj nc s1 rest] put [of env reg v s "Some r" True s1] s1 show ?thesis by simp
    qed
  qed simp
  with assms show ?thesis by (auto simp: writeContent_def setPos_def split: if_splits)
qed

lemma xw_reopen_frame:
  assumes "xw_reopen clone load x off drop_changes = (Inr enc, x')"
  shows "xstr x' = xstr x" "storePos x' = storePos x" "revisions x' = revisions x" "revision x' = revision x"
    "lastXRefPos (base x') = off" "linearized x' = linearized x" "pdfWriter x' = pdfWriter x"
    "writer_mode x' = writer_mode x" "pdf_mode x' = pdf_mode x"
    "tab (base x') = fst (load (sdata (xstr x)) off)"
    "changedStorage (base x') = (if drop_changes then [] else changedStorage (base x))"
    "newStorage (base x') = (if drop_changes then [] else newStorage (base x))"
    "currTrailer (base x') = (if drop_changes then None else currTrailer (base x))"
proof -
  define b where "b = (if drop_changes then cleanUp (base x) else base x)"
  obtain t good where l: "load (sdata (xstr x)) off = (t, good)" by force
  define x1 where "x1 = x\<lparr>base := b\<lparr>tab := t, ok := good, lastXRefPos := off, needs_credentials := False,
     internal_fetch := True\<rparr>\<rparr>"
  from assms obtain v x2 where
    d: "deref (xw_fetch clone) x1 (dict_lookupNF (xw_getTrailerDict x1) ''Encrypt'') = (Inr v, x2)"
    and x': "x' = x2\<lparr>base := (base x2)\<lparr>internal_fetch := False, encrypted := getType v = objDict,
        needs_credentials := getType v = objDict\<rparr>\<rparr>"
    by (auto simp: xw_reopen_def xw_checkEncryptedContent_def Let_def l b_def x1_def split: prod.splits sum.splits)
  obtain g where x2: "x2 = x1\<lparr>base := (base x1)\<lparr>ok := g\<rparr>\<rparr>" using deref_xw_frame [OF d] by blast
  show "xstr x' = xstr x" "storePos x' = storePos x" "revisions x' = revisions x" "revision x' = revision x"
    "lastXRefPos (base x') = off" "linearized x' = linearized x" "pdfWriter x' = pdfWriter x"
    "writer_mode x' = writer_mode x" "pdf_mode x' = pdf_mode x"
    "tab (base x') = fst (load (sdata (xstr x)) off)"
    "changedStorage (base x') = (if drop_changes then [] else changedStorage (base x))"
    "newStorage (base x') = (if drop_changes then [] else newStorage (base x))"
    "currTrailer (base x') = (if drop_changes then None else currTrailer (base x))"
    by (simp_all add: x' x2 x1_def b_def cleanUp_def storage_clear_def l)
qed

text \<open>What a saved document has: the section behind the changed objects, complete.\<close>

definition section_text :: "(ref, nat) storage \<Rightarrow> string \<Rightarrow> nat \<Rightarrow> string" where
  "section_text offs body xrefPos =
     lines_bytes (table_lines (make_subsections offs)
       @ [''trailer'', body, ''startxref'', show_nat (to_unsigned (int xrefPos)), ''%%EOF''])"

lemma saveChanges_new:
  assumes "saveChanges clone load env reg x True = Inr x'" and "pdfWriter x = Some w"
    and "changedStorage (base x) \<noteq> []"
  obtains w1 s1 w2 t s2 eof enc x2 where
    "writeContent env reg (changed_list clone (base x)) w (xstr x) (storePos x) = Inr (w1, s1)"
    "writeTrailer env reg (xw_getTrailerDict x) (section_info (base x)) w1 s1 0 = Inr (w2, t, s2, eof)"
    "xw_reopen clone load ((put_trailer (x\<lparr>pdfWriter := Some w2, xstr := s2\<rparr>) t)\<lparr>storePos := eof\<rparr>) (spos s1) True
       = (Inr enc, x2)"
    "x' = x2\<lparr>revisions := revisions x2 @ [spos s1], revision := length (revisions x2)\<rparr>"
proof -
  from assms obtain w1 s1 w2 t s2 eof where
    run: "writeContent env reg (changed_list clone (base x)) w (xstr x) (storePos x) = Inr (w1, s1)"
    "writeTrailer env reg (xw_getTrailerDict x) (section_info (base x)) w1 s1 0 = Inr (w2, t, s2, eof)"
    and r: "(case xw_reopen clone load ((put_trailer (x\<lparr>pdfWriter := Some w2, xstr := s2\<rparr>) t)\<lparr>storePos := eof\<rparr>) (spos s1) True of
        (Inl e, _) \<Rightarrow> Inl e
      | (Inr _, x2) \<Rightarrow> Inr (x2\<lparr>revisions := revisions x2 @ [spos s1], revision := length (revisions x2)\<rparr>)) = Inr x'"
    by (auto simp: saveChanges_def storage_size_def rbind_Inr_iff Let_def split: if_splits)
  show ?thesis
  proof (cases "xw_reopen clone load ((put_trailer (x\<lparr>pdfWriter := Some w2, xstr := s2\<rparr>) t)\<lparr>storePos := eof\<rparr>) (spos s1) True")
    case (Pair res x2)
    with r obtain enc where "res = Inr enc" by (cases res) auto
    with that [OF run] Pair r show ?thesis by simp
  qed
qed

text \<open>
  Claim C1: saving as a new revision appends to the file and never touches what is in front of the
  place where it starts.  Behind the changed objects, each one complete at the offset its
  table entry has, stand the cross reference table, a trailer whose previous section is the one
  that was the last, and the new end of file marker, where the next revision will start.  The new
  revision is the current one, and no changes are pending.
\<close>

theorem save_new_revision:
  assumes "saveChanges deep_copy load env reg x True = Inr x'"
    and "pdfWriter x = Some w" and "offTable w = []" and "changedStorage (base x) \<noteq> []"
    and "0 < storePos x" and "storePos x \<le> length (sdata (xstr x))"
    and "sstart (xstr x) = 0" and "\<not> slimited (xstr x)"
    and "distinct (map fst (xw_getTrailerDict x))" and "0 < lastXRefPos (base x)" "lastXRefPos (base x) < 2147483648"
  shows "\<exists>xrefPos offs t body.
      take (storePos x) (sdata (xstr x')) = take (storePos x) (sdata (xstr x))
    \<and> storePos x \<le> xrefPos
    \<and> (\<forall>r v line. storage_get (changedStorage (base x)) r = Some v \<longrightarrow>
          object_line env reg v (Some r) True = Inr (Some line) \<longrightarrow>
          (\<exists>p. storage_get offs r = Some p \<and> storePos x \<le> p \<and> p + length line < xrefPos
             \<and> take (length line + 1) (drop p (sdata (xstr x'))) = line @ newline))
    \<and> drop xrefPos (sdata (xstr x')) = section_text offs body xrefPos
    \<and> obj_string (w_stream env) (XDict t) = Inr body
    \<and> dict_lookupNF t ''Prev'' = XInt (int (lastXRefPos (base x)))
    \<and> drop (storePos x') (sdata (xstr x')) = ''%%EOF'' @ newline
    \<and> revisions x' = revisions x @ [xrefPos] \<and> isLatestRevision x' \<and> lastXRefPos (base x') = xrefPos
    \<and> changedStorage (base x') = [] \<and> newStorage (base x') = []"
proof -
  from saveChanges_new [OF assms(1,2,4)] obtain w1 s1 w2 t s2 eof enc x2 where
    c: "writeContent env reg (changed_list deep_copy (base x)) w (xstr x) (storePos x) = Inr (w1, s1)"
    and tr: "writeTrailer env reg (xw_getTrailerDict x) (section_info (base x)) w1 s1 0 = Inr (w2, t, s2, eof)"
    and re: "xw_reopen deep_copy load ((put_trailer (x\<lparr>pdfWriter := Some w2, xstr := s2\<rparr>) t)\<lparr>storePos := eof\<rparr>) (spos s1) True
       = (Inr enc, x2)"
    and x': "x' = x2\<lparr>revisions := revisions x2 @ [spos s1], revision := length (revisions x2)\<rparr>" .
  have objs: "changed_list deep_copy (base x) = map (\<lambda>(r, v). (r, Some v)) (changedStorage (base x))"
    by (simp add: changed_list_def deep_copy_def)
  have start: "storePos x = (if storePos x = 0 then spos (xstr x) else storePos x)" using assms(5) by simp
  note cs = writeContent_spec [OF c start assms(6)]
  have ne: "offTable w1 \<noteq> []"
  proof -
    obtain r v rest where st: "changedStorage (base x) = (r, v) # rest"
      using assms(4) by (cases "changedStorage (base x)") auto
    show ?thesis
      using c assms(5,6) write_entries_records [of env reg _ 0 r v _ w "setPos (xstr x) (storePos x)" w1 s1]
      by (auto simp: writeContent_def objs st setPos_def)
  qed
  have str: "sstart s1 = 0" "\<not> slimited s1" using writeContent_stream [OF c] assms(7,8) by auto
  from cs have inside: "storePos x \<le> spos s1" "spos s1 \<le> length (sdata s1)" by auto
  obtain body where ts: "obj_string (w_stream env) (XDict t) = Inr body"
      "t = update_trailer w1 (section_info (base x)) (xw_getTrailerDict x)"
      "sdata s2 = take (spos s1) (sdata s1) @ lines_bytes (trailer_lines w1 (spos s1) body)"
      "drop eof (sdata s2) = ''%%EOF'' @ newline"
    using writeTrailer_spec [OF tr ne inside(2) str] by blast
  note fr = xw_reopen_frame [OF re]
  have fields: "revisions (put_trailer y u) = revisions y" "xstr (put_trailer y u) = xstr y" for y u
    by (simp_all add: put_trailer_def Let_def)
  have data: "sdata (xstr x') = sdata s2" using fr(1) by (simp add: x' fields)
  have take: "take (spos s1) (sdata s2) = take (spos s1) (sdata s1)" using inside(2) by (simp add: ts(3))
  have sec: "drop (spos s1) (sdata s2) = section_text (offTable w1) body (spos s1)"
    using inside(2) by (simp add: ts(3) section_text_def trailer_lines_def)
  have "dict_lookupNF t ''Prev'' = XInt (int (lastXRefPos (base x)))"
    using assms(10,11) by (simp add: ts(2) update_trailer_lookup [OF assms(9)] section_info_def xref_stream_fields_def to_int_id)
  moreover have "take (storePos x) (sdata s2) = take (storePos x) (sdata (xstr x))"
    using cs inside take by (metis min.absorb1 take_take)
  moreover have "\<exists>p. storage_get (offTable w1) r = Some p \<and> storePos x \<le> p \<and> p + length line < spos s1
             \<and> take (length line + 1) (drop p (sdata s2)) = line @ newline"
    if "storage_get (changedStorage (base x)) r = Some v" "object_line env reg v (Some r) True = Inr (Some line)"
    for r v line
  proof -
    have "map_of (live (changed_list deep_copy (base x))) r = Some v" "storage_get (offTable w) r = None"
      using that(1) assms(3) by (simp_all add: objs storage_get_map_of)
    with cs that(2) obtain p where p: "storage_get (offTable w1) r = Some p" "storePos x \<le> p"
      "p + length line + 1 \<le> spos s1" "take (length line + 1) (drop p (sdata s1)) = line @ newline"
      by blast
    moreover have "take (length line + 1) (drop p (sdata s2)) = take (length line + 1) (drop p (sdata s1))"
      using take_drop_inside [OF take] p(3) by simp
    ultimately show ?thesis by auto
  qed
  moreover have "revisions x' = revisions x @ [spos s1]" "isLatestRevision x'" "lastXRefPos (base x') = spos s1"
    "changedStorage (base x') = []" "newStorage (base x') = []" "storePos x' = eof"
    using fr by (simp_all add: x' fields isLatestRevision_def)
  ultimately show ?thesis
    using inside(1) sec ts(1,4) unfolding data by blast
qed

definition changed_xw :: xref_writer where
  "changed_xw = sample_xw\<lparr>base := sample_cxref\<lparr>changedStorage := [(Ref 3 0, XInt 8)]\<rparr>\<rparr>"

definition sample_load :: loader where
  "sample_load bytes off = (sample_tab, True)"

lemma changed_xw_saved: "\<exists>x'. saveChanges deep_copy sample_load sample_env no_filters changed_xw True = Inr x'"
proof -
  let ?s = "setPos (xstr sample_xw) 130"
  obtain line where l: "object_line sample_env no_filters (XInt 8) (Some (Ref 3 0)) True = Inr (Some line)"
    by (simp add: object_line_def)
  let ?s1 = "putLine ?s line"
  let ?w1 = "notify_step (record_object new_writer (Ref 3 0) 130) CONTENT 1 0"
  have c: "writeContent sample_env no_filters (changed_list deep_copy (base changed_xw)) new_writer (xstr changed_xw) (storePos changed_xw)
     = Inr (?w1, ?s1)"
    by (simp add: writeContent_def changed_list_def changed_xw_def deep_copy_def sample_xw_def writeObject_def l
       storage_contains_def new_writer_def storage_empty_def) (simp add: setPos_def)
  have "writeTrailer sample_env no_filters (xw_getTrailerDict changed_xw) (section_info (base changed_xw)) ?w1 ?s1 0 \<noteq> Inl e" for e
    by (simp add: writeTrailer_def storage_size_def Let_def writeObject_def object_line_def record_object_def notify_step_def
        new_writer_def storage_empty_def xw_getTrailerDict_def isLatestRevision_def changed_xw_def sample_xw_def
        getTrailerDict_def sample_cxref_def sample_tab_def section_info_def
        update_trailer_def dict_update_def dict_del_def dict_add_def stripXRefStreamFields_def dict_lookupNF_def)
  then obtain w2 t s2 eof where tr: "writeTrailer sample_env no_filters (xw_getTrailerDict changed_xw) (section_info (base changed_xw)) ?w1 ?s1 0 = Inr (w2, t, s2, eof)"
    by (metis prod.collapse sum.exhaust_sel)
  have re: "\<exists>x2. xw_reopen deep_copy sample_load ((put_trailer (changed_xw\<lparr>pdfWriter := Some w2, xstr := s2\<rparr>) t)\<lparr>storePos := eof\<rparr>) off True = (Inr False, x2)"
    for off
    by (simp add: xw_reopen_def sample_load_def xw_checkEncryptedContent_def Let_def deref_def xw_getTrailerDict_def
       getTrailerDict_def cleanUp_def put_trailer_def isLatestRevision_def changed_xw_def sample_xw_def sample_cxref_def sample_tab_def dict_lookupNF_def)
  from re [of "spos ?s1"] obtain x2 where re1: "xw_reopen deep_copy sample_load ((put_trailer (changed_xw\<lparr>pdfWriter := Some w2, xstr := s2\<rparr>) t)\<lparr>storePos := eof\<rparr>)
      (spos ?s1) True = (Inr False, x2)" ..
  have w: "pdfWriter changed_xw = Some new_writer" by (simp add: changed_xw_def sample_xw_def)
  have "saveChanges deep_copy sample_load sample_env no_filters changed_xw True
      = Inr (x2\<lparr>revisions := revisions x2 @ [spos ?s1], revision := length (revisions x2)\<rparr>)"
    unfolding saveChanges_def Let_def w using c tr re1
    by (simp add: storage_size_def) (simp add: changed_xw_def sample_cxref_def)
  then show ?thesis ..
qed

theorem save_new_revision_witness:
  "\<exists>x' xrefPos. saveChanges deep_copy sample_load sample_env no_filters changed_xw True = Inr x'
     \<and> revisions x' = [120, xrefPos] \<and> take 130 (sdata (xstr x')) = replicate 130 (CHR ''x'')
     \<and> drop (storePos x') (sdata (xstr x')) = ''%%EOF'' @ newline"
proof -
  from changed_xw_saved obtain x' where run: "saveChanges deep_copy sample_load sample_env no_filters changed_xw True = Inr x'" ..
  have p: "storePos changed_xw = 130" "revisions changed_xw = [120]" "sdata (xstr changed_xw) = replicate 136 (CHR ''x'')"
    "sstart (xstr changed_xw) = 0" "\<not> slimited (xstr changed_xw)" "lastXRefPos (base changed_xw) = 120"
    "pdfWriter changed_xw = Some new_writer" "offTable new_writer = []" "changedStorage (base changed_xw) \<noteq> []"
    by (simp_all add: changed_xw_def sample_xw_def new_stream_def sample_cxref_def new_writer_def storage_empty_def)
  have d: "distinct (map fst (xw_getTrailerDict changed_xw))"
    by (simp add: xw_getTrailerDict_def changed_xw_def sample_xw_def isLatestRevision_def getTrailerDict_def sample_cxref_def sample_tab_def)
  from save_new_revision [OF run p(7-9) _ _ p(4,5) d] obtain xrefPos where
    "revisions x' = revisions changed_xw @ [xrefPos]"
    "take (storePos changed_xw) (sdata (xstr x')) = take (storePos changed_xw) (sdata (xstr changed_xw))"
    "drop (storePos x') (sdata (xstr x')) = ''%%EOF'' @ newline"
    unfolding p(1,3,6) by auto
  with run show ?thesis by (auto simp: p)
qed

end
