(* ===== verification/Page_Tree.thy ===== *)
theory Page_Tree
  imports Xpdf_Object
begin

text \<open>
  The page tree of \<^verbatim>\<open>src/src/kernel/cpdf.cc\<close>: the types of its nodes, the number of pages under a
  node with the cache for it, the search of a page by its position and of the position of a page.
  The tree lives in the objects of the document; whatever is wrong in it is skipped or reported.
  The function \<open>pages_of\<close> is the reading of the tree the operations are measured against: the
  list of the pages under a node.
\<close>

section \<open>Nodes\<close>

text \<open>
  The document as the page tree sees it: the values of its indirect objects and the catalog.  A
  node is a dictionary, which is an indirect object or, for a root that is not, the value of
  \<^verbatim>\<open>Pages\<close> in the catalog; both are compared as the objects they are.
\<close>

record document =
  objects :: "ref \<Rightarrow> xobj"
  catalog_ref :: ref
  catalog_dict :: dict

datatype page_tree_node = Indirect ref | Inline

datatype PageTreeNodeType = ErrorNode | UnknownNode | LeafNode | InterNode | RootNode

definition node_dict :: "document \<Rightarrow> page_tree_node \<Rightarrow> dict option" where
  "node_dict doc v =
     (case (case v of Indirect r \<Rightarrow> objects doc r | Inline \<Rightarrow> dict_lookupNF (catalog_dict doc) ''Pages'') of
        XDict d \<Rightarrow> Some d | _ \<Rightarrow> None)"

text \<open>\<^verbatim>\<open>getIndiRef\<close>: a direct value has the reference of the object it is in.\<close>

definition node_ref :: "document \<Rightarrow> page_tree_node \<Rightarrow> ref" where
  "node_ref doc v = (case v of Indirect r \<Rightarrow> r | Inline \<Rightarrow> catalog_ref doc)"

text \<open>\<^verbatim>\<open>getReferencedObject\<close>, and \<^verbatim>\<open>getProperty<T>\<close>, which follows one reference.\<close>

definition getReferencedObject :: "document \<Rightarrow> xobj \<Rightarrow> xobj" where
  "getReferencedObject doc v = (case v of XRefObj r \<Rightarrow> objects doc r | _ \<Rightarrow> v)"

definition getPageTreeRoot :: "document \<Rightarrow> page_tree_node option" where
  "getPageTreeRoot doc =
     (case dict_find (catalog_dict doc) ''Pages'' of
        Some (XRefObj r) \<Rightarrow> (case objects doc r of XDict d \<Rightarrow> Some (Indirect r) | _ \<Rightarrow> None)
      | Some (XDict d) \<Rightarrow> Some Inline
      | _ \<Rightarrow> None)"

definition getNodeType :: "document \<Rightarrow> page_tree_node \<Rightarrow> PageTreeNodeType" where
  "getNodeType doc v =
     (case node_dict doc v of
        None \<Rightarrow> ErrorNode
      | Some d \<Rightarrow>
          if getPageTreeRoot doc = Some v then RootNode
          else (case dict_find d ''Type'' of
                  Some t \<Rightarrow>
                    (case getReferencedObject doc t of
                       XName name \<Rightarrow>
                         if name = ''Page'' then LeafNode
                         else if name = ''Pages'' then InterNode else UnknownNode
                     | _ \<Rightarrow> UnknownNode)
                | None \<Rightarrow>
                    (case dict_find d ''Kids'' of
                       Some k \<Rightarrow> (case getReferencedObject doc k of XArray xs \<Rightarrow> InterNode | _ \<Rightarrow> UnknownNode)
                     | None \<Rightarrow> UnknownNode)))"

text \<open>The order of the enumeration is the one of badness.\<close>

definition intermediate :: "PageTreeNodeType \<Rightarrow> bool" where
  "intermediate t \<longleftrightarrow> t = InterNode \<or> t = RootNode"

definition getKidsFromInterNode :: "document \<Rightarrow> dict \<Rightarrow> xobj list" where
  "getKidsFromInterNode doc d =
     (case dict_find d ''Kids'' of
        Some k \<Rightarrow> (case getReferencedObject doc k of XArray xs \<Rightarrow> xs | _ \<Rightarrow> [])
      | None \<Rightarrow> [])"

section \<open>Counting\<close>

text \<open>The cache from nodes to page counts; \<open>None\<close> for a null pointer.\<close>

type_synonym page_cache = "(ref, nat) storage"

definition getCachedValue :: "ref \<Rightarrow> page_cache option \<Rightarrow> nat option" where
  "getCachedValue key cache = (case cache of None \<Rightarrow> None | Some c \<Rightarrow> storage_get c key)"

definition updateCache :: "ref \<Rightarrow> nat \<Rightarrow> page_cache option \<Rightarrow> page_cache option" where
  "updateCache key count cache = map_option (\<lambda>c. storage_set c key count) cache"

definition discardCachedEntry :: "ref \<Rightarrow> page_cache \<Rightarrow> page_cache" where
  "discardCachedEntry key cache = snd (storage_remove cache key)"

text \<open>
  \<^verbatim>\<open>getKidsCount\<close>, with fuel for the depth of the tree: \<open>None\<close> is a recursion that has not
  ended.  \<open>count_kids\<close> is its loop over the members of \<^verbatim>\<open>Kids\<close>.
\<close>

fun count_kids ::
    "(page_tree_node \<Rightarrow> page_cache option \<Rightarrow> (nat \<times> page_cache option) option)
     \<Rightarrow> xobj list \<Rightarrow> page_cache option \<Rightarrow> (nat \<times> page_cache option) option" where
  "count_kids f [] cache = Some (0, cache)"
| "count_kids f (kid # kids) cache =
     (case kid of
        XRefObj r \<Rightarrow>
          (case f (Indirect r) cache of
             None \<Rightarrow> None
           | Some (n, cache1) \<Rightarrow>
               (case count_kids f kids cache1 of
                  None \<Rightarrow> None
                | Some (m, cache2) \<Rightarrow> Some (n + m, cache2)))
      | _ \<Rightarrow> count_kids f kids cache)"

fun getKidsCount ::
    "nat \<Rightarrow> document \<Rightarrow> page_tree_node \<Rightarrow> page_cache option \<Rightarrow> (nat \<times> page_cache option) option" where
  "getKidsCount 0 doc v cache = None"
| "getKidsCount (Suc fuel) doc v cache =
     (if getNodeType doc v = LeafNode then Some (1, cache)
      else case node_dict doc v of
        None \<Rightarrow> Some (0, cache)
      | Some d \<Rightarrow>
          (case getCachedValue (node_ref doc v) cache of
             Some count \<Rightarrow> Some (count, cache)
           | None \<Rightarrow>
               (case count_kids (getKidsCount fuel doc) (getKidsFromInterNode doc d) cache of
                  None \<Rightarrow> None
                | Some (count, cache1) \<Rightarrow> Some (count, updateCache (node_ref doc v) count cache1))))"

section \<open>Searching a page\<close>

text \<open>
  \<^verbatim>\<open>findPageDict\<close>.  The loop over the kids ends with an assertion; \<open>find_in_kids\<close> is this loop and
  \<open>sub\<close> the recursive call.
\<close>

fun find_in_kids ::
    "nat \<Rightarrow> (page_tree_node \<Rightarrow> nat \<Rightarrow> page_cache option \<Rightarrow> (page_tree_node result \<times> page_cache option) option)
     \<Rightarrow> document \<Rightarrow> xobj list \<Rightarrow> nat \<Rightarrow> nat \<Rightarrow> page_cache option
     \<Rightarrow> (page_tree_node result \<times> page_cache option) option" where
  "find_in_kids fuel sub doc [] min_pos pos cache = Some (Inl UndefinedBehaviour, cache)"
| "find_in_kids fuel sub doc (kid # kids) min_pos pos cache =
     (case kid of
        XRefObj r \<Rightarrow>
          (let child = Indirect r; t = getNodeType doc child in
           if t = LeafNode then
             if min_pos = pos then Some (Inr child, cache)
             else find_in_kids fuel sub doc kids (min_pos + 1) pos cache
           else if t = InterNode then
             (case getKidsCount fuel doc child cache of
                None \<Rightarrow> None
              | Some (count, cache1) \<Rightarrow>
                  if min_pos + count > pos then sub child min_pos cache1
                  else find_in_kids fuel sub doc kids (min_pos + count) pos cache1)
           else find_in_kids fuel sub doc kids min_pos pos cache)
      | _ \<Rightarrow> find_in_kids fuel sub doc kids min_pos pos cache)"

fun findPageDict ::
    "nat \<Rightarrow> document \<Rightarrow> page_tree_node \<Rightarrow> nat \<Rightarrow> nat \<Rightarrow> page_cache option
     \<Rightarrow> (page_tree_node result \<times> page_cache option) option" where
  "findPageDict 0 doc v startPos pos cache = None"
| "findPageDict (Suc fuel) doc v startPos pos cache =
     (if startPos > pos then Some (Inl (PageNotFoundException pos), cache)
      else case node_dict doc v of
        None \<Rightarrow> Some (Inl ElementBadTypeException, cache)
      | Some d \<Rightarrow>
          let t = getNodeType doc v in
          if t = LeafNode then
            if startPos = pos then Some (Inr v, cache)
            else Some (Inl (PageNotFoundException pos), cache)
          else if intermediate t then
            (case getKidsCount (Suc fuel) doc v cache of
               None \<Rightarrow> None
             | Some (count, cache1) \<Rightarrow>
                 if count + startPos \<le> pos then Some (Inl (PageNotFoundException pos), cache1)
                 else find_in_kids fuel (\<lambda>child min_pos c. findPageDict fuel doc child min_pos pos c)
                        doc (getKidsFromInterNode doc d) startPos pos cache1)
          else Some (Inl ElementBadTypeException, cache))"

section \<open>Searching a position\<close>

text \<open>
  \<^verbatim>\<open>searchTreeNode\<close>: 0 when the node is not there.  Behind the kid with the node no other reference
  to it may follow.
\<close>

definition refers_to :: "xobj list \<Rightarrow> ref \<Rightarrow> bool" where
  "refers_to kids r \<longleftrightarrow> XRefObj r \<in> set kids"

fun search_kids ::
    "nat \<Rightarrow> (page_tree_node \<Rightarrow> nat \<Rightarrow> page_cache option \<Rightarrow> (nat result \<times> page_cache option) option)
     \<Rightarrow> document \<Rightarrow> page_tree_node \<Rightarrow> xobj list \<Rightarrow> nat \<Rightarrow> page_cache option
     \<Rightarrow> (nat result \<times> page_cache option) option" where
  "search_kids fuel sub doc node [] startValue cache = Some (Inr 0, cache)"
| "search_kids fuel sub doc node (kid # kids) startValue cache =
     (let found = (\<lambda>position c.
            if refers_to kids (node_ref doc node) then Some (Inl AmbiguousPageTreeException, c)
            else Some (Inr position, c))
      in case kid of
        XRefObj r \<Rightarrow>
          (let child = Indirect r; t = getNodeType doc child in
           if t \<noteq> LeafNode \<and> t \<noteq> InterNode then search_kids fuel sub doc node kids startValue cache
           else if child = node then found startValue cache
           else
             (case (if t \<noteq> LeafNode then sub child startValue cache else Some (Inr 0, cache)) of
                None \<Rightarrow> None
              | Some (Inl e, cache1) \<Rightarrow> Some (Inl e, cache1)
              | Some (Inr position, cache1) \<Rightarrow>
                  if position \<noteq> 0 then found position cache1
                  else (case getKidsCount fuel doc child cache1 of
                          None \<Rightarrow> None
                        | Some (count, cache2) \<Rightarrow>
                            search_kids fuel sub doc node kids (startValue + count) cache2)))
      | _ \<Rightarrow> search_kids fuel sub doc node kids startValue cache)"

fun searchTreeNode ::
    "nat \<Rightarrow> document \<Rightarrow> page_tree_node \<Rightarrow> page_tree_node \<Rightarrow> nat \<Rightarrow> page_cache option
     \<Rightarrow> (nat result \<times> page_cache option) option" where
  "searchTreeNode 0 doc superNode node startValue cache = None"
| "searchTreeNode (Suc fuel) doc superNode node startValue cache =
     (if superNode = node then Some (Inr startValue, cache)
      else let t = getNodeType doc superNode in
        if t = LeafNode then Some (Inr 0, cache)
        else if \<not> intermediate t then Some (Inr 0, cache)
        else case node_dict doc superNode of
          None \<Rightarrow> Some (Inr 0, cache)
        | Some d \<Rightarrow>
            search_kids fuel (\<lambda>child start c. searchTreeNode fuel doc child node start c)
              doc node (getKidsFromInterNode doc d) startValue cache)"

text \<open>\<^verbatim>\<open>getNodePosition\<close>; the node is a reference to a dictionary of this document.\<close>

definition getNodePosition ::
    "nat \<Rightarrow> document \<Rightarrow> page_tree_node \<Rightarrow> page_cache option \<Rightarrow> (nat result \<times> page_cache option) option" where
  "getNodePosition fuel doc node cache =
     (case getPageTreeRoot doc of
        None \<Rightarrow> Some (Inl (PageNotFoundException 0), cache)
      | Some top_node \<Rightarrow>
          if node_dict doc node = None then Some (Inl ElementBadTypeException, cache)
          else (case searchTreeNode fuel doc top_node node 1 cache of
                  None \<Rightarrow> None
                | Some (Inl e, cache1) \<Rightarrow> Some (Inl e, cache1)
                | Some (Inr pos, cache1) \<Rightarrow>
                    Some (if pos \<noteq> 0 then Inr pos else Inl (PageNotFoundException 0), cache1)))"

text \<open>\<^verbatim>\<open>isNodeDescendant\<close>, up the chain of parents; the fuel is for cycles in it.\<close>

fun isNodeDescendant :: "nat \<Rightarrow> document \<Rightarrow> ref \<Rightarrow> dict \<Rightarrow> bool option" where
  "isNodeDescendant 0 doc parent child = None"
| "isNodeDescendant (Suc fuel) doc parent child =
     (case dict_find child ''Parent'' of
        Some (XRefObj r) \<Rightarrow>
          if parent = r then Some True
          else (case objects doc r of XDict d \<Rightarrow> isNodeDescendant fuel doc parent d | _ \<Rightarrow> Some False)
      | _ \<Rightarrow> Some False)"

text \<open>\<^verbatim>\<open>discardKidsCountCache\<close>.\<close>

fun discard_kids :: "(ref \<Rightarrow> page_cache \<Rightarrow> page_cache option) \<Rightarrow> xobj list \<Rightarrow> page_cache \<Rightarrow> page_cache option" where
  "discard_kids f [] cache = Some cache"
| "discard_kids f (kid # kids) cache =
     (case kid of
        XRefObj r \<Rightarrow> (case f r cache of None \<Rightarrow> None | Some cache1 \<Rightarrow> discard_kids f kids cache1)
      | _ \<Rightarrow> discard_kids f kids cache)"

fun discardKidsCountCache :: "nat \<Rightarrow> document \<Rightarrow> bool \<Rightarrow> ref \<Rightarrow> page_cache \<Rightarrow> page_cache option" where
  "discardKidsCountCache 0 doc withSubTree r cache = None"
| "discardKidsCountCache (Suc fuel) doc withSubTree r cache =
     (let cache1 = discardCachedEntry r cache in
      if \<not> withSubTree then Some cache1
      else case node_dict doc (Indirect r) of
        Some d \<Rightarrow>
          if intermediate (getNodeType doc (Indirect r))
          then discard_kids (discardKidsCountCache fuel doc True) (getKidsFromInterNode doc d) cache1
          else Some cache1
      | None \<Rightarrow> Some cache1)"

section \<open>The pages of a tree\<close>

text \<open>
  The reading of the tree the operations are measured against, as far as it is one: \<open>None\<close> when it
  is deeper than the fuel, when the root is below itself, or when a node of unknown type has kids.
\<close>

fun pages_of_kids :: "(page_tree_node \<Rightarrow> page_tree_node list option) \<Rightarrow> document \<Rightarrow> xobj list
    \<Rightarrow> page_tree_node list option" where
  "pages_of_kids f doc [] = Some []"
| "pages_of_kids f doc (kid # kids) =
     (case kid of
        XRefObj r \<Rightarrow>
          if getNodeType doc (Indirect r) = RootNode then None
          else (case (f (Indirect r), pages_of_kids f doc kids) of
                  (Some ps, Some qs) \<Rightarrow> Some (ps @ qs) | _ \<Rightarrow> None)
      | _ \<Rightarrow> pages_of_kids f doc kids)"

fun pages_of :: "nat \<Rightarrow> document \<Rightarrow> page_tree_node \<Rightarrow> page_tree_node list option" where
  "pages_of 0 doc v = None"
| "pages_of (Suc fuel) doc v =
     (case node_dict doc v of
        None \<Rightarrow> Some []
      | Some d \<Rightarrow>
          (case getNodeType doc v of
             LeafNode \<Rightarrow> Some [v]
           | ErrorNode \<Rightarrow> Some []
           | UnknownNode \<Rightarrow> if getKidsFromInterNode doc d = [] then Some [] else None
           | _ \<Rightarrow> pages_of_kids (pages_of fuel doc) doc (getKidsFromInterNode doc d)))"

lemma ErrorNode_iff: "getNodeType doc v = ErrorNode \<longleftrightarrow> node_dict doc v = None"
  by (auto simp: getNodeType_def split: option.splits xobj.splits)

lemma pages_of_kids_mono:
  assumes "pages_of_kids f doc kids = Some ps" "\<And>v ps. f v = Some ps \<Longrightarrow> g v = Some ps"
  shows "pages_of_kids g doc kids = Some ps"
  using assms(1)
proof (induction kids arbitrary: ps)
  case (Cons kid kids)
  then show ?case using assms(2) by (cases kid) (auto split: if_splits option.splits)
qed simp

lemma pages_of_Suc: "pages_of n doc v = Some ps \<Longrightarrow> pages_of (Suc n) doc v = Some ps"
proof (induction n arbitrary: v ps)
  case (Suc n)
  have k: "pages_of_kids (pages_of n doc) doc kids = Some qs \<Longrightarrow> pages_of_kids (pages_of (Suc n) doc) doc kids = Some qs"
    for kids qs using pages_of_kids_mono Suc.IH by blast
  show ?case
  proof (cases "node_dict doc v")
    case (Some d)
    with Suc.prems k [of "getKidsFromInterNode doc d" ps] show ?thesis
      unfolding pages_of.simps(2) by (auto split: PageTreeNodeType.splits if_splits simp del: pages_of.simps)
  qed (use Suc.prems in simp)
qed simp

lemma pages_of_mono: "pages_of n doc v = Some ps \<Longrightarrow> n \<le> m \<Longrightarrow> pages_of m doc v = Some ps"
  by (induction m) (auto simp: le_Suc_eq dest: pages_of_Suc simp del: pages_of.simps)

lemma pages_of_unique: "pages_of n doc v = Some ps \<Longrightarrow> pages_of m doc v = Some qs \<Longrightarrow> ps = qs"
  using pages_of_mono [of n doc v ps "max n m"] pages_of_mono [of m doc v qs "max n m"] by simp

text \<open>What the cache says of the nodes is true.\<close>

definition cache_ok :: "document \<Rightarrow> page_cache option \<Rightarrow> bool" where
  "cache_ok doc cache \<longleftrightarrow>
     (\<forall>r k n ps. getCachedValue r cache = Some k \<longrightarrow> pages_of n doc (Indirect r) = Some ps \<longrightarrow> k = length ps)"

lemma cache_ok_None [simp, inv_intros]: "cache_ok doc None"
  by (simp add: cache_ok_def getCachedValue_def)

lemma cache_ok_empty [simp, inv_intros]: "cache_ok doc (Some storage_empty)"
  by (simp add: cache_ok_def getCachedValue_def storage_empty_def)

lemma cache_ok_update:
  assumes "cache_ok doc cache" "pages_of n doc (Indirect r) = Some ps"
  shows "cache_ok doc (updateCache r (length ps) cache)"
proof (cases cache)
  case (Some c)
  show ?thesis
    unfolding cache_ok_def
  proof (intro allI impI)
    fix q k m qs
    assume k: "getCachedValue q (updateCache r (length ps) cache) = Some k"
      and m: "pages_of m doc (Indirect q) = Some qs"
    show "k = length qs"
    proof (cases "q = r")
      case True
      with k m pages_of_unique [OF assms(2)] show ?thesis by (simp add: Some getCachedValue_def updateCache_def)
    next
      case False
      with k have "getCachedValue q cache = Some k" by (simp add: Some getCachedValue_def updateCache_def)
      with assms(1) m show ?thesis unfolding cache_ok_def by blast
    qed
  qed
qed (use assms in \<open>simp add: updateCache_def\<close>)

lemma count_kids_pages:
  assumes "pages_of_kids (pages_of n doc) doc kids = Some ps" "cache_ok doc cache"
    and "\<And>r ps cache. pages_of n doc (Indirect r) = Some ps \<Longrightarrow> cache_ok doc cache \<Longrightarrow>
      \<exists>cache'. f (Indirect r) cache = Some (length ps, cache') \<and> cache_ok doc cache'"
  shows "\<exists>cache'. count_kids f kids cache = Some (length ps, cache') \<and> cache_ok doc cache'"
  using assms(1,2)
proof (induction kids arbitrary: ps cache)
  case (Cons kid kids)
  show ?case
  proof (cases "\<exists>r. kid = XRefObj r")
    case True
    then obtain r where kid: "kid = XRefObj r" ..
    with Cons.prems(1) obtain qs rs where q: "pages_of n doc (Indirect r) = Some qs"
      and r: "pages_of_kids (pages_of n doc) doc kids = Some rs" and ps: "ps = qs @ rs"
      by (auto split: if_splits option.splits)
    from assms(3) [OF q Cons.prems(2)] obtain c1 where
      c1: "f (Indirect r) cache = Some (length qs, c1)" "cache_ok doc c1" by blast
    from Cons.IH [OF r c1(2)] obtain c2 where "count_kids f kids c1 = Some (length rs, c2)" "cache_ok doc c2" by blast
    with c1 show ?thesis by (simp add: kid ps)
  next
    case False
    with Cons show ?thesis by (cases kid) auto
  qed
qed simp

lemma getKidsCount_pages:
  "pages_of n doc (Indirect r) = Some ps \<Longrightarrow> cache_ok doc cache \<Longrightarrow>
   \<exists>cache'. getKidsCount n doc (Indirect r) cache = Some (length ps, cache') \<and> cache_ok doc cache'"
proof (induction n arbitrary: r ps cache)
  case (Suc n)
  let ?v = "Indirect r"
  show ?case
  proof (cases "node_dict doc ?v")
    case None
    then have "getNodeType doc ?v = ErrorNode" by (simp add: getNodeType_def)
    with None Suc.prems show ?thesis by auto
  next
    case (Some d)
    show ?thesis
    proof (cases "getNodeType doc ?v = LeafNode")
      case True
      with Some Suc.prems show ?thesis by auto
    next
      case False
      with Some Suc.prems(1) have kids: "pages_of_kids (pages_of n doc) doc (getKidsFromInterNode doc d) = Some ps"
        by (auto split: PageTreeNodeType.splits if_splits simp: ErrorNode_iff)
      show ?thesis
      proof (cases "getCachedValue r cache")
        case (Some k)
        with Suc.prems have "k = length ps" unfolding cache_ok_def by blast
        with \<open>node_dict doc ?v = Some d\<close> Some False Suc.prems(2) show ?thesis by (simp add: node_ref_def)
      next
        case None
        from count_kids_pages [OF kids Suc.prems(2), of "getKidsCount n doc"] Suc.IH obtain c1 where
          c1: "count_kids (getKidsCount n doc) (getKidsFromInterNode doc d) cache = Some (length ps, c1)"
            "cache_ok doc c1" by blast
        with None Some False cache_ok_update [OF c1(2) Suc.prems(1)] show ?thesis
          by (simp add: node_ref_def)
      qed
    qed
  qed
qed simp

section \<open>Finding pages\<close>

lemma pages_of_leaf:
  assumes "pages_of n doc (Indirect r) = Some ps" "getNodeType doc (Indirect r) = LeafNode"
  shows "ps = [Indirect r]"
proof -
  obtain m where "n = Suc m" using assms(1) by (cases n) auto
  with assms ErrorNode_iff [of doc "Indirect r"] show ?thesis by (auto split: option.splits)
qed

lemma find_in_kids_pages:
  assumes "pages_of_kids (pages_of n doc) doc kids = Some ps" "cache_ok doc cache"
    and "s \<le> pos" "pos < s + length ps"
    and "\<And>r ps s cache. pages_of n doc (Indirect r) = Some ps \<Longrightarrow> getNodeType doc (Indirect r) = InterNode \<Longrightarrow>
      s \<le> pos \<Longrightarrow> pos < s + length ps \<Longrightarrow> cache_ok doc cache \<Longrightarrow>
      \<exists>cache'. sub (Indirect r) s cache = Some (Inr (ps ! (pos - s)), cache') \<and> cache_ok doc cache'"
  shows "\<exists>cache'. find_in_kids n sub doc kids s pos cache = Some (Inr (ps ! (pos - s)), cache') \<and> cache_ok doc cache'"
  using assms(1-4)
proof (induction kids arbitrary: ps s cache)
  case (Cons kid kids)
  show ?case
  proof (cases "\<exists>r. kid = XRefObj r")
    case True
    then obtain r where kid: "kid = XRefObj r" ..
    with Cons.prems(1) obtain qs rs where q: "pages_of n doc (Indirect r) = Some qs"
      and r: "pages_of_kids (pages_of n doc) doc kids = Some rs" and ps: "ps = qs @ rs"
      and nr: "getNodeType doc (Indirect r) \<noteq> RootNode"
      by (auto split: if_splits option.splits)
    obtain m where n: "n = Suc m" using q by (cases n) auto
    consider (leaf) "getNodeType doc (Indirect r) = LeafNode" | (inter) "getNodeType doc (Indirect r) = InterNode"
      | (other) "getNodeType doc (Indirect r) = ErrorNode \<or> getNodeType doc (Indirect r) = UnknownNode"
      using nr by (cases "getNodeType doc (Indirect r)") auto
    then show ?thesis
    proof cases
      case leaf
      then have "qs = [Indirect r]" by (rule pages_of_leaf [OF q])
      with leaf Cons.IH [OF r Cons.prems(2), of "s + 1"] Cons.prems(2-4) show ?thesis
        by (auto simp: kid ps Let_def nth_Cons' diff_diff_left)
    next
      case inter
      from getKidsCount_pages [OF q Cons.prems(2)] obtain c1 where
        c1: "getKidsCount n doc (Indirect r) cache = Some (length qs, c1)" "cache_ok doc c1" by blast
      show ?thesis
      proof (cases "s + length qs > pos")
        case True
        from assms(5) [OF q inter Cons.prems(3) True c1(2)] True c1(1) inter Cons.prems(3) show ?thesis
          by (auto simp: kid ps Let_def nth_append)
      next
        case False
        with Cons.IH [OF r c1(2), of "s + length qs"] Cons.prems(3,4) c1(1) inter show ?thesis
          by (auto simp: kid ps Let_def nth_append)
      qed
    next
      case other
      with q have "qs = []" by (auto simp: n split: option.splits if_splits)
      with other Cons.IH [OF r Cons.prems(2,3)] Cons.prems(4) show ?thesis
        by (auto simp: kid ps Let_def)
    qed
  next
    case False
    with Cons show ?thesis by (cases kid) auto
  qed
qed simp

definition tree_node :: "document \<Rightarrow> page_tree_node \<Rightarrow> bool" where
  "tree_node doc v \<longleftrightarrow> getNodeType doc v = LeafNode \<or> intermediate (getNodeType doc v)"

lemma findPageDict_pages:
  "pages_of n doc (Indirect r) = Some ps \<Longrightarrow> tree_node doc (Indirect r) \<Longrightarrow> cache_ok doc cache \<Longrightarrow>
   \<exists>cache'. findPageDict n doc (Indirect r) s pos cache
     = Some (if s \<le> pos \<and> pos < s + length ps then Inr (ps ! (pos - s)) else Inl (PageNotFoundException pos), cache')
     \<and> cache_ok doc cache'"
proof (induction n arbitrary: r ps s cache)
  case (Suc n)
  let ?v = "Indirect r"
  from Suc.prems(2) obtain d where d: "node_dict doc ?v = Some d"
    by (cases "node_dict doc ?v") (auto simp: tree_node_def intermediate_def ErrorNode_iff [symmetric])
  show ?case
  proof (cases "getNodeType doc ?v = LeafNode")
    case True
    with d Suc.prems show ?thesis by (cases "s \<le> pos") (auto simp: Let_def)
  next
    case False
    with Suc.prems(2) have inter: "intermediate (getNodeType doc ?v)" by (simp add: tree_node_def)
    with d Suc.prems(1) have kids: "pages_of_kids (pages_of n doc) doc (getKidsFromInterNode doc d) = Some ps"
      by (auto split: PageTreeNodeType.splits simp: intermediate_def)
    from getKidsCount_pages [OF Suc.prems(1,3)] obtain c1 where
      c1: "getKidsCount (Suc n) doc ?v cache = Some (length ps, c1)" "cache_ok doc c1" by blast
    have sub: "\<exists>cache'. findPageDict n doc (Indirect q) s pos c = Some (Inr (qs ! (pos - s)), cache') \<and> cache_ok doc cache'"
      if "pages_of n doc (Indirect q) = Some qs" "getNodeType doc (Indirect q) = InterNode" "s \<le> pos"
        "pos < s + length qs" "cache_ok doc c" for q qs s c
      using Suc.IH [OF that(1) _ that(5), of s] that by (auto simp: tree_node_def intermediate_def)
    show ?thesis
      using find_in_kids_pages [OF kids c1(2), of s pos "\<lambda>child min_pos c. findPageDict n doc child min_pos pos c"]
        sub c1 d False inter Suc.prems(3)
      by (auto simp: Let_def simp del: getKidsCount.simps)
  qed
qed simp

section \<open>Finding positions\<close>

lemma refers_to_leaf:
  assumes "pages_of_kids (pages_of n doc) doc kids = Some ps" "refers_to kids r"
    and "getNodeType doc (Indirect r) = LeafNode"
  shows "Indirect r \<in> set ps"
  using assms(1,2)
proof (induction kids arbitrary: ps)
  case (Cons kid kids)
  then show ?case
    using pages_of_leaf [OF _ assms(3), of n]
    by (cases kid) (fastforce simp: refers_to_def split: if_splits option.splits)+
qed (simp add: refers_to_def)

text \<open>The position of a page in the list, from a start, or 0.\<close>

fun position_in :: "page_tree_node list \<Rightarrow> page_tree_node \<Rightarrow> nat \<Rightarrow> nat" where
  "position_in [] v s = 0"
| "position_in (p # ps) v s = (if p = v then s else position_in ps v (s + 1))"

lemma position_in_append:
  "position_in (ps @ qs) v s = (if v \<in> set ps then position_in ps v s else position_in qs v (s + length ps))"
  by (induction ps arbitrary: s) auto

lemma position_in_0: "0 < s \<Longrightarrow> position_in ps v s = 0 \<longleftrightarrow> v \<notin> set ps"
  by (induction ps arbitrary: s) auto

lemma position_in_nth: "distinct ps \<Longrightarrow> i < length ps \<Longrightarrow> position_in ps (ps ! i) s = s + i"
proof (induction ps arbitrary: i s)
  case (Cons p ps)
  then show ?case by (cases i) auto
qed simp

lemma search_kids_pages:
  assumes "pages_of_kids (pages_of n doc) doc kids = Some ps" "cache_ok doc cache" "distinct ps" "0 < s"
    and w: "getNodeType doc (Indirect w) = LeafNode"
    and "\<And>r ps s cache. pages_of n doc (Indirect r) = Some ps \<Longrightarrow> distinct ps \<Longrightarrow> 0 < s \<Longrightarrow> cache_ok doc cache \<Longrightarrow>
      \<exists>cache'. sub (Indirect r) s cache = Some (Inr (position_in ps (Indirect w) s), cache') \<and> cache_ok doc cache'"
  shows "\<exists>cache'. search_kids n sub doc (Indirect w) kids s cache = Some (Inr (position_in ps (Indirect w) s), cache')
    \<and> cache_ok doc cache'"
  using assms(1-4)
proof (induction kids arbitrary: ps s cache)
  case (Cons kid kids)
  show ?case
  proof (cases "\<exists>r. kid = XRefObj r")
    case True
    then obtain r where kid: "kid = XRefObj r" ..
    with Cons.prems(1) obtain qs rs where q: "pages_of n doc (Indirect r) = Some qs"
      and r: "pages_of_kids (pages_of n doc) doc kids = Some rs" and ps: "ps = qs @ rs"
      and nr: "getNodeType doc (Indirect r) \<noteq> RootNode"
      by (auto split: if_splits option.splits)
    have dist: "distinct qs" "distinct rs" "set qs \<inter> set rs = {}" using Cons.prems(3) ps by auto
    obtain m where n: "n = Suc m" using q by (cases n) auto
    have once: "\<not> refers_to kids w" if "Indirect w \<in> set qs"
      using refers_to_leaf [OF r _ w] that dist by blast
    from getKidsCount_pages [OF q] have cnt: "cache_ok doc c \<Longrightarrow>
      \<exists>c'. getKidsCount n doc (Indirect r) c = Some (length qs, c') \<and> cache_ok doc c'" for c by blast
    consider (leaf) "getNodeType doc (Indirect r) = LeafNode" | (inter) "getNodeType doc (Indirect r) = InterNode"
      | (other) "getNodeType doc (Indirect r) = ErrorNode \<or> getNodeType doc (Indirect r) = UnknownNode"
      using nr by (cases "getNodeType doc (Indirect r)") auto
    then show ?thesis
    proof cases
      case leaf
      then have qs: "qs = [Indirect r]" using pages_of_leaf [OF q] by simp
      show ?thesis
      proof (cases "r = w")
        case True
        with once qs leaf Cons.prems(2) show ?thesis by (simp add: kid ps Let_def node_ref_def)
      next
        case False
        from cnt [OF Cons.prems(2)] obtain c1 where
          c1: "getKidsCount n doc (Indirect r) cache = Some (1, c1)" "cache_ok doc c1" by (auto simp: qs)
        from Cons.IH [OF r c1(2) dist(2), of "s + 1"] c1(1) leaf False show ?thesis
          by (auto simp: kid ps qs Let_def simp del: getKidsCount.simps)
      qed
    next
      case inter
      have ne: "r \<noteq> w" using inter w by auto
      from assms(6) [OF q dist(1) Cons.prems(4) Cons.prems(2)] obtain c1 where
        c1: "sub (Indirect r) s cache = Some (Inr (position_in qs (Indirect w) s), c1)" "cache_ok doc c1" by blast
      show ?thesis
      proof (cases "Indirect w \<in> set qs")
        case True
        with position_in_0 [OF Cons.prems(4)] once inter ne c1 show ?thesis
          by (auto simp: kid ps Let_def node_ref_def position_in_append)
      next
        case False
        from cnt [OF c1(2)] obtain c2 where
          c2: "getKidsCount n doc (Indirect r) c1 = Some (length qs, c2)" "cache_ok doc c2" by blast
        from Cons.IH [OF r c2(2) dist(2), of "s + length qs"] c1(1) c2(1) inter ne False
          position_in_0 [OF Cons.prems(4)] Cons.prems(4) show ?thesis
          by (auto simp: kid ps Let_def position_in_append simp del: getKidsCount.simps)
      qed
    next
      case other
      with q have "qs = []" by (auto simp: n split: option.splits if_splits)
      with other Cons.IH [OF r Cons.prems(2) dist(2) Cons.prems(4)] show ?thesis
        by (auto simp: kid ps Let_def)
    qed
  next
    case False
    with Cons show ?thesis by (cases kid) (auto simp: Let_def)
  qed
qed simp

lemma searchTreeNode_pages:
  assumes w: "getNodeType doc (Indirect w) = LeafNode"
  shows "pages_of n doc (Indirect r) = Some ps \<Longrightarrow> distinct ps \<Longrightarrow> 0 < s \<Longrightarrow> cache_ok doc cache \<Longrightarrow>
   \<exists>cache'. searchTreeNode n doc (Indirect r) (Indirect w) s cache
     = Some (Inr (position_in ps (Indirect w) s), cache') \<and> cache_ok doc cache'"
proof (induction n arbitrary: r ps s cache)
  case (Suc n)
  let ?v = "Indirect r"
  consider (same) "r = w" | (leaf) "r \<noteq> w" "getNodeType doc ?v = LeafNode"
    | (inter) "r \<noteq> w" "intermediate (getNodeType doc ?v)"
    | (other) "r \<noteq> w" "getNodeType doc ?v = ErrorNode \<or> getNodeType doc ?v = UnknownNode"
    by (cases "getNodeType doc ?v") (auto simp: intermediate_def)
  then show ?case
  proof cases
    case same
    with pages_of_leaf [OF Suc.prems(1)] w Suc.prems(4) show ?thesis by simp
  next
    case leaf
    with pages_of_leaf [OF Suc.prems(1)] Suc.prems(4) show ?thesis by simp
  next
    case inter
    then obtain d where d: "node_dict doc ?v = Some d"
      by (cases "node_dict doc ?v") (auto simp: intermediate_def ErrorNode_iff [symmetric])
    with inter Suc.prems(1) have kids: "pages_of_kids (pages_of n doc) doc (getKidsFromInterNode doc d) = Some ps"
      by (auto split: PageTreeNodeType.splits simp: intermediate_def)
    from search_kids_pages [OF kids Suc.prems(4,2,3) w, of "\<lambda>child start c. searchTreeNode n doc child (Indirect w) start c"]
      Suc.IH d inter show ?thesis by (auto simp: Let_def intermediate_def)
  next
    case other
    with Suc.prems have "ps = []" by (auto split: option.splits if_splits)
    with other Suc.prems(4) show ?thesis by (auto simp: Let_def intermediate_def)
  qed
qed simp

lemma pages_of_kids_leaves:
  assumes "pages_of_kids f doc kids = Some ps" "p \<in> set ps"
    and "\<And>r qs. f (Indirect r) = Some qs \<Longrightarrow> p \<in> set qs \<Longrightarrow> P"
  shows P
  using assms(1,2)
proof (induction kids arbitrary: ps)
  case (Cons kid kids)
  then show ?case using assms(3) by (cases kid) (auto split: if_splits option.splits)
qed simp

lemma pages_of_leaves:
  "pages_of n doc (Indirect r) = Some ps \<Longrightarrow> p \<in> set ps \<Longrightarrow>
   \<exists>w. p = Indirect w \<and> getNodeType doc (Indirect w) = LeafNode"
proof (induction n arbitrary: r ps)
  case (Suc n)
  show ?case
  proof (cases "getNodeType doc (Indirect r) = LeafNode")
    case True
    with pages_of_leaf [OF Suc.prems(1)] Suc.prems(2) show ?thesis by simp
  next
    case False
    with Suc.prems obtain d where "pages_of_kids (pages_of n doc) doc (getKidsFromInterNode doc d) = Some ps"
      by (auto split: option.splits PageTreeNodeType.splits if_splits)
    from pages_of_kids_leaves [OF this Suc.prems(2)] Suc.IH show ?thesis by blast
  qed
qed simp

lemma root_node:
  "getPageTreeRoot doc = Some (Indirect r) \<Longrightarrow> getNodeType doc (Indirect r) = RootNode"
  by (auto simp: getPageTreeRoot_def getNodeType_def node_dict_def split: option.splits xobj.splits)

lemma page_at_position_spec:
  assumes "getPageTreeRoot doc = Some (Indirect r)" "pages_of n doc (Indirect r) = Some ps" "cache_ok doc cache"
  shows "\<exists>cache'. findPageDict n doc (Indirect r) 1 pos cache
      = Some (if 1 \<le> pos \<and> pos \<le> length ps then Inr (ps ! (pos - 1)) else Inl (PageNotFoundException pos), cache')
    \<and> cache_ok doc cache'"
proof -
  have "tree_node doc (Indirect r)" using root_node [OF assms(1)] by (simp add: tree_node_def intermediate_def)
  from findPageDict_pages [OF assms(2) this assms(3), of 1 pos] show ?thesis
    by (simp add: less_Suc_eq_le)
qed

lemma position_of_page_spec:
  assumes "getPageTreeRoot doc = Some (Indirect r)" "pages_of n doc (Indirect r) = Some ps" "distinct ps"
    and "cache_ok doc cache" "getNodeType doc (Indirect w) = LeafNode"
  shows "\<exists>cache'. getNodePosition n doc (Indirect w) cache
      = Some (if Indirect w \<in> set ps then Inr (position_in ps (Indirect w) 1) else Inl (PageNotFoundException 0), cache')
    \<and> cache_ok doc cache'"
proof -
  have "node_dict doc (Indirect w) \<noteq> None" using assms(5) ErrorNode_iff [of doc "Indirect w"] by auto
  moreover from searchTreeNode_pages [OF assms(5,2,3) _ assms(4), of 1] obtain cache' where
    "searchTreeNode n doc (Indirect r) (Indirect w) 1 cache = Some (Inr (position_in ps (Indirect w) 1), cache')"
    "cache_ok doc cache'" by auto
  ultimately show ?thesis
    using position_in_0 [of 1 ps "Indirect w"] assms(1) by (auto simp: getNodePosition_def)
qed


text \<open>
  Claim C12: when no page is in the tree twice, the position of the page found at a position is this
  position, and a page that is not in the tree is not found.
\<close>

theorem page_position_roundtrip:
  assumes "getPageTreeRoot doc = Some (Indirect r)" "pages_of n doc (Indirect r) = Some ps" "distinct ps"
    and "cache_ok doc cache"
  shows "(1 \<le> pos \<and> pos \<le> length ps \<longrightarrow>
           (\<exists>page cache1 cache2. findPageDict n doc (Indirect r) 1 pos cache = Some (Inr page, cache1)
              \<and> getNodePosition n doc page cache1 = Some (Inr pos, cache2)))
    \<and> (getNodeType doc (Indirect w) = LeafNode \<and> Indirect w \<notin> set ps \<longrightarrow>
         (\<exists>cache2. getNodePosition n doc (Indirect w) cache = Some (Inl (PageNotFoundException 0), cache2)))"
proof (intro conjI impI)
  assume pos: "1 \<le> pos \<and> pos \<le> length ps"
  then obtain cache1 where f: "findPageDict n doc (Indirect r) 1 pos cache = Some (Inr (ps ! (pos - 1)), cache1)"
    and c1: "cache_ok doc cache1"
    using page_at_position_spec [OF assms(1,2,4), of pos] by auto
  have i: "pos - 1 < length ps" using pos by arith
  then obtain q where q: "ps ! (pos - 1) = Indirect q" "getNodeType doc (Indirect q) = LeafNode"
    using pages_of_leaves [OF assms(2) nth_mem [OF i]] by blast
  from position_of_page_spec [OF assms(1-3) c1 q(2)] position_in_nth [OF assms(3) i, of 1] nth_mem [OF i] pos
  have "\<exists>cache2. getNodePosition n doc (Indirect q) cache1 = Some (Inr pos, cache2)"
    unfolding q(1) by auto
  with f q(1) show "\<exists>page cache1 cache2. findPageDict n doc (Indirect r) 1 pos cache = Some (Inr page, cache1)
      \<and> getNodePosition n doc page cache1 = Some (Inr pos, cache2)" by auto
next
  assume w: "getNodeType doc (Indirect w) = LeafNode \<and> Indirect w \<notin> set ps"
  from position_of_page_spec [OF assms conjunct1 [OF w]] obtain cache' where
    "getNodePosition n doc (Indirect w) cache
      = Some (if Indirect w \<in> set ps then Inr (position_in ps (Indirect w) 1) else Inl (PageNotFoundException 0), cache')"
    by blast
  with w show "\<exists>cache2. getNodePosition n doc (Indirect w) cache = Some (Inl (PageNotFoundException 0), cache2)"
    by simp
qed

definition sample_pages :: document where
  "sample_pages =
     \<lparr>objects = (\<lambda>r. case map_of
        [(Ref 1 0, XDict [(''Kids'', XArray [XRefObj (Ref 2 0), XInt 5, XRefObj (Ref 5 0), XRefObj (Ref 9 0)])]),
         (Ref 2 0, XDict [(''Type'', XName ''Pages''), (''Kids'', XRefObj (Ref 6 0)), (''Count'', XInt 77)]),
         (Ref 3 0, XDict [(''Type'', XName ''Page'')]),
         (Ref 4 0, XDict [(''Type'', XRefObj (Ref 7 0))]),
         (Ref 5 0, XDict [(''Type'', XName ''Page'')]),
         (Ref 6 0, XArray [XRefObj (Ref 3 0), XNull, XRefObj (Ref 4 0)]),
         (Ref 7 0, XName ''Page''),
         (Ref 8 0, XDict [(''Type'', XName ''Page'')])] r of None \<Rightarrow> XNull | Some v \<Rightarrow> v),
      catalog_ref = Ref 10 0, catalog_dict = [(''Pages'', XRefObj (Ref 1 0))]\<rparr>"

lemma sample_pages_tree:
  "getPageTreeRoot sample_pages = Some (Indirect (Ref 1 0))"
  "pages_of 3 sample_pages (Indirect (Ref 1 0)) = Some (map Indirect [Ref 3 0, Ref 4 0, Ref 5 0])"
  "getNodeType sample_pages (Indirect (Ref 8 0)) = LeafNode"
  by code_simp+


theorem page_position_roundtrip_witness:
  "(\<exists>page cache1 cache2. findPageDict 3 sample_pages (Indirect (Ref 1 0)) 1 3 None = Some (Inr page, cache1)
      \<and> getNodePosition 3 sample_pages page cache1 = Some (Inr 3, cache2))
   \<and> (\<exists>cache. getNodePosition 3 sample_pages (Indirect (Ref 8 0)) None = Some (Inl (PageNotFoundException 0), cache))"
proof -
  have d: "distinct (map Indirect [Ref 3 0, Ref 4 0, Ref 5 0])" by simp
  have n: "Indirect (Ref 8 0) \<notin> set (map Indirect [Ref 3 0, Ref 4 0, Ref 5 0])" by simp
  show ?thesis
    using page_position_roundtrip [OF sample_pages_tree(1,2) d cache_ok_None, of 3 "Ref 8 0"] sample_pages_tree(3) n
    by auto
qed

text \<open>
  A node of unknown type with kids is counted but not searched: the loop over the kids runs off its
  end, and so does a root whose kids are all behind such a node.
\<close>

definition unknown_kid :: document where
  "unknown_kid =
     \<lparr>objects = (\<lambda>r. case map_of
        [(Ref 1 0, XDict [(''Kids'', XArray [XRefObj (Ref 2 0)])]),
         (Ref 2 0, XDict [(''Type'', XName ''Foo''), (''Kids'', XArray [XRefObj (Ref 3 0)])]),
         (Ref 3 0, XDict [(''Type'', XName ''Page'')])] r of None \<Rightarrow> XNull | Some v \<Rightarrow> v),
      catalog_ref = Ref 10 0, catalog_dict = [(''Pages'', XRefObj (Ref 1 0))]\<rparr>"

lemma unknown_kid_asserts:
  "map_option fst (getKidsCount 3 unknown_kid (Indirect (Ref 1 0)) None) = Some 1
   \<and> map_option fst (findPageDict 3 unknown_kid (Indirect (Ref 1 0)) 1 1 None) = Some (Inl UndefinedBehaviour)"
  by code_simp

text \<open>A tree with a cycle makes counting run for ever: no fuel is enough.\<close>

definition cyclic_pages :: document where
  "cyclic_pages =
     \<lparr>objects = (\<lambda>r. if r = Ref 1 0 then XDict [(''Kids'', XArray [XRefObj (Ref 1 0)])] else XNull),
      catalog_ref = Ref 10 0, catalog_dict = [(''Pages'', XRefObj (Ref 1 0))]\<rparr>"

lemma cyclic_pages_diverge: "getKidsCount n cyclic_pages (Indirect (Ref 1 0)) None = None"
proof (induction n)
  case (Suc n)
  have "node_dict cyclic_pages (Indirect (Ref 1 0)) = Some [(''Kids'', XArray [XRefObj (Ref 1 0)])]"
    "getNodeType cyclic_pages (Indirect (Ref 1 0)) = RootNode"
    by code_simp+
  with Suc show ?case by (simp add: getCachedValue_def getKidsFromInterNode_def getReferencedObject_def)
qed simp

end
