(* ===== verification/Page_List.thy ===== *)
theory Page_List
  imports Page_Tree
begin

text \<open>
  The list of the pages handed out (\<^verbatim>\<open>CPdf::pageList\<close>), the number of pages and the cache of the
  page tree, in \<^verbatim>\<open>src/src/kernel/cpdf.cc\<close>: the operations that hand out pages and move between
  them.
\<close>

section \<open>State\<close>

text \<open>A \<^verbatim>\<open>CPage\<close> is an instance for a page dictionary; pages are compared as instances.\<close>

datatype cpage = CPage (page_id: nat) (page_dict: page_tree_node)

record page_state =
  pages_doc :: document
  pageList :: "(nat, cpage) storage"
  pageCount :: nat
  nodeCountCache :: page_cache
  next_page :: nat
  invalidated :: "nat list"
  locked_doc :: bool

text \<open>\<^verbatim>\<open>std::map::insert\<close> keeps a value that is there.\<close>

definition map_insert :: "('k::linorder, 'v) storage \<Rightarrow> 'k \<Rightarrow> 'v \<Rightarrow> ('k, 'v) storage" where
  "map_insert m key val = (if storage_contains m key then m else storage_set m key val)"

definition put_cache :: "page_state \<Rightarrow> page_cache option \<Rightarrow> page_state" where
  "put_cache st cache = (case cache of None \<Rightarrow> st | Some c \<Rightarrow> st\<lparr>nodeCountCache := c\<rparr>)"

section \<open>Handing out pages\<close>

text \<open>The depth bounds the recursions of the page tree: \<open>None\<close> is one that has not ended.\<close>

definition getPageCount :: "nat \<Rightarrow> page_state \<Rightarrow> (nat result \<times> page_state) option" where
  "getPageCount depth st =
     (if locked_doc st then Some (Inl PermissionException, st)
      else if pageCount st \<noteq> 0 then Some (Inr (pageCount st), st)
      else case getPageTreeRoot (pages_doc st) of
        None \<Rightarrow> Some (Inr 0, st)
      | Some top_node \<Rightarrow>
          (case getKidsCount depth (pages_doc st) top_node (Some (nodeCountCache st)) of
             None \<Rightarrow> None
           | Some (n, cache) \<Rightarrow> Some (Inr n, (put_cache st cache)\<lparr>pageCount := n\<rparr>)))"

definition position_in_range :: "nat \<Rightarrow> nat \<Rightarrow> page_state \<Rightarrow> (bool result \<times> page_state) option" where
  "position_in_range depth pos st =
     (if pos < 1 then Some (Inr False, st)
      else case getPageCount depth st of
        None \<Rightarrow> None
      | Some (Inl e, st1) \<Rightarrow> Some (Inl e, st1)
      | Some (Inr n, st1) \<Rightarrow> Some (Inr (pos \<le> n), st1))"

definition getPage :: "nat \<Rightarrow> nat \<Rightarrow> page_state \<Rightarrow> (cpage result \<times> page_state) option" where
  "getPage depth pos st =
     (if locked_doc st then Some (Inl PermissionException, st)
      else case position_in_range depth pos st of
        None \<Rightarrow> None
      | Some (Inl e, st1) \<Rightarrow> Some (Inl e, st1)
      | Some (Inr False, st1) \<Rightarrow> Some (Inl (PageNotFoundException pos), st1)
      | Some (Inr True, st1) \<Rightarrow>
          (case storage_get (pageList st1) pos of
             Some page \<Rightarrow> Some (Inr page, st1)
           | None \<Rightarrow>
               (case getPageTreeRoot (pages_doc st1) of
                  None \<Rightarrow> Some (Inl (PageNotFoundException pos), st1)
                | Some top_node \<Rightarrow>
                    (case findPageDict depth (pages_doc st1) top_node 1 pos (Some (nodeCountCache st1)) of
                       None \<Rightarrow> None
                     | Some (Inl e, cache) \<Rightarrow> Some (Inl e, put_cache st1 cache)
                     | Some (Inr v, cache) \<Rightarrow>
                         let page = CPage (next_page st1) v in
                         Some (Inr page, (put_cache st1 cache)
                           \<lparr>pageList := map_insert (pageList st1) pos page,
                            next_page := Suc (next_page st1)\<rparr>)))))"

fun list_position :: "(nat, cpage) storage \<Rightarrow> cpage \<Rightarrow> nat option" where
  "list_position [] page = None"
| "list_position ((pos, p) # ps) page = (if p = page then Some pos else list_position ps page)"

definition getPagePosition :: "cpage \<Rightarrow> page_state \<Rightarrow> nat result" where
  "getPagePosition page st =
     (if locked_doc st then Inl PermissionException
      else case list_position (pageList st) page of
        Some pos \<Rightarrow> Inr pos
      | None \<Rightarrow> Inl (PageNotFoundException 0))"

definition hasNextPage :: "nat \<Rightarrow> cpage \<Rightarrow> page_state \<Rightarrow> (bool result \<times> page_state) option" where
  "hasNextPage depth page st =
     (case getPagePosition page st of
        Inl e \<Rightarrow> Some (Inl e, st)
      | Inr pos \<Rightarrow> position_in_range depth (pos + 1) st)"

definition getNextPage :: "nat \<Rightarrow> cpage \<Rightarrow> page_state \<Rightarrow> (cpage result \<times> page_state) option" where
  "getNextPage depth page st =
     (case getPagePosition page st of
        Inl e \<Rightarrow> Some (Inl e, st)
      | Inr pos \<Rightarrow> getPage depth (pos + 1) st)"

definition hasPrevPage :: "nat \<Rightarrow> cpage \<Rightarrow> page_state \<Rightarrow> (bool result \<times> page_state) option" where
  "hasPrevPage depth page st =
     (case getPagePosition page st of
        Inl e \<Rightarrow> Some (Inl e, st)
      | Inr pos \<Rightarrow> position_in_range depth (pos - 1) st)"

definition getPrevPage :: "nat \<Rightarrow> cpage \<Rightarrow> page_state \<Rightarrow> (cpage result \<times> page_state) option" where
  "getPrevPage depth page st =
     (case getPagePosition page st of
        Inl e \<Rightarrow> Some (Inl e, st)
      | Inr pos \<Rightarrow> getPage depth (pos - 1) st)"

section \<open>The list is true\<close>

definition list_true :: "page_tree_node list \<Rightarrow> (nat, cpage) storage \<Rightarrow> bool" where
  "list_true ps pl \<longleftrightarrow>
     (\<forall>pos page. storage_get pl pos = Some page \<longrightarrow> 1 \<le> pos \<and> pos \<le> length ps \<and> page_dict page = ps ! (pos - 1))"

text \<open>The tree has the pages \<open>ps\<close>, and list, count and cache agree with it.\<close>

definition pages_inv :: "nat \<Rightarrow> page_state \<Rightarrow> page_tree_node list \<Rightarrow> bool" where
  "pages_inv depth st ps \<longleftrightarrow>
     (\<exists>r. getPageTreeRoot (pages_doc st) = Some (Indirect r) \<and> pages_of depth (pages_doc st) (Indirect r) = Some ps)
     \<and> distinct ps \<and> cache_ok (pages_doc st) (Some (nodeCountCache st))
     \<and> storage_ok (pageList st) \<and> list_true ps (pageList st)
     \<and> pageCount st \<in> {0, length ps} \<and> \<not> locked_doc st"

lemma storage_get_map_insert [simp]:
  "storage_get (map_insert m key val) = (storage_get m)(key := (case storage_get m key of None \<Rightarrow> Some val | Some v \<Rightarrow> Some v))"
  by (auto simp: map_insert_def storage_contains_def fun_eq_iff split: option.split)

lemma storage_ok_map_insert [inv_intros]: "storage_ok m \<Longrightarrow> storage_ok (map_insert m key val)"
  by (simp add: map_insert_def storage_ok_set)

lemma put_cache_simps [simp]:
  "pages_doc (put_cache st c) = pages_doc st" "pageList (put_cache st c) = pageList st"
  "pageCount (put_cache st c) = pageCount st" "locked_doc (put_cache st c) = locked_doc st"
  "next_page (put_cache st c) = next_page st" "invalidated (put_cache st c) = invalidated st"
  by (simp_all add: put_cache_def split: option.split)

lemma put_cache_ok:
  "cache_ok d (Some (nodeCountCache st)) \<Longrightarrow> cache_ok d c \<Longrightarrow> cache_ok d (Some (nodeCountCache (put_cache st c)))"
  by (auto simp: put_cache_def split: option.split)

lemma list_trueD:
  assumes "list_true ps pl" "storage_get pl pos = Some page"
  shows "1 \<le> pos" "pos \<le> length ps" "page_dict page = ps ! (pos - 1)"
  using assms unfolding list_true_def by blast+

lemma list_true_inj:
  assumes "list_true ps pl" "distinct ps" "storage_get pl p = Some a" "storage_get pl q = Some b"
    and "page_dict a = page_dict b"
  shows "p = q"
proof -
  note p = list_trueD [OF assms(1,3)] and q = list_trueD [OF assms(1,4)]
  then have "ps ! (p - 1) = ps ! (q - 1)" using assms(5) by simp
  moreover have "p - 1 < length ps" "q - 1 < length ps" using p q by arith+
  ultimately have "p - 1 = q - 1" using assms(2) nth_eq_iff_index_eq by blast
  with p q show ?thesis by arith
qed

lemma list_position_get:
  assumes "storage_ok pl" "list_true ps pl" "distinct ps"
  shows "list_position pl page = Some pos \<longleftrightarrow> storage_get pl pos = Some page"
proof -
  have "list_position pl' page = Some pos \<Longrightarrow> (pos, page) \<in> set pl'" for pl'
    by (induction pl' page rule: list_position.induct) (auto split: if_splits)
  moreover have mem: "(pos', page') \<in> set pl \<longleftrightarrow> storage_get pl pos' = Some page'" for pos' page'
    using assms(1) by (simp add: storage_get_map_of storage_ok_def strict_sorted_iff)
  moreover have "(pos, page) \<in> set pl' \<Longrightarrow> \<exists>q. list_position pl' page = Some q" for pl'
    by (induction pl' page rule: list_position.induct) auto
  moreover have "p = q" if "storage_get pl p = Some page" "storage_get pl q = Some page" for p q
    using list_true_inj [OF assms(2,3) that refl] .
  moreover have "list_position pl' page = Some q \<Longrightarrow> (q, page) \<in> set pl'" for pl' q
    by (induction pl' page rule: list_position.induct) (auto split: if_splits)
  ultimately show ?thesis by blast
qed

lemma getPageCount_inv:
  assumes "pages_inv depth st ps"
  shows "\<exists>st'. getPageCount depth st = Some (Inr (length ps), st') \<and> pages_inv depth st' ps
    \<and> pageList st' = pageList st \<and> pages_doc st' = pages_doc st \<and> next_page st' = next_page st"
proof (cases "pageCount st = 0")
  case True
  from assms obtain r where r: "getPageTreeRoot (pages_doc st) = Some (Indirect r)"
    "pages_of depth (pages_doc st) (Indirect r) = Some ps" "cache_ok (pages_doc st) (Some (nodeCountCache st))"
    unfolding pages_inv_def by blast
  from getKidsCount_pages [OF r(2,3)] obtain c where
    c: "getKidsCount depth (pages_doc st) (Indirect r) (Some (nodeCountCache st)) = Some (length ps, c)"
      "cache_ok (pages_doc st) c" by blast
  with True r(1) assms put_cache_ok [OF r(3) c(2)] show ?thesis
    by (auto simp: getPageCount_def pages_inv_def)
next
  case False
  with assms show ?thesis by (auto simp: getPageCount_def pages_inv_def)
qed

lemma position_in_range_inv:
  assumes "pages_inv depth st ps"
  shows "\<exists>st'. position_in_range depth pos st = Some (Inr (1 \<le> pos \<and> pos \<le> length ps), st')
    \<and> pages_inv depth st' ps \<and> pageList st' = pageList st"
  using getPageCount_inv [OF assms] assms by (auto simp: position_in_range_def)

lemma list_true_insert:
  assumes "list_true ps pl" "1 \<le> pos" "pos \<le> length ps" "page_dict page = ps ! (pos - 1)"
  shows "list_true ps (map_insert pl pos page)"
  using assms by (auto simp: list_true_def split: option.splits if_splits)

lemma getPage_inv:
  assumes "pages_inv depth st ps"
  shows "(1 \<le> pos \<and> pos \<le> length ps \<longrightarrow>
      (\<exists>page st'. getPage depth pos st = Some (Inr page, st') \<and> page_dict page = ps ! (pos - 1)
         \<and> storage_get (pageList st') pos = Some page \<and> pages_inv depth st' ps
         \<and> (\<forall>q p. storage_get (pageList st) q = Some p \<longrightarrow> storage_get (pageList st') q = Some p)))
    \<and> (\<not> (1 \<le> pos \<and> pos \<le> length ps) \<longrightarrow>
      (\<exists>st'. getPage depth pos st = Some (Inl (PageNotFoundException pos), st') \<and> pages_inv depth st' ps
         \<and> pageList st' = pageList st))"
proof -
  from position_in_range_inv [OF assms, of pos] obtain st1 where
    st1: "position_in_range depth pos st = Some (Inr (1 \<le> pos \<and> pos \<le> length ps), st1)"
      "pages_inv depth st1 ps" "pageList st1 = pageList st" by blast
  have unlocked: "\<not> locked_doc st" using assms by (simp add: pages_inv_def)
  show ?thesis
  proof (cases "1 \<le> pos \<and> pos \<le> length ps")
    case False
    with st1 unlocked show ?thesis by (auto simp: getPage_def)
  next
    case True
    show ?thesis
    proof (cases "storage_get (pageList st) pos")
      case (Some page)
      with True st1 unlocked assms show ?thesis by (auto simp: getPage_def pages_inv_def list_true_def)
    next
      case None
      from st1(2) obtain r where r: "getPageTreeRoot (pages_doc st1) = Some (Indirect r)"
        "pages_of depth (pages_doc st1) (Indirect r) = Some ps" "cache_ok (pages_doc st1) (Some (nodeCountCache st1))"
        unfolding pages_inv_def by blast
      from page_at_position_spec [OF r, of pos] True obtain c where
        c: "findPageDict depth (pages_doc st1) (Indirect r) 1 pos (Some (nodeCountCache st1)) = Some (Inr (ps ! (pos - 1)), c)"
          "cache_ok (pages_doc st1) c" by auto
      let ?page = "CPage (next_page st1) (ps ! (pos - 1))"
      let ?st' = "(put_cache st1 c)\<lparr>pageList := map_insert (pageList st1) pos ?page, next_page := Suc (next_page st1)\<rparr>"
      have "getPage depth pos st = Some (Inr ?page, ?st')"
        using st1 True unlocked None r(1) c(1) by (simp add: getPage_def Let_def)
      moreover have "pages_inv depth ?st' ps"
        using st1(2) put_cache_ok [OF r(3) c(2)] True
        by (auto simp: pages_inv_def intro!: storage_ok_map_insert list_true_insert)
      ultimately show ?thesis using True None st1(3) by (auto intro!: exI [of _ ?st'])
    qed
  qed
qed

lemma getPagePosition_inv:
  assumes "pages_inv depth st ps"
  shows "getPagePosition page st = Inr pos \<longleftrightarrow> storage_get (pageList st) pos = Some page"
  using assms list_position_get [of "pageList st" ps page pos]
  by (auto simp: getPagePosition_def pages_inv_def split: option.split)

text \<open>
  Claim C11: pages handed out stay: the page at a position has the dictionary of the leaf there, its
  position is the one it was asked for, asking again gives the same instance, the following page is
  the one at the next position, and what was handed out before keeps its position.
\<close>

theorem pages_handed_out:
  assumes "pages_inv depth st ps" "1 \<le> pos" "pos \<le> length ps"
  shows "\<exists>page st'. getPage depth pos st = Some (Inr page, st') \<and> page_dict page = ps ! (pos - 1)
    \<and> pages_inv depth st' ps
    \<and> getPagePosition page st' = Inr pos
    \<and> (\<exists>st''. getPage depth pos st' = Some (Inr page, st'') \<and> pages_inv depth st'' ps)
    \<and> getNextPage depth page st' = getPage depth (pos + 1) st'
    \<and> (\<forall>p q. getPagePosition p st = Inr q \<longrightarrow> getPagePosition p st' = Inr q)"
proof -
  from getPage_inv [OF assms(1), of pos] assms(2,3) obtain page st' where
    g: "getPage depth pos st = Some (Inr page, st')" "page_dict page = ps ! (pos - 1)"
      "storage_get (pageList st') pos = Some page" "pages_inv depth st' ps"
      "\<forall>q p. storage_get (pageList st) q = Some p \<longrightarrow> storage_get (pageList st') q = Some p" by blast
  have pos: "getPagePosition page st' = Inr pos" using getPagePosition_inv [OF g(4)] g(3) by simp
  have "\<exists>st''. getPage depth pos st' = Some (Inr page, st'') \<and> pages_inv depth st'' ps"
  proof -
    from getPage_inv [OF g(4), of pos] assms(2,3) obtain page2 st'' where
      g2: "getPage depth pos st' = Some (Inr page2, st'')" "storage_get (pageList st'') pos = Some page2"
        "pages_inv depth st'' ps" "\<forall>q p. storage_get (pageList st') q = Some p \<longrightarrow> storage_get (pageList st'') q = Some p"
      by blast
    from g2(2,4) g(3) have "page2 = page" by auto
    with g2 show ?thesis by blast
  qed
  moreover have "getNextPage depth page st' = getPage depth (pos + 1) st'"
    by (simp add: getNextPage_def pos)
  moreover have "\<forall>p q. getPagePosition p st = Inr q \<longrightarrow> getPagePosition p st' = Inr q"
    using getPagePosition_inv [OF assms(1)] getPagePosition_inv [OF g(4)] g(5) by blast
  ultimately show ?thesis using g pos by blast
qed

definition sample_page_state :: page_state where
  "sample_page_state = \<lparr>pages_doc = sample_pages, pageList = [(3, CPage 0 (Indirect (Ref 5 0)))], pageCount = 0,
     nodeCountCache = [], next_page = 1, invalidated = [], locked_doc = False\<rparr>"

lemma sample_page_state_inv: "pages_inv 3 sample_page_state (map Indirect [Ref 3 0, Ref 4 0, Ref 5 0])"
  using sample_pages_tree
  by (auto simp: pages_inv_def sample_page_state_def list_true_def storage_ok_def cache_ok_def getCachedValue_def split: if_splits)

theorem pages_handed_out_witness:
  "\<exists>page st'. getPage 3 2 sample_page_state = Some (Inr page, st') \<and> page_dict page = Indirect (Ref 4 0)
    \<and> getNextPage 3 page st' = getPage 3 3 st'"
  using pages_handed_out [OF sample_page_state_inv, of 2] by auto

end
