(* ===== verification/Page_Consolidation.thy ===== *)
theory Page_Consolidation
  imports Page_List
begin

text \<open>
  The consolidation of the page tree and of the list of pages after a change of a \<^verbatim>\<open>Kids\<close> array,
  in \<^verbatim>\<open>src/src/kernel/cpdf.cc\<close>: \<^verbatim>\<open>consolidatePageTree\<close>, \<^verbatim>\<open>consolidatePageList\<close> and the
  observers that call them.
\<close>

section \<open>Consolidation of the tree\<close>

text \<open>
  \<^verbatim>\<open>consolidatePageTree\<close>: the \<^verbatim>\<open>Count\<close> of a node and the \<^verbatim>\<open>Parent\<close> of its kids are made true.  A
  \<^verbatim>\<open>Count\<close> that is a reference to a number is changed in the object it refers to.  A \<^verbatim>\<open>Parent\<close> that
  is not a reference makes \<^verbatim>\<open>getProperty\<close> throw.  A parent that is a direct dictionary is not
  followed here.
\<close>

definition put_node :: "document \<Rightarrow> page_tree_node \<Rightarrow> dict \<Rightarrow> document" where
  "put_node doc v d =
     (case v of
        Indirect r \<Rightarrow> doc\<lparr>objects := (objects doc)(r := XDict d)\<rparr>
      | Inline \<Rightarrow> doc\<lparr>catalog_dict := snd (dict_update (catalog_dict doc) ''Pages'' (XDict d))\<rparr>)"

definition consolidate_count :: "document \<Rightarrow> page_tree_node \<Rightarrow> dict \<Rightarrow> nat \<Rightarrow> document \<times> bool" where
  "consolidate_count doc v d count =
     (let new = XInt (int count);
          replaced = put_node doc v (dict_add (dict_drop d ''Count'') ''Count'' new)
      in case dict_find d ''Count'' of
        None \<Rightarrow> (put_node doc v (dict_add d ''Count'' new), True)
      | Some (XInt i) \<Rightarrow>
          if i = int count then (doc, False)
          else (put_node doc v (snd (dict_update d ''Count'' new)), True)
      | Some (XRefObj q) \<Rightarrow>
          (case objects doc q of
             XInt i \<Rightarrow> if i = int count then (doc, False) else (doc\<lparr>objects := (objects doc)(q := new)\<rparr>, True)
           | _ \<Rightarrow> (replaced, True))
      | Some _ \<Rightarrow> (replaced, True))"

definition consolidate_kid :: "ref \<Rightarrow> document \<Rightarrow> ref \<Rightarrow> exn option \<times> document" where
  "consolidate_kid parent doc r =
     (case node_dict doc (Indirect r) of
        None \<Rightarrow> (None, doc)
      | Some d \<Rightarrow>
          (case dict_find d ''Parent'' of
             None \<Rightarrow> (None, put_node doc (Indirect r) (dict_add d ''Parent'' (XRefObj parent)))
           | Some (XRefObj p) \<Rightarrow>
               (None, if p = parent then doc
                      else put_node doc (Indirect r) (snd (dict_update d ''Parent'' (XRefObj parent))))
           | Some _ \<Rightarrow> (Some ElementBadTypeException, doc)))"

fun consolidate_kids :: "ref \<Rightarrow> document \<Rightarrow> xobj list \<Rightarrow> exn option \<times> document" where
  "consolidate_kids parent doc [] = (None, doc)"
| "consolidate_kids parent doc (kid # kids) =
     (case kid of
        XRefObj r \<Rightarrow>
          if getNodeType doc (Indirect r) = ErrorNode \<or> getNodeType doc (Indirect r) = UnknownNode
          then consolidate_kids parent doc kids
          else (case consolidate_kid parent doc r of
                  (Some e, doc1) \<Rightarrow> (Some e, doc1)
                | (None, doc1) \<Rightarrow> consolidate_kids parent doc1 kids)
      | _ \<Rightarrow> consolidate_kids parent doc kids)"

fun consolidatePageTree ::
    "nat \<Rightarrow> nat \<Rightarrow> document \<Rightarrow> page_cache \<Rightarrow> page_tree_node \<Rightarrow> bool
     \<Rightarrow> (bool result \<times> document \<times> page_cache) option" where
  "consolidatePageTree depth 0 doc cache v propagate = None"
| "consolidatePageTree depth (Suc fuel) doc cache v propagate =
     (case node_dict doc v of
        None \<Rightarrow> Some (Inr True, doc, cache)
      | Some d \<Rightarrow>
          if \<not> intermediate (getNodeType doc v) then Some (Inr True, doc, cache)
          else case getKidsCount depth doc v None of
            None \<Rightarrow> None
          | Some (count, _) \<Rightarrow>
              let (doc1, changed) = consolidate_count doc v d count;
                  cache1 = (if changed then discardCachedEntry (node_ref doc v) cache else cache);
                  kids = getKidsFromInterNode doc1 (case node_dict doc1 v of None \<Rightarrow> [] | Some d1 \<Rightarrow> d1)
              in case consolidate_kids (node_ref doc v) doc1 kids of
                (Some e, doc2) \<Rightarrow> Some (Inl e, doc2, cache1)
              | (None, doc2) \<Rightarrow>
                  if changed \<and> propagate \<and> getNodeType doc v \<noteq> RootNode then
                    (case (case node_dict doc2 v of None \<Rightarrow> None | Some d2 \<Rightarrow> dict_find d2 ''Parent'') of
                       Some (XRefObj p) \<Rightarrow>
                         (case objects doc2 p of
                            XDict pd \<Rightarrow> consolidatePageTree depth fuel doc2 cache1 (Indirect p) True
                          | _ \<Rightarrow> Some (Inr False, doc2, cache1))
                     | _ \<Rightarrow> Some (Inr False, doc2, cache1))
                  else Some (Inr (\<not> changed), doc2, cache1))"

section \<open>Consolidation of the list\<close>

text \<open>
  \<^verbatim>\<open>consolidatePageList\<close> with the references before and after the change.  What is neither a
  reference nor a dictionary counts as no value; dictionaries that are direct members of \<^verbatim>\<open>Kids\<close>
  are not modelled.
\<close>

fun remove_page :: "page_tree_node \<Rightarrow> (nat, cpage) storage \<Rightarrow> (nat \<times> cpage) option \<times> (nat, cpage) storage" where
  "remove_page v [] = (None, [])"
| "remove_page v ((pos, page) # ps) =
     (if page_dict page = v then (Some (pos, page), ps)
      else case remove_page v ps of (hit, ps1) \<Rightarrow> (hit, (pos, page) # ps1))"

text \<open>The loop for a subtree: it stops behind the last page of the subtree.\<close>

fun remove_subtree ::
    "(cpage \<Rightarrow> bool option) \<Rightarrow> bool \<Rightarrow> nat \<Rightarrow> (nat, cpage) storage
     \<Rightarrow> (nat \<times> cpage list \<times> (nat, cpage) storage) option" where
  "remove_subtree below found minPos [] = Some (minPos, [], [])"
| "remove_subtree below found minPos ((pos, page) # ps) =
     (case below page of
        None \<Rightarrow> None
      | Some True \<Rightarrow>
          map_option (\<lambda>(m, gone, keep). (m, page # gone, keep)) (remove_subtree below True (max minPos pos) ps)
      | Some False \<Rightarrow>
          if found then Some (minPos, [], (pos, page) # ps)
          else map_option (\<lambda>(m, gone, keep). (m, gone, (pos, page) # keep)) (remove_subtree below found minPos ps))"

definition remove_old :: "nat \<Rightarrow> ref option \<Rightarrow> page_state \<Rightarrow> (int \<times> nat \<times> page_state) option" where
  "remove_old depth old st =
     (case old of
        None \<Rightarrow> Some (0, 0, st)
      | Some r \<Rightarrow>
          let t = getNodeType (pages_doc st) (Indirect r) in
          if t = LeafNode then
            (case remove_page (Indirect r) (pageList st) of
               (None, ps) \<Rightarrow> Some (-1, 0, st)
             | (Some (pos, page), ps) \<Rightarrow>
                 Some (-1, pos, st\<lparr>pageList := ps, invalidated := invalidated st @ [page_id page]\<rparr>))
          else if intermediate t then
            (case getKidsCount depth (pages_doc st) (Indirect r) (Some (nodeCountCache st)) of
               None \<Rightarrow> None
             | Some (n, cache) \<Rightarrow>
                 (case remove_subtree
                    (\<lambda>page. case node_dict (pages_doc st) (page_dict page) of
                       None \<Rightarrow> Some False | Some d \<Rightarrow> isNodeDescendant depth (pages_doc st) r d)
                    False 0 (pageList st) of
                    None \<Rightarrow> None
                  | Some (minPos, gone, keep) \<Rightarrow>
                      Some (- int n, minPos, (put_cache st cache)
                        \<lparr>pageList := keep, invalidated := invalidated st @ map page_id gone\<rparr>)))
          else Some (0, 0, st))"

definition add_new :: "nat \<Rightarrow> ref option \<Rightarrow> nat \<Rightarrow> page_state \<Rightarrow> (int \<times> nat \<times> page_state) option" where
  "add_new depth new minPos st =
     (case new of
        None \<Rightarrow> Some (0, minPos, st)
      | Some r \<Rightarrow>
          let t = getNodeType (pages_doc st) (Indirect r) in
          (case (if t = LeafNode then Some (1, Some (nodeCountCache st))
                 else if intermediate t then getKidsCount depth (pages_doc st) (Indirect r) (Some (nodeCountCache st))
                 else Some (0, Some (nodeCountCache st))) of
             None \<Rightarrow> None
           | Some (n, cache) \<Rightarrow>
               (case getNodePosition depth (pages_doc st) (Indirect r) cache of
                  None \<Rightarrow> None
                | Some (Inr pos, cache1) \<Rightarrow> Some (int n, pos, put_cache st cache1)
                | Some (Inl e, cache1) \<Rightarrow> Some (int n, minPos, put_cache st cache1))))"

text \<open>
  Without a position everything is searched again: ambiguous pages are invalidated, any other
  error is an assertion.
\<close>

fun relocate :: "nat \<Rightarrow> (nat, cpage) storage \<Rightarrow> page_state \<Rightarrow> (unit result \<times> page_state) option" where
  "relocate depth [] st = Some (Inr (), st)"
| "relocate depth ((old, page) # ps) st =
     (case getNodePosition depth (pages_doc st) (page_dict page) (Some (nodeCountCache st)) of
        None \<Rightarrow> None
      | Some (Inr pos, cache) \<Rightarrow>
          relocate depth ps ((put_cache st cache)\<lparr>pageList := map_insert (pageList st) pos page\<rparr>)
      | Some (Inl AmbiguousPageTreeException, cache) \<Rightarrow>
          relocate depth ps ((put_cache st cache)\<lparr>invalidated := invalidated st @ [page_id page]\<rparr>)
      | Some (Inl e, cache) \<Rightarrow> Some (Inl UndefinedBehaviour, put_cache st cache))"

definition place_pages ::
    "(nat \<Rightarrow> cpage \<Rightarrow> nat) \<Rightarrow> (nat, cpage) storage \<Rightarrow> (nat, cpage) storage \<Rightarrow> (nat, cpage) storage" where
  "place_pages f moved kept = foldl (\<lambda>m (pos, page). map_insert m (f pos page) page) kept moved"

definition shift_pages :: "int \<Rightarrow> (nat, cpage) storage \<Rightarrow> (nat, cpage) storage \<Rightarrow> (nat, cpage) storage" where
  "shift_pages difference = place_pages (\<lambda>pos page. nat (int pos + difference))"

definition consolidatePageList ::
    "nat \<Rightarrow> ref option \<Rightarrow> ref option \<Rightarrow> page_state \<Rightarrow> (unit result \<times> page_state) option" where
  "consolidatePageList depth old new st =
     (case remove_old depth old st of
        None \<Rightarrow> None
      | Some (d1, min1, st1) \<Rightarrow>
          (case add_new depth new min1 st1 of
             None \<Rightarrow> None
           | Some (d2, minPos, st2) \<Rightarrow>
               let difference = d1 + d2 in
               if difference = 0 then Some (Inr (), st2)
               else
                 let moved = filter (\<lambda>(pos, page). pos \<ge> minPos) (pageList st2);
                     kept = filter (\<lambda>(pos, page). \<not> pos \<ge> minPos) (pageList st2)
                 in if minPos = 0 then relocate depth moved (st2\<lparr>pageList := kept\<rparr>)
                    else Some (Inr (), st2\<lparr>pageList := shift_pages difference moved kept\<rparr>)))"

section \<open>Changes of a Kids array\<close>

text \<open>
  \<^verbatim>\<open>PageTreeKidsObserver::notify\<close>, after an element of the \<^verbatim>\<open>Kids\<close> array of the node \<open>parent\<close> has
  changed: tree, list and caches are consolidated; the exceptions of the two are logged.
\<close>

definition kids_notify ::
    "nat \<Rightarrow> nat \<Rightarrow> ref \<Rightarrow> ref option \<Rightarrow> ref option \<Rightarrow> page_state \<Rightarrow> (unit result \<times> page_state) option" where
  "kids_notify depth fuel parent old new st =
     (if old = None \<and> new = None then Some (Inr (), st)
      else case objects (pages_doc st) parent of
        XDict pd \<Rightarrow>
          (case consolidatePageTree depth fuel (pages_doc st) (nodeCountCache st) (Indirect parent) True of
             None \<Rightarrow> None
           | Some (res, doc1, cache1) \<Rightarrow>
               let st1 = st\<lparr>pages_doc := doc1, nodeCountCache := cache1\<rparr>;
                   st2 = (if res = Inr False then st1\<lparr>pageCount := 0\<rparr> else st1)
               in case consolidatePageList depth old new st2 of
                 None \<Rightarrow> None
               | Some (Inl UndefinedBehaviour, st3) \<Rightarrow> Some (Inl UndefinedBehaviour, st3)
               | Some (_, st3) \<Rightarrow>
                   (case old of
                      None \<Rightarrow> Some (Inr (), st3)
                    | Some r \<Rightarrow>
                        map_option (\<lambda>c. (Inr (), st3\<lparr>nodeCountCache := c\<rparr>))
                          (discardKidsCountCache depth (pages_doc st3) True r (nodeCountCache st3))))
      | _ \<Rightarrow> Some (Inr (), st))"

text \<open>\<^verbatim>\<open>PageTreeRootObserver::notify\<close>: everything known about the pages is dropped.\<close>

definition root_notify :: "page_state \<Rightarrow> page_state" where
  "root_notify st =
     st\<lparr>pageCount := 0, invalidated := invalidated st @ map (page_id \<circ> snd) (pageList st),
        pageList := storage_empty, nodeCountCache := storage_clear (nodeCountCache st)\<rparr>"

section \<open>The tree after the consolidation\<close>

text \<open>Changes that are none for the reading of the tree: of numbers, and of other entries of dictionaries.\<close>

definition same_value :: "xobj \<Rightarrow> xobj \<Rightarrow> bool" where
  "same_value x y \<longleftrightarrow> x = y \<or> (\<exists>i j. x = XInt i \<and> y = XInt j)
     \<or> (\<exists>d d'. x = XDict d \<and> y = XDict d' \<and> (\<forall>k\<in>{''Type'', ''Kids''}. dict_find d' k = dict_find d k))"

definition same_tree :: "document \<Rightarrow> document \<Rightarrow> bool" where
  "same_tree d d' \<longleftrightarrow> catalog_dict d' = catalog_dict d \<and> catalog_ref d' = catalog_ref d
     \<and> (\<forall>r. same_value (objects d r) (objects d' r))"

lemma same_tree_refl [simp]: "same_tree d d"
  by (simp add: same_tree_def same_value_def)

lemma same_value_trans: "same_value x y \<Longrightarrow> same_value y z \<Longrightarrow> same_value x z"
  by (auto simp: same_value_def)

lemma same_tree_trans: "same_tree d e \<Longrightarrow> same_tree e f \<Longrightarrow> same_tree d f"
  unfolding same_tree_def using same_value_trans by metis

lemma same_tree_update:
  assumes "same_value (objects d r) v"
  shows "same_tree d (d\<lparr>objects := (objects d)(r := v)\<rparr>)"
  using assms by (simp add: same_tree_def) (simp add: same_value_def)

lemma same_tree_value: "same_tree d d' \<Longrightarrow> same_value (getReferencedObject d v) (getReferencedObject d' v)"
  by (cases v) (simp_all add: getReferencedObject_def same_tree_def, simp_all add: same_value_def)

lemma same_value_XName:
  "same_value x y \<Longrightarrow> (case y of XName n \<Rightarrow> f n | _ \<Rightarrow> u) = (case x of XName n \<Rightarrow> f n | _ \<Rightarrow> u)"
  by (auto simp: same_value_def)

lemma same_value_XArray:
  "same_value x y \<Longrightarrow> (case y of XArray n \<Rightarrow> f n | _ \<Rightarrow> u) = (case x of XArray n \<Rightarrow> f n | _ \<Rightarrow> u)"
  by (auto simp: same_value_def)

lemma same_tree_root:
  assumes "same_tree d d'"
  shows "getPageTreeRoot d' = getPageTreeRoot d"
proof -
  have "(case objects d' r of XDict e \<Rightarrow> Some (Indirect r) | _ \<Rightarrow> None)
      = (case objects d r of XDict e \<Rightarrow> Some (Indirect r) | _ \<Rightarrow> None)" for r
    using assms unfolding same_tree_def by (auto simp: same_value_def dest: spec [of _ r])
  then show ?thesis using assms by (simp add: getPageTreeRoot_def same_tree_def split: option.split xobj.split)
qed

lemma same_tree_dict:
  assumes "same_tree d d'"
  shows "node_dict d v = None \<and> node_dict d' v = None
    \<or> (\<exists>e e'. node_dict d v = Some e \<and> node_dict d' v = Some e' \<and> (\<forall>k\<in>{''Type'', ''Kids''}. dict_find e' k = dict_find e k))"
proof (cases v)
  case (Indirect r)
  have "same_value (objects d r) (objects d' r)" using assms by (simp add: same_tree_def)
  then show ?thesis by (auto simp: Indirect node_dict_def same_value_def split: xobj.split)
next
  case Inline
  then show ?thesis using assms by (auto simp: node_dict_def same_tree_def split: xobj.split)
qed

lemma same_tree_type:
  assumes "same_tree d d'"
  shows "getNodeType d' v = getNodeType d v"
  using same_tree_dict [OF assms, of v] same_tree_value [OF assms, THEN same_value_XName]
    same_tree_value [OF assms, THEN same_value_XArray]
  by (auto simp: getNodeType_def same_tree_root [OF assms] split: option.split)

lemma same_tree_kids:
  assumes "same_tree d d'" "dict_find e' ''Kids'' = dict_find e ''Kids''"
  shows "getKidsFromInterNode d' e' = getKidsFromInterNode d e"
  using assms(2) same_tree_value [OF assms(1), THEN same_value_XArray]
  by (auto simp: getKidsFromInterNode_def split: option.split)

lemma same_tree_pages:
  assumes "same_tree d d'"
  shows "pages_of n d' v = pages_of n d v"
proof (induction n arbitrary: v)
  case (Suc n)
  have f: "pages_of n d' = pages_of n d" using Suc.IH by (simp add: fun_eq_iff)
  have k: "pages_of_kids g d' kids = pages_of_kids g d kids" for g kids
    by (induction kids) (auto simp: same_tree_type [OF assms] split: xobj.split)
  show ?case
    using same_tree_dict [OF assms, of v] same_tree_kids [OF assms]
    by (auto simp: same_tree_type [OF assms] f k split: PageTreeNodeType.split)
qed simp

text \<open>What the consolidation of the kids changes: only \<^verbatim>\<open>Parent\<close>, and never one that is right.\<close>

definition parent_value :: "ref \<Rightarrow> xobj \<Rightarrow> xobj \<Rightarrow> bool" where
  "parent_value p x y \<longleftrightarrow> y = x
     \<or> (\<exists>e e'. x = XDict e \<and> y = XDict e' \<and> (\<forall>k. k \<noteq> ''Parent'' \<longrightarrow> dict_find e' k = dict_find e k)
          \<and> dict_find e' ''Parent'' = Some (XRefObj p))"

definition parents_only :: "ref \<Rightarrow> document \<Rightarrow> document \<Rightarrow> bool" where
  "parents_only p d d' \<longleftrightarrow> catalog_dict d' = catalog_dict d \<and> catalog_ref d' = catalog_ref d
     \<and> (\<forall>q. parent_value p (objects d q) (objects d' q))"

lemma parent_value_refl [simp]: "parent_value p x x"
  by (simp add: parent_value_def)

lemma parents_only_refl [simp]: "parents_only p d d"
  by (simp add: parents_only_def)

lemma parent_value_trans: "parent_value p x y \<Longrightarrow> parent_value p y z \<Longrightarrow> parent_value p x z"
  by (auto simp: parent_value_def)

lemma parents_only_trans: "parents_only p d e \<Longrightarrow> parents_only p e f \<Longrightarrow> parents_only p d f"
  unfolding parents_only_def using parent_value_trans by metis

lemma parent_value_same: "parent_value p x y \<Longrightarrow> same_value x y"
  by (auto simp: parent_value_def same_value_def)

lemma parents_only_same: "parents_only p d d' \<Longrightarrow> same_tree d d'"
  unfolding parents_only_def same_tree_def using parent_value_same by blast

lemma parents_only_update:
  assumes "objects d r = XDict e" "\<And>k. k \<noteq> ''Parent'' \<Longrightarrow> dict_find e' k = dict_find e k"
    and "dict_find e' ''Parent'' = Some (XRefObj p)"
  shows "parents_only p d (put_node d (Indirect r) e')"
  using assms by (auto simp: parents_only_def parent_value_def put_node_def)

lemma consolidate_kid_frame:
  assumes "consolidate_kid p d r = (None, d')"
  shows "parents_only p d d'
    \<and> (\<forall>e. objects d r = XDict e \<longrightarrow> (\<exists>e'. objects d' r = XDict e' \<and> dict_find e' ''Parent'' = Some (XRefObj p)))"
proof (cases "node_dict d (Indirect r)")
  case None
  with assms show ?thesis by (auto simp: consolidate_kid_def node_dict_def)
next
  case (Some e)
  then have e: "objects d r = XDict e" by (auto simp: node_dict_def split: xobj.splits)
  show ?thesis
  proof (cases "dict_find e ''Parent''")
    case None
    then have "dict_find (dict_add e ''Parent'' (XRefObj p)) k = (if k = ''Parent'' then Some (XRefObj p) else dict_find e k)" for k
      by (auto simp: dict_add_def dict_find_append split: option.split)
    with parents_only_update [OF e, of "dict_add e ''Parent'' (XRefObj p)" p] None assms Some e show ?thesis
      by (auto simp: consolidate_kid_def put_node_def)
  next
    case (Some v)
    with assms \<open>node_dict d (Indirect r) = _\<close> obtain q where q: "v = XRefObj q"
      by (cases v) (simp_all add: consolidate_kid_def)
    show ?thesis
    proof (cases "q = p")
      case True
      with assms Some \<open>node_dict d (Indirect r) = _\<close> e q show ?thesis by (simp add: consolidate_kid_def)
    next
      case False
      with assms Some \<open>node_dict d (Indirect r) = _\<close> e q
        parents_only_update [OF e, of "snd (dict_update e ''Parent'' (XRefObj p))" p] show ?thesis
        by (auto simp: consolidate_kid_def put_node_def)
    qed
  qed
qed

lemma consolidate_kids_frame:
  "consolidate_kids p d kids = (None, d') \<Longrightarrow> parents_only p d d'
    \<and> (\<forall>r. XRefObj r \<in> set kids \<longrightarrow> getNodeType d (Indirect r) \<notin> {ErrorNode, UnknownNode} \<longrightarrow>
         (\<exists>e'. objects d' r = XDict e' \<and> dict_find e' ''Parent'' = Some (XRefObj p)))"
proof (induction kids arbitrary: d)
  case (Cons kid kids)
  show ?case
  proof (cases "\<exists>r. kid = XRefObj r \<and> getNodeType d (Indirect r) \<notin> {ErrorNode, UnknownNode}")
    case False
    with Cons show ?thesis by (cases kid) auto
  next
    case True
    then obtain r where kid: "kid = XRefObj r" and t: "getNodeType d (Indirect r) \<notin> {ErrorNode, UnknownNode}" by blast
    with Cons.prems obtain d1 where d1: "consolidate_kid p d r = (None, d1)" "consolidate_kids p d1 kids = (None, d')"
      by (auto split: prod.splits option.splits)
    note f1 = consolidate_kid_frame [OF d1(1)]
    have nt: "getNodeType d1 v = getNodeType d v" for v
      using same_tree_type [OF parents_only_same] f1 by blast
    have IH: "parents_only p d1 d'" "\<forall>r. XRefObj r \<in> set kids \<longrightarrow> getNodeType d1 (Indirect r) \<notin> {ErrorNode, UnknownNode} \<longrightarrow>
         (\<exists>e'. objects d' r = XDict e' \<and> dict_find e' ''Parent'' = Some (XRefObj p))"
      using Cons.IH [OF d1(2)] by blast+
    have "node_dict d (Indirect r) \<noteq> None" using t by (auto simp: ErrorNode_iff [symmetric])
    then obtain e where "objects d r = XDict e" by (auto simp: node_dict_def split: xobj.splits)
    with f1 obtain e1 where e1: "objects d1 r = XDict e1" "dict_find e1 ''Parent'' = Some (XRefObj p)" by blast
    have "\<exists>e'. objects d' r = XDict e' \<and> dict_find e' ''Parent'' = Some (XRefObj p)"
      using IH(1) e1 unfolding parents_only_def parent_value_def by metis
    with IH nt parents_only_trans [OF conjunct1 [OF f1] IH(1)] kid show ?thesis by auto
  qed
qed simp

lemma consolidate_count_frame:
  assumes "objects d r = XDict e" "distinct (map fst e)" "consolidate_count d (Indirect r) e n = (d', changed)"
  shows "same_tree d d'
    \<and> (\<exists>e'. objects d' r = XDict e' \<and> dict_find e' ''Kids'' = dict_find e ''Kids''
        \<and> map_option (getReferencedObject d') (dict_find e' ''Count'') = Some (XInt (int n))
        \<and> (\<forall>q. dict_find e' ''Count'' = Some (XRefObj q) \<longrightarrow> objects d' q = XInt (int n)))"
proof -
  let ?new = "XInt (int n)"
  have put: "same_tree d (put_node d (Indirect r) e')
      \<and> (\<exists>e''. objects (put_node d (Indirect r) e') r = XDict e'' \<and> dict_find e'' ''Kids'' = dict_find e ''Kids''
          \<and> map_option (getReferencedObject (put_node d (Indirect r) e')) (dict_find e'' ''Count'') = Some ?new
          \<and> (\<forall>q. dict_find e'' ''Count'' = Some (XRefObj q) \<longrightarrow> objects (put_node d (Indirect r) e') q = ?new))"
    if "\<And>k. dict_find e' k = (if k = ''Count'' then Some ?new else dict_find e k)" for e'
    using same_tree_update [of d r "XDict e'"] that assms(1)
    by (auto simp: put_node_def same_value_def getReferencedObject_def)
  have repl: "dict_find (dict_add (dict_drop e ''Count'') ''Count'' ?new) k = (if k = ''Count'' then Some ?new else dict_find e k)" for k
    by (auto simp: dict_add_def dict_find_append dict_drop_find [OF assms(2)] split: option.split)
  have upd: "dict_find (snd (dict_update e ''Count'' ?new)) k = (if k = ''Count'' then Some ?new else dict_find e k)" for k
    by simp
  have add: "dict_find e ''Count'' = None \<Longrightarrow>
      dict_find (dict_add e ''Count'' ?new) k = (if k = ''Count'' then Some ?new else dict_find e k)" for k
    by (auto simp: dict_add_def dict_find_append split: option.split)
  consider (none) "dict_find e ''Count'' = None" | (int) i where "dict_find e ''Count'' = Some (XInt i)"
    | (indirect) q i where "dict_find e ''Count'' = Some (XRefObj q)" "objects d q = XInt i"
    | (bad) "d' = put_node d (Indirect r) (dict_add (dict_drop e ''Count'') ''Count'' ?new)"
    using assms(3) by (cases "dict_find e ''Count''") (auto simp: consolidate_count_def Let_def split: xobj.splits)
  then show ?thesis
  proof cases
    case none
    with assms(3) put [OF add] show ?thesis by (auto simp: consolidate_count_def Let_def)
  next
    case int
    with assms(1,3) put [OF upd] show ?thesis
      by (auto simp: consolidate_count_def Let_def getReferencedObject_def split: if_splits)
  next
    case indirect
    then have "q \<noteq> r" using assms(1) by auto
    moreover have "same_tree d (d\<lparr>objects := (objects d)(q := ?new)\<rparr>)"
      by (rule same_tree_update) (simp add: indirect(2) same_value_def)
    ultimately show ?thesis using assms(1,3) indirect
      by (auto simp: consolidate_count_def Let_def getReferencedObject_def split: if_splits)
  next
    case bad
    with put [OF repl] show ?thesis by auto
  qed
qed



section \<open>The list after a change of the tree\<close>

lemma remove_page_None: "\<forall>x\<in>set pl. page_dict (snd x) \<noteq> v \<Longrightarrow> remove_page v pl = (None, pl)"
  by (induction v pl rule: remove_page.induct) auto

lemma remove_page_Some:
  "(k, pg) \<in> set pl \<Longrightarrow> page_dict pg = v \<Longrightarrow> \<forall>x\<in>set pl. page_dict (snd x) = v \<longrightarrow> x = (k, pg) \<Longrightarrow>
   distinct (map fst pl) \<Longrightarrow> remove_page v pl = (Some (k, pg), storage_erase pl k)"
proof (induction v pl rule: remove_page.induct)
  case (2 v p page pl)
  show ?case
  proof (cases "page_dict page = v")
    case True
    then have "(p, page) = (k, pg)" using "2.prems"(3) by (metis list.set_intros(1) snd_conv)
    with True show ?thesis by simp
  next
    case False
    then have mem: "(k, pg) \<in> set pl" using "2.prems"(1,2) by auto
    then have "p \<noteq> k" using "2.prems"(4) by (force simp: image_iff)
    moreover have "remove_page v pl = (Some (k, pg), storage_erase pl k)"
      using "2.IH" [OF False mem "2.prems"(2)] "2.prems"(3,4) by simp
    ultimately show ?thesis using False by simp
  qed
qed simp

lemma map_insert_get:
  "storage_get (map_insert m k v) q = Some w \<Longrightarrow> storage_get m q = Some w \<or> q = k \<and> w = v"
  by (auto split: if_splits option.splits)

lemma place_pages_Cons:
  "place_pages f ((p, page) # moved) kept = place_pages f moved (map_insert kept (f p page) page)"
  by (simp add: place_pages_def)

lemma place_pages_from:
  "storage_get (place_pages f moved kept) q = Some page \<Longrightarrow>
   storage_get kept q = Some page \<or> (\<exists>p. (p, page) \<in> set moved \<and> q = f p page)"
proof (induction moved arbitrary: kept)
  case Nil
  then show ?case by (simp add: place_pages_def)
next
  case (Cons m moved)
  obtain p pg where m: "m = (p, pg)" by force
  from Cons.IH [of "map_insert kept (f p pg) pg"] Cons.prems map_insert_get
  show ?case unfolding m place_pages_Cons by fastforce
qed

lemma place_pages_keeps: "storage_get kept q = Some page \<Longrightarrow> storage_get (place_pages f moved kept) q = Some page"
proof (induction moved arbitrary: kept)
  case (Cons m moved)
  obtain p pg where m: "m = (p, pg)" by force
  have "storage_get (map_insert kept (f p pg) pg) q = Some page" using Cons.prems by auto
  from Cons.IH [OF this] show ?case unfolding m place_pages_Cons .
qed (simp add: place_pages_def)

lemma place_pages_moves:
  assumes "(p, page) \<in> set moved" "distinct (map (\<lambda>(p, page). f p page) moved)"
    and "\<And>p' pg. (p', pg) \<in> set moved \<Longrightarrow> storage_get kept (f p' pg) = None"
  shows "storage_get (place_pages f moved kept) (f p page) = Some page"
  using assms
proof (induction moved arbitrary: kept)
  case (Cons m moved)
  obtain q pg where m: "m = (q, pg)" by force
  show ?case
  proof (cases "(p, page) = m")
    case True
    with Cons.prems(3) [of q pg] show ?thesis
      unfolding m place_pages_Cons by (auto simp: m intro!: place_pages_keeps)
  next
    case False
    with Cons.prems(1) have p: "(p, page) \<in> set moved" by simp
    have "storage_get (map_insert kept (f q pg) pg) (f p' pg') = None" if "(p', pg') \<in> set moved" for p' pg'
    proof -
      have "f p' pg' \<noteq> f q pg" using Cons.prems(2) that by (force simp: m)
      with Cons.prems(3) [of p' pg'] that show ?thesis by (auto simp: m)
    qed
    from Cons.IH [OF p _ this] Cons.prems(2) show ?thesis unfolding m place_pages_Cons by simp
  qed
qed simp

lemma storage_ok_place [inv_intros]: "storage_ok kept \<Longrightarrow> storage_ok (place_pages f moved kept)"
proof (induction moved arbitrary: kept)
  case (Cons m moved)
  obtain q pg where m: "m = (q, pg)" by force
  from Cons show ?case unfolding m place_pages_Cons by (simp add: storage_ok_map_insert)
qed (simp add: place_pages_def)

lemma storage_ok_filter [inv_intros]: "storage_ok m \<Longrightarrow> storage_ok (filter P m)"
  unfolding storage_ok_def by (induction m) auto

lemma storage_get_filter:
  assumes "storage_ok m"
  shows "storage_get (filter P m) k = Some v \<longleftrightarrow> storage_get m k = Some v \<and> P (k, v)"
  using assms storage_ok_filter [OF assms, of P] by (simp add: storage_get_iff)

text \<open>
  What the consolidation is to do: from a list that is true of \<open>ps\<close> it makes one that is true of
  \<open>ps'\<close> and has every page that is still there, as the same instance.
\<close>

definition consolidated :: "page_tree_node list \<Rightarrow> (nat, cpage) storage \<Rightarrow> (nat, cpage) storage \<Rightarrow> bool" where
  "consolidated ps' pl pl' \<longleftrightarrow> list_true ps' pl' \<and> storage_ok pl'
     \<and> (\<forall>pos page. storage_get pl pos = Some page \<and> page_dict page \<in> set ps' \<longrightarrow>
          (\<exists>pos'. storage_get pl' pos' = Some page))"

text \<open>Pages behind a change keep their distance.\<close>

lemma shift_consolidated:
  assumes pl: "storage_ok pl" "list_true ps pl"
    and ps: "ps = xs @ old @ ys" "ps' = xs @ new @ ys" "d = int (length new) - int (length old)"
    and m: "length xs < minPos" "minPos \<le> length xs + length old + 1"
    and free: "\<And>pos page. storage_get pl pos = Some page \<Longrightarrow> pos \<le> length xs \<or> length xs + length old < pos"
  shows "consolidated ps' pl (shift_pages d (filter (\<lambda>(pos, page). pos \<ge> minPos) pl) (filter (\<lambda>(pos, page). \<not> pos \<ge> minPos) pl))"
    (is "consolidated ps' pl (shift_pages d ?moved ?kept)")
proof -
  have kept: "storage_get ?kept q = Some page \<longleftrightarrow> storage_get pl q = Some page \<and> q \<le> length xs" for q page
    using storage_get_filter [OF pl(1), of "\<lambda>(pos, page). \<not> pos \<ge> minPos" q page] free [of q page] m by auto
  have moved: "(q, page) \<in> set ?moved \<longleftrightarrow> storage_get pl q = Some page \<and> length xs + length old < q" for q page
    using free [of q page] m by (auto simp: storage_get_iff [OF pl(1)])
  have "list_true ps' (shift_pages d ?moved ?kept)"
    unfolding list_true_def
  proof (intro allI impI)
    fix pos page
    assume g: "storage_get (shift_pages d ?moved ?kept) pos = Some page"
    consider (k) "storage_get pl pos = Some page" "pos \<le> length xs"
      | (m) q where "storage_get pl q = Some page" "length xs + length old < q" "pos = nat (int q + d)"
      using place_pages_from [OF g [unfolded shift_pages_def]] kept moved by blast
    then show "1 \<le> pos \<and> pos \<le> length ps' \<and> page_dict page = ps' ! (pos - 1)"
    proof cases
      case k
      note t = list_trueD [OF pl(2) k(1)]
      have i: "pos - 1 < length xs" using k(2) t(1) by arith
      then have "ps' ! (pos - 1) = ps ! (pos - 1)" by (simp add: ps nth_append)
      with t k(2) show ?thesis by (simp add: ps)
    next
      case m2: m
      note t = list_trueD [OF pl(2) m2(1)]
      define j where "j = q - 1 - length xs - length old"
      have q: "q = length xs + length old + j + 1" using m2(2) by (simp add: j_def)
      have pos: "pos = length xs + length new + j + 1" using m2(3) by (simp add: q ps(3))
      have "ps' ! (pos - 1) = ps ! (q - 1)" by (simp add: ps pos q nth_append)
      with t show ?thesis by (simp add: ps pos q)
    qed
  qed
  moreover have "storage_ok (shift_pages d ?moved ?kept)"
    unfolding shift_pages_def by (intro storage_ok_place storage_ok_filter pl(1))
  moreover have "\<exists>pos'. storage_get (shift_pages d ?moved ?kept) pos' = Some page"
    if g: "storage_get pl pos = Some page" for pos page
  proof (cases "pos \<le> length xs")
    case True
    with g kept show ?thesis unfolding shift_pages_def using place_pages_keeps by blast
  next
    case False
    with free [OF g] g moved have "(pos, page) \<in> set ?moved" by blast
    moreover have "distinct (map (\<lambda>(p, page). nat (int p + d)) ?moved)"
    proof -
      have "inj_on (\<lambda>p. nat (int p + d)) (fst ` set ?moved)"
        using moved ps(3) by (intro inj_onI) fastforce
      then have "distinct (map (\<lambda>p. nat (int p + d)) (map fst ?moved))"
        unfolding distinct_map [of _ "map fst ?moved"] set_map
        using storage_ok_distinct [OF storage_ok_filter [OF pl(1)]] by blast
      then show ?thesis by (simp add: comp_def case_prod_unfold)
    qed
    moreover have "storage_get ?kept (nat (int p' + d)) = None" if "(p', pg) \<in> set ?moved" for p' pg
    proof -
      from that moved have "length xs + length old < p'" by blast
      with ps(3) have "\<not> nat (int p' + d) \<le> length xs" by auto
      with kept show ?thesis by (meson not_None_eq)
    qed
    ultimately show ?thesis
      unfolding shift_pages_def using place_pages_moves [of pos page ?moved "\<lambda>p page. nat (int p + d)" ?kept] by blast
  qed
  ultimately show ?thesis unfolding consolidated_def by blast
qed

text \<open>Searching all pages again finds each one that is in the tree.\<close>

lemma relocate_place:
  "getPageTreeRoot (pages_doc st) = Some (Indirect r) \<Longrightarrow> pages_of depth (pages_doc st) (Indirect r) = Some ps \<Longrightarrow>
   distinct ps \<Longrightarrow> cache_ok (pages_doc st) (Some (nodeCountCache st)) \<Longrightarrow>
   \<forall>x\<in>set moved. page_dict (snd x) \<in> set ps \<Longrightarrow>
   \<exists>st'. relocate depth moved st = Some (Inr (), st')
     \<and> pageList st' = place_pages (\<lambda>p page. position_in ps (page_dict page) 1) moved (pageList st)
     \<and> pages_doc st' = pages_doc st \<and> cache_ok (pages_doc st) (Some (nodeCountCache st'))
     \<and> pageCount st' = pageCount st \<and> locked_doc st' = locked_doc st"
proof (induction moved arbitrary: st)
  case (Cons m moved st)
  obtain old page where m: "m = (old, page)" by force
  from Cons.prems(5) have mem: "page_dict page \<in> set ps" by (simp add: m)
  from pages_of_leaves [OF Cons.prems(2) mem] obtain w where
    w: "page_dict page = Indirect w" "getNodeType (pages_doc st) (Indirect w) = LeafNode" by blast
  from position_of_page_spec [OF Cons.prems(1-4) w(2)] mem obtain c where
    c: "getNodePosition depth (pages_doc st) (page_dict page) (Some (nodeCountCache st))
        = Some (Inr (position_in ps (page_dict page) 1), c)" "cache_ok (pages_doc st) c"
    unfolding w(1) by auto
  let ?st1 = "(put_cache st c)\<lparr>pageList := map_insert (pageList st) (position_in ps (page_dict page) 1) page\<rparr>"
  from Cons.IH [of ?st1] Cons.prems put_cache_ok [OF Cons.prems(4) c(2)] obtain st' where
    "relocate depth moved ?st1 = Some (Inr (), st')"
    "pageList st' = place_pages (\<lambda>p page. position_in ps (page_dict page) 1) moved (pageList ?st1)"
    "pages_doc st' = pages_doc st" "cache_ok (pages_doc st) (Some (nodeCountCache st'))"
    "pageCount st' = pageCount st" "locked_doc st' = locked_doc st" by auto
  with c(1) show ?case by (simp add: m place_pages_Cons)
qed (simp add: place_pages_def)

lemma position_in_bounds: "v \<in> set ps \<Longrightarrow> s \<le> position_in ps v s \<and> position_in ps v s < s + length ps
    \<and> ps ! (position_in ps v s - s) = v"
proof (induction ps arbitrary: s)
  case (Cons p ps)
  show ?case
  proof (cases "p = v")
    case False
    with Cons.prems Cons.IH [of "Suc s"] show ?thesis by (auto simp: nth_Cons')
  qed simp
qed simp

lemma relocate_consolidated:
  assumes pl: "storage_ok pl" "list_true ps0 pl" "distinct ps0" "\<forall>x\<in>set pl. page_dict (snd x) \<in> set ps"
  shows "consolidated ps pl (place_pages (\<lambda>p page. position_in ps (page_dict page) 1) pl [])"
proof -
  let ?pl' = "place_pages (\<lambda>p page. position_in ps (page_dict page) 1) pl []"
  have "list_true ps ?pl'"
    unfolding list_true_def
  proof (intro allI impI)
    fix pos page
    assume "storage_get ?pl' pos = Some page"
    from place_pages_from [OF this] obtain p where p: "(p, page) \<in> set pl" "pos = position_in ps (page_dict page) 1"
      by auto
    with pl(4) have "page_dict page \<in> set ps" by force
    from position_in_bounds [OF this, of 1] p(2) show "1 \<le> pos \<and> pos \<le> length ps \<and> page_dict page = ps ! (pos - 1)"
      by auto
  qed
  moreover have "storage_ok ?pl'" by (intro storage_ok_place storage_ok_Nil)
  moreover have "\<exists>pos'. storage_get ?pl' pos' = Some page" if "storage_get pl pos = Some page" for pos page
  proof -
    have mem: "(pos, page) \<in> set pl" using that by (simp add: storage_get_iff [OF pl(1)])
    have "distinct (map (\<lambda>(p, page). position_in ps (page_dict page) 1) pl)"
      unfolding distinct_map
    proof (intro conjI inj_onI)
      show "distinct pl" using storage_ok_distinct [OF pl(1)] by (simp add: distinct_map)
      fix x y assume x: "x \<in> set pl" and y: "y \<in> set pl"
        and eq: "(case x of (p, page) \<Rightarrow> position_in ps (page_dict page) 1) = (case y of (p, page) \<Rightarrow> position_in ps (page_dict page) 1)"
      obtain p a q b where xy: "x = (p, a)" "y = (q, b)" by force
      have "page_dict a \<in> set ps" "page_dict b \<in> set ps"
        using bspec [OF pl(4) x] bspec [OF pl(4) y] by (simp_all add: xy)
      note bounds = this [THEN position_in_bounds, of 1]
      have "position_in ps (page_dict a) 1 = position_in ps (page_dict b) 1" using eq by (simp add: xy)
      with bounds have "page_dict a = page_dict b" by metis
      moreover have "storage_get pl p = Some a" "storage_get pl q = Some b"
        using x y xy by (simp_all add: storage_get_iff [OF pl(1)])
      ultimately have "p = q" using list_true_inj [OF pl(2,3)] by blast
      with x y xy storage_ok_distinct [OF pl(1)] show "x = y" by (auto dest: eq_key_imp_eq_value)
    qed
    from place_pages_moves [OF mem this, of "[]"] show ?thesis by auto
  qed
  ultimately show ?thesis unfolding consolidated_def by blast
qed

text \<open>The tree part of \<open>pages_inv\<close>: the pages of the document are \<open>ps\<close> and the cache is true of it.\<close>

definition tree_inv :: "nat \<Rightarrow> page_state \<Rightarrow> page_tree_node list \<Rightarrow> bool" where
  "tree_inv depth st ps \<longleftrightarrow>
     (\<exists>r. getPageTreeRoot (pages_doc st) = Some (Indirect r) \<and> pages_of depth (pages_doc st) (Indirect r) = Some ps)
     \<and> distinct ps \<and> cache_ok (pages_doc st) (Some (nodeCountCache st))"

lemma position_in_split: "v \<notin> set xs \<Longrightarrow> position_in (xs @ v # ys) v s = s + length xs"
  by (induction xs arbitrary: s) auto

lemma tree_inv_position:
  assumes "tree_inv depth st ps" "v \<in> set ps"
  obtains c where "getNodePosition depth (pages_doc st) v (Some (nodeCountCache st)) = Some (Inr (position_in ps v 1), c)"
    "cache_ok (pages_doc st) c"
proof -
  from assms(1) obtain r where r: "getPageTreeRoot (pages_doc st) = Some (Indirect r)"
    "pages_of depth (pages_doc st) (Indirect r) = Some ps" "distinct ps" "cache_ok (pages_doc st) (Some (nodeCountCache st))"
    unfolding tree_inv_def by blast
  from pages_of_leaves [OF r(2) assms(2)] obtain w where
    w: "v = Indirect w" "getNodeType (pages_doc st) (Indirect w) = LeafNode" by blast
  from position_of_page_spec [OF r w(2)] assms(2) that show ?thesis by (auto simp: w(1))
qed

lemma page_added_spec:
  assumes "tree_inv depth st (xs @ Indirect r # ys)" "getNodeType (pages_doc st) (Indirect r) = LeafNode"
    and "storage_ok (pageList st)" "list_true (xs @ ys) (pageList st)"
  shows "\<exists>st'. consolidatePageList depth None (Some r) st = Some (Inr (), st')
    \<and> consolidated (xs @ Indirect r # ys) (pageList st) (pageList st') \<and> tree_inv depth st' (xs @ Indirect r # ys)
    \<and> pageCount st' = pageCount st \<and> locked_doc st' = locked_doc st"
proof -
  from assms(1) have nx: "Indirect r \<notin> set xs" by (simp add: tree_inv_def)
  obtain c where c: "getNodePosition depth (pages_doc st) (Indirect r) (Some (nodeCountCache st)) = Some (Inr (length xs + 1), c)"
    "cache_ok (pages_doc st) c"
    by (rule tree_inv_position [OF assms(1), of "Indirect r"]) (auto simp: position_in_split [OF nx])
  let ?moved = "filter (\<lambda>(pos, page). pos \<ge> length xs + 1) (pageList st)"
  let ?kept = "filter (\<lambda>(pos, page). \<not> pos \<ge> length xs + 1) (pageList st)"
  have "consolidatePageList depth None (Some r) st
      = Some (Inr (), (put_cache st c)\<lparr>pageList := shift_pages 1 ?moved ?kept\<rparr>)"
    using c(1) assms(2) by (simp add: consolidatePageList_def remove_old_def add_new_def Let_def)
  moreover have "consolidated (xs @ Indirect r # ys) (pageList st) (shift_pages 1 ?moved ?kept)"
    by (rule shift_consolidated [OF assms(3,4), of xs "[]" ys _ "[Indirect r]"]) auto
  moreover have "tree_inv depth ((put_cache st c)\<lparr>pageList := shift_pages 1 ?moved ?kept\<rparr>) (xs @ Indirect r # ys)"
    using assms(1) put_cache_ok [OF _ c(2)] by (simp add: tree_inv_def)
  ultimately show ?thesis by auto
qed

lemma page_removed_spec:
  assumes "tree_inv depth st (xs @ ys)" "getNodeType (pages_doc st) (Indirect r) = LeafNode"
    and "storage_ok (pageList st)" "list_true (xs @ Indirect r # ys) (pageList st)" "distinct (xs @ Indirect r # ys)"
  shows "\<exists>st'. consolidatePageList depth (Some r) None st = Some (Inr (), st')
    \<and> consolidated (xs @ ys) (pageList st) (pageList st') \<and> tree_inv depth st' (xs @ ys)
    \<and> pageCount st' = pageCount st \<and> locked_doc st' = locked_doc st"
proof -
  let ?pl = "pageList st" and ?k = "length xs + 1"
  have at_k: "page_dict page = Indirect r \<longleftrightarrow> pos = ?k" if g: "storage_get ?pl pos = Some page" for pos page
  proof -
    note t = list_trueD [OF assms(4) g]
    have "pos - 1 < length (xs @ Indirect r # ys)" "length xs < length (xs @ Indirect r # ys)" using t by auto
    then have "(xs @ Indirect r # ys) ! (pos - 1) = (xs @ Indirect r # ys) ! length xs \<longleftrightarrow> pos - 1 = length xs"
      using nth_eq_iff_index_eq [OF assms(5)] by blast
    with t show ?thesis by auto
  qed
  show ?thesis
  proof (cases "storage_get ?pl ?k")
    case None
    have none: "\<forall>x\<in>set ?pl. page_dict (snd x) \<noteq> Indirect r"
      using at_k None by (auto simp: storage_get_iff [OF assms(3), symmetric])
    have all: "\<forall>x\<in>set ?pl. page_dict (snd x) \<in> set (xs @ ys)"
    proof
      fix x assume x: "x \<in> set ?pl"
      obtain pos page where xp: "x = (pos, page)" by force
      from x have g: "storage_get ?pl pos = Some page" by (simp add: xp storage_get_iff [OF assms(3)])
      note t = list_trueD [OF assms(4) g]
      have "page_dict page \<in> set (xs @ Indirect r # ys)" unfolding t(3) using t(1,2) by (intro nth_mem) arith
      with bspec [OF none x] show "page_dict (snd x) \<in> set (xs @ ys)" by (auto simp: xp)
    qed
    from assms(1) obtain q where q: "getPageTreeRoot (pages_doc st) = Some (Indirect q)"
      "pages_of depth (pages_doc st) (Indirect q) = Some (xs @ ys)" "distinct (xs @ ys)"
      "cache_ok (pages_doc st) (Some (nodeCountCache st))"
      unfolding tree_inv_def by blast
    from relocate_place [of "st\<lparr>pageList := []\<rparr>" q depth "xs @ ys" ?pl] q all obtain st' where
      st': "relocate depth ?pl (st\<lparr>pageList := []\<rparr>) = Some (Inr (), st')"
        "pageList st' = place_pages (\<lambda>p page. position_in (xs @ ys) (page_dict page) 1) ?pl []"
        "pages_doc st' = pages_doc st" "cache_ok (pages_doc st) (Some (nodeCountCache st'))"
        "pageCount st' = pageCount st" "locked_doc st' = locked_doc st" by auto
    have "consolidatePageList depth (Some r) None st = Some (Inr (), st')"
      using assms(2) remove_page_None [OF none] st'(1)
      by (simp add: consolidatePageList_def remove_old_def add_new_def Let_def case_prod_unfold)
    moreover have "consolidated (xs @ ys) ?pl (pageList st')"
      unfolding st'(2) by (rule relocate_consolidated [OF assms(3-5) all])
    moreover have "tree_inv depth st' (xs @ ys)" using q st'(3,4) by (auto simp: tree_inv_def)
    ultimately show ?thesis using st'(5,6) by blast
  next
    case (Some page)
    then have mem: "(?k, page) \<in> set ?pl" by (simp add: storage_get_iff [OF assms(3)])
    have uniq: "\<forall>x\<in>set ?pl. page_dict (snd x) = Indirect r \<longrightarrow> x = (?k, page)"
      using at_k Some by (auto simp: storage_get_iff [OF assms(3), symmetric])
    have hit: "remove_page (Indirect r) ?pl = (Some (?k, page), storage_erase ?pl ?k)"
      using remove_page_Some [OF mem _ uniq storage_ok_distinct [OF assms(3)]] at_k [OF Some] by simp
    let ?el = "storage_erase ?pl ?k"
    let ?moved = "filter (\<lambda>(pos, page). pos \<ge> ?k) ?el" and ?kept = "filter (\<lambda>(pos, page). \<not> pos \<ge> ?k) ?el"
    have eok: "storage_ok ?el" by (rule storage_ok_erase [OF assms(3)])
    have eget: "storage_get ?el = (storage_get ?pl)(?k := None)" by (rule storage_get_erase [OF assms(3)])
    have epl: "storage_get ?el pos = Some pg \<longleftrightarrow> storage_get ?pl pos = Some pg \<and> pos \<noteq> ?k" for pos pg
      unfolding eget by auto
    have etrue: "list_true (xs @ Indirect r # ys) ?el" using list_trueD [OF assms(4)] epl unfolding list_true_def by blast
    have con: "consolidated (xs @ ys) ?el (shift_pages (-1) ?moved ?kept)"
    proof (rule shift_consolidated [OF eok etrue, of xs "[Indirect r]" ys _ "[]"])
      fix pos page assume "storage_get ?el pos = Some page"
      then have "pos \<noteq> ?k" using epl by blast
      then show "pos \<le> length xs \<or> length xs + length [Indirect r] < pos" by auto
    qed simp_all
    have "consolidated (xs @ ys) ?pl (shift_pages (-1) ?moved ?kept)"
      unfolding consolidated_def
    proof (intro conjI allI impI)
      fix pos page2 assume g: "storage_get ?pl pos = Some page2 \<and> page_dict page2 \<in> set (xs @ ys)"
      then have "page_dict page2 \<noteq> Indirect r" using assms(5) by auto
      with at_k g have "storage_get ?el pos = Some page2" using epl by blast
      with con g show "\<exists>pos'. storage_get (shift_pages (-1) ?moved ?kept) pos' = Some page2"
        unfolding consolidated_def by blast
    qed (use con in \<open>simp_all add: consolidated_def\<close>)
    moreover have "consolidatePageList depth (Some r) None st
        = Some (Inr (), st\<lparr>pageList := shift_pages (-1) ?moved ?kept, invalidated := invalidated st @ [page_id page]\<rparr>)"
      using assms(2) hit by (simp add: consolidatePageList_def remove_old_def add_new_def Let_def)
    ultimately show ?thesis using assms(1) by (auto simp: tree_inv_def)
  qed
qed

text \<open>
  Claim C9: after a page has been put into the tree or taken out of it, at any place, the list of
  the pages handed out is true of the new tree, and every page that is still in the tree is still
  there, as the instance it was, at its new position.
\<close>

theorem page_list_follows_tree:
  assumes "storage_ok (pageList st)" "getNodeType (pages_doc st) (Indirect r) = LeafNode"
    and "distinct (xs @ Indirect r # ys)"
  shows "(tree_inv depth st (xs @ Indirect r # ys) \<and> list_true (xs @ ys) (pageList st) \<longrightarrow>
      (\<exists>st'. consolidatePageList depth None (Some r) st = Some (Inr (), st')
         \<and> consolidated (xs @ Indirect r # ys) (pageList st) (pageList st')))
    \<and> (tree_inv depth st (xs @ ys) \<and> list_true (xs @ Indirect r # ys) (pageList st) \<longrightarrow>
      (\<exists>st'. consolidatePageList depth (Some r) None st = Some (Inr (), st')
         \<and> consolidated (xs @ ys) (pageList st) (pageList st')))"
  using page_added_spec [OF _ assms(2,1)] page_removed_spec [OF _ assms(2,1) _ assms(3)] by blast

definition page_gone :: page_state where
  "page_gone = sample_page_state\<lparr>pageList := [(1, CPage 4 (Indirect (Ref 3 0))), (2, CPage 7 (Indirect (Ref 8 0))),
     (4, CPage 0 (Indirect (Ref 5 0)))]\<rparr>"

theorem page_list_follows_tree_witness:
  "\<exists>st'. consolidatePageList 3 (Some (Ref 8 0)) None page_gone = Some (Inr (), st')
    \<and> consolidated (map Indirect [Ref 3 0, Ref 4 0, Ref 5 0]) (pageList page_gone) (pageList st')"
proof -
  let ?xs = "[Indirect (Ref 3 0)]" and ?ys = "[Indirect (Ref 4 0), Indirect (Ref 5 0)]"
  have ok: "storage_ok (pageList page_gone)" "getNodeType (pages_doc page_gone) (Indirect (Ref 8 0)) = LeafNode"
    "distinct (?xs @ Indirect (Ref 8 0) # ?ys)"
    using sample_pages_tree(3) by (simp_all add: page_gone_def sample_page_state_def storage_ok_def)
  have "tree_inv 3 page_gone (?xs @ ?ys)"
    using sample_page_state_inv by (simp add: tree_inv_def pages_inv_def page_gone_def)
  moreover have "list_true (?xs @ Indirect (Ref 8 0) # ?ys) (pageList page_gone)"
    by (auto simp: list_true_def page_gone_def split: if_splits)
  ultimately show ?thesis using page_list_follows_tree [OF ok, of 3] by simp
qed

end
