(* ===== verification/Page_Editing.thy ===== *)
theory Page_Editing
  imports Page_Consolidation
begin

text \<open>
  \<^verbatim>\<open>CPdf::insertPage\<close> and \<^verbatim>\<open>CPdf::removePage\<close> of \<^verbatim>\<open>src/src/kernel/cpdf.cc\<close>, with the comparison of
  values in \<^verbatim>\<open>src/src/kernel/cobjecthelpers.cc\<close>, and what they do to the pages of the document.
\<close>

section \<open>Inserting and removing pages\<close>

text \<open>\<^verbatim>\<open>PropertyEquals\<close>: complex values are not compared.\<close>

fun propertyEquals :: "xobj \<Rightarrow> xobj \<Rightarrow> bool result" where
  "propertyEquals (XArray xs) (XArray ys) = Inl NotImplementedException"
| "propertyEquals (XDict d) (XDict e) = Inl NotImplementedException"
| "propertyEquals (XStream d s) (XStream e t) = Inl NotImplementedException"
| "propertyEquals v w = Inr (getType v = getType w \<and> v = w)"

text \<open>\<^verbatim>\<open>getPropertyId\<close> with \<^verbatim>\<open>IdCollector\<close>: the indexes of the members that are equal.\<close>

definition getPropertyId :: "xobj list \<Rightarrow> xobj \<Rightarrow> nat list" where
  "getPropertyId xs searched = filter (\<lambda>i. propertyEquals searched (xs ! i) = Inr True) [0..<length xs]"

text \<open>The \<^verbatim>\<open>Kids\<close> array of a node, as a value, and with new members.\<close>

definition kids_array :: "document \<Rightarrow> page_tree_node \<Rightarrow> xobj list option" where
  "kids_array d v =
     (case node_dict d v of
        None \<Rightarrow> None
      | Some e \<Rightarrow>
          (case dict_find e ''Kids'' of
             None \<Rightarrow> None
           | Some k \<Rightarrow> (case getReferencedObject d k of XArray xs \<Rightarrow> Some xs | _ \<Rightarrow> None)))"

definition set_kids :: "document \<Rightarrow> page_tree_node \<Rightarrow> xobj list \<Rightarrow> document" where
  "set_kids d v xs =
     (case node_dict d v of
        None \<Rightarrow> d
      | Some e \<Rightarrow>
          (case dict_find e ''Kids'' of
             Some (XRefObj q) \<Rightarrow> d\<lparr>objects := (objects d)(q := XArray xs)\<rparr>
           | _ \<Rightarrow> put_node d v (snd (dict_update e ''Kids'' (XArray xs)))))"

text \<open>
  The place of an existing page: the node its \<^verbatim>\<open>Parent\<close> names, its \<^verbatim>\<open>Kids\<close>, and its only index there.
\<close>

definition page_place :: "document \<Rightarrow> page_tree_node \<Rightarrow> (page_tree_node \<times> xobj list \<times> nat) result" where
  "page_place d page =
     (case (case node_dict d page of None \<Rightarrow> None | Some e \<Rightarrow> dict_find e ''Parent'') of
        None \<Rightarrow> Inl ElementNotFoundException
      | Some (XRefObj p) \<Rightarrow>
          (case objects d p of
             XDict pd \<Rightarrow>
               (case kids_array d (Indirect p) of
                  None \<Rightarrow> Inl MalformedFormatExeption
                | Some kids \<Rightarrow>
                    (case getPropertyId kids (XRefObj (node_ref d page)) of
                       [] \<Rightarrow> Inl UndefinedBehaviour
                     | [i] \<Rightarrow> Inr (Indirect p, kids, i)
                     | _ \<Rightarrow> Inl AmbiguousPageTreeException))
           | _ \<Rightarrow> Inl ElementBadTypeException)
      | _ \<Rightarrow> Inl ElementBadTypeException)"

text \<open>
  \<^verbatim>\<open>insertPage\<close>: a page of this document that is not in use is inserted as it is; for a page of
  another document \<open>import\<close> makes the new object (\<^verbatim>\<open>addIndirectProperty\<close>).  \<open>at_place\<close> is the end of
  it, once the place is known.
\<close>

datatype new_page = Own cpage | Foreign "document \<Rightarrow> ref \<times> document"

definition at_place ::
    "nat \<Rightarrow> nat \<Rightarrow> page_tree_node \<Rightarrow> xobj list \<Rightarrow> nat \<Rightarrow> nat \<Rightarrow> new_page \<Rightarrow> page_state
     \<Rightarrow> (cpage result \<times> page_state) option" where
  "at_place depth fuel parent kids i pos page st =
     (case (case page of
              Own p \<Rightarrow> (case getPagePosition p st of
                          Inr q \<Rightarrow> Inl AmbiguousPageTreeException
                        | Inl (PageNotFoundException q) \<Rightarrow> Inr (node_ref (pages_doc st) (page_dict p), pages_doc st)
                        | Inl e \<Rightarrow> Inl e)
            | Foreign import \<Rightarrow> Inr (import (pages_doc st))) of
        Inl e \<Rightarrow> Some (Inl e, st)
      | Inr (r, d1) \<Rightarrow>
          let d2 = set_kids d1 parent (take i kids @ XRefObj r # drop i kids) in
          (case kids_notify depth fuel (node_ref d2 parent) None (Some r) (st\<lparr>pages_doc := d2\<rparr>) of
             None \<Rightarrow> None
           | Some (Inl e, st1) \<Rightarrow> Some (Inl e, st1)
           | Some (Inr _, st1) \<Rightarrow>
               let inserted = CPage (next_page st1) (Indirect r) in
               Some (Inr inserted, st1\<lparr>pageList := map_insert (pageList st1) pos inserted,
                                       next_page := Suc (next_page st1)\<rparr>)))"

definition insertPage ::
    "nat \<Rightarrow> nat \<Rightarrow> bool \<Rightarrow> new_page \<Rightarrow> nat \<Rightarrow> page_state \<Rightarrow> (cpage result \<times> page_state) option" where
  "insertPage depth fuel read_only page pos0 st =
     (if locked_doc st then Some (Inl PermissionException, st)
      else if read_only then Some (Inl ReadOnlyDocumentException, st)
      else case getPageCount depth st of
        None \<Rightarrow> None
      | Some (Inl e, st1) \<Rightarrow> Some (Inl e, st1)
      | Some (Inr count, st1) \<Rightarrow>
          let pos = max pos0 1; append = (pos > count); storePostion = (if append then count else pos);
              new_pos = storePostion + (if append then 1 else 0)
          in case getPageTreeRoot (pages_doc st1) of
            None \<Rightarrow> Some (Inl NoPageRootException, st1)
          | Some top_node \<Rightarrow>
              if count = 0 then
                (case kids_array (pages_doc st1) top_node of
                   None \<Rightarrow> Some (Inl MalformedFormatExeption, st1)
                 | Some kids \<Rightarrow> at_place depth fuel top_node kids 0 new_pos page st1)
              else
                (case findPageDict depth (pages_doc st1) top_node 1 storePostion (Some (nodeCountCache st1)) of
                   None \<Rightarrow> None
                 | Some (Inl e, cache) \<Rightarrow> Some (Inl e, put_cache st1 cache)
                 | Some (Inr current, cache) \<Rightarrow>
                     let st2 = put_cache st1 cache in
                     (case page_place (pages_doc st2) current of
                        Inl e \<Rightarrow> Some (Inl e, st2)
                      | Inr (parent, kids, i) \<Rightarrow>
                          at_place depth fuel parent kids (i + (if append then 1 else 0)) new_pos page st2)))"

definition removePage :: "nat \<Rightarrow> nat \<Rightarrow> bool \<Rightarrow> nat \<Rightarrow> page_state \<Rightarrow> (unit result \<times> page_state) option" where
  "removePage depth fuel read_only pos st =
     (if locked_doc st then Some (Inl PermissionException, st)
      else if read_only then Some (Inl ReadOnlyDocumentException, st)
      else case position_in_range depth pos st of
        None \<Rightarrow> None
      | Some (Inl e, st1) \<Rightarrow> Some (Inl e, st1)
      | Some (Inr False, st1) \<Rightarrow> Some (Inl (PageNotFoundException pos), st1)
      | Some (Inr True, st1) \<Rightarrow>
          (case getPageTreeRoot (pages_doc st1) of
             None \<Rightarrow> Some (Inl UndefinedBehaviour, st1)
           | Some top_node \<Rightarrow>
               (case findPageDict depth (pages_doc st1) top_node 1 pos (Some (nodeCountCache st1)) of
                  None \<Rightarrow> None
                | Some (Inl e, cache) \<Rightarrow> Some (Inl e, put_cache st1 cache)
                | Some (Inr current, cache) \<Rightarrow>
                    let st2 = put_cache st1 cache in
                    (case page_place (pages_doc st2) current of
                       Inl e \<Rightarrow> Some (Inl e, st2)
                     | Inr (parent, kids, i) \<Rightarrow>
                         kids_notify depth fuel (node_ref (pages_doc st2) parent) (Some (node_ref (pages_doc st2) current)) None
                           (st2\<lparr>pages_doc := set_kids (pages_doc st2) parent (take i kids @ drop (Suc i) kids)\<rparr>)))))"

section \<open>Editing the tree\<close>

definition kids_of :: "document \<Rightarrow> page_tree_node \<Rightarrow> xobj list" where
  "kids_of d v = (case node_dict d v of None \<Rightarrow> [] | Some e \<Rightarrow> getKidsFromInterNode d e)"

lemma pages_of_kids_of:
  "pages_of (Suc n) d v =
     (case getNodeType d v of
        LeafNode \<Rightarrow> Some [v] | ErrorNode \<Rightarrow> Some []
      | UnknownNode \<Rightarrow> if kids_of d v = [] then Some [] else None
      | _ \<Rightarrow> pages_of_kids (pages_of n d) d (kids_of d v))"
  by (cases "node_dict d v") (auto simp: kids_of_def ErrorNode_iff [THEN iffD2] split: PageTreeNodeType.split)

text \<open>Every reference to a page replaced by others, in the kids and in the list of the pages.\<close>

definition replace_kid :: "ref \<Rightarrow> ref list \<Rightarrow> xobj list \<Rightarrow> xobj list" where
  "replace_kid w rs kids = concat (map (\<lambda>k. if k = XRefObj w then map XRefObj rs else [k]) kids)"

definition replace_page :: "ref \<Rightarrow> ref list \<Rightarrow> page_tree_node list \<Rightarrow> page_tree_node list" where
  "replace_page w rs ps = concat (map (\<lambda>p. if p = Indirect w then map Indirect rs else [p]) ps)"

lemma replace_page_append: "replace_page w rs (ps @ qs) = replace_page w rs ps @ replace_page w rs qs"
  by (simp add: replace_page_def)

text \<open>The tree after a change of the kids that are the page \<open>w\<close>.\<close>

definition kids_edited :: "document \<Rightarrow> document \<Rightarrow> ref \<Rightarrow> ref list \<Rightarrow> bool" where
  "kids_edited d d' w rs \<longleftrightarrow> (\<forall>v. getNodeType d' v = getNodeType d v)
     \<and> (\<forall>v. kids_of d' v = replace_kid w rs (kids_of d v))"

lemma pages_of_kids_leaves_new:
  assumes "\<forall>r\<in>set rs. getNodeType d' (Indirect r) = LeafNode"
  shows "pages_of_kids (pages_of (Suc n) d') d' (map XRefObj rs @ kids)
    = map_option (\<lambda>ps. map Indirect rs @ ps) (pages_of_kids (pages_of (Suc n) d') d' kids)"
  using assms
proof (induction rs)
  case Nil
  show ?case by (cases "pages_of_kids (pages_of (Suc n) d') d' kids") (simp_all del: pages_of.simps)
next
  case (Cons r rs)
  then have l: "getNodeType d' (Indirect r) = LeafNode" by simp
  then have "pages_of (Suc n) d' (Indirect r) = Some [Indirect r]" by (simp add: pages_of_kids_of del: pages_of.simps)
  with Cons l show ?case by (auto simp del: pages_of.simps split: option.split)
qed

lemma kids_edited_pages:
  assumes "kids_edited d d' w rs" and "getNodeType d (Indirect w) = LeafNode"
    and "\<forall>r\<in>set rs. getNodeType d (Indirect r) = LeafNode"
  shows "pages_of n d v = Some ps \<Longrightarrow> v \<noteq> Indirect w \<Longrightarrow> pages_of n d' v = Some (replace_page w rs ps)"
proof (induction n arbitrary: v ps)
  case (Suc n)
  have ty: "getNodeType d' u = getNodeType d u" and ki: "kids_of d' u = replace_kid w rs (kids_of d u)" for u
    using assms(1) by (auto simp: kids_edited_def)
  have kids: "pages_of_kids (pages_of n d') d' (replace_kid w rs kids) = Some (replace_page w rs qs)"
    if "pages_of_kids (pages_of n d) d kids = Some qs" for kids qs
    using that
  proof (induction kids arbitrary: qs)
    case Nil
    then show ?case by (simp add: replace_kid_def replace_page_def)
  next
    case (Cons k kids)
    have step: "replace_kid w rs (k # kids) = (if k = XRefObj w then map XRefObj rs else [k]) @ replace_kid w rs kids"
      by (simp add: replace_kid_def)
    show ?case
    proof (cases "\<exists>r. k = XRefObj r")
      case True
      then obtain r where k: "k = XRefObj r" ..
      with Cons.prems obtain ps1 qs1 where p: "getNodeType d (Indirect r) \<noteq> RootNode"
        "pages_of n d (Indirect r) = Some ps1" "pages_of_kids (pages_of n d) d kids = Some qs1" "qs = ps1 @ qs1"
        by (auto split: if_splits option.splits)
      show ?thesis
      proof (cases "r = w")
        case True
        then have ps1: "ps1 = [Indirect w]" using pages_of_leaf [OF p(2)] assms(2) by simp
        obtain m where n: "n = Suc m" using p(2) by (cases n) auto
        have l: "\<forall>r\<in>set rs. getNodeType d' (Indirect r) = LeafNode" using assms(3) ty by simp
        have "replace_kid w rs (k # kids) = map XRefObj rs @ replace_kid w rs kids" unfolding step by (simp add: k True)
        moreover have "replace_page w rs qs = map Indirect rs @ replace_page w rs qs1"
          by (simp add: p(4) ps1 replace_page_append) (simp add: replace_page_def)
        moreover have "pages_of_kids (pages_of n d') d' (map XRefObj rs @ replace_kid w rs kids)
            = Some (map Indirect rs @ replace_page w rs qs1)"
          using Cons.IH [OF p(3)] unfolding n pages_of_kids_leaves_new [OF l] by (simp del: pages_of.simps)
        ultimately show ?thesis by simp
      next
        case False
        then have st: "replace_kid w rs (k # kids) = XRefObj r # replace_kid w rs kids" unfolding step by (simp add: k)
        from Suc.IH [OF p(2)] Cons.IH [OF p(3)] p(1) False show ?thesis
          unfolding st by (simp add: p(4) replace_page_append ty)
      qed
    next
      case False
      then have st: "replace_kid w rs (k # kids) = k # replace_kid w rs kids" unfolding step by auto
      from False Cons show ?thesis unfolding st by (cases k) auto
    qed
  qed
  show ?case
  proof (cases "getNodeType d v")
    case LeafNode
    with Suc.prems show ?thesis
      by (auto simp: pages_of_kids_of ty replace_page_def simp del: pages_of.simps)
  next
    case UnknownNode
    with Suc.prems show ?thesis
      by (auto simp: pages_of_kids_of ty ki replace_page_def replace_kid_def simp del: pages_of.simps split: if_splits)
  next
    case ErrorNode
    with Suc.prems show ?thesis
      by (auto simp: pages_of_kids_of ty replace_page_def simp del: pages_of.simps)
  next
    case InterNode
    with Suc.prems kids [of "kids_of d v" ps] show ?thesis
      by (simp add: pages_of_kids_of ty ki del: pages_of.simps)
  next
    case RootNode
    with Suc.prems kids [of "kids_of d v" ps] show ?thesis
      by (simp add: pages_of_kids_of ty ki del: pages_of.simps)
  qed
qed simp

text \<open>Only one node has the page among its kids.\<close>

lemma getPropertyId_single:
  assumes "getPropertyId kids (XRefObj w) = [i]"
  shows "i < length kids" "kids ! i = XRefObj w" "XRefObj w \<notin> set (take i kids)" "XRefObj w \<notin> set (drop (Suc i) kids)"
proof -
  have eq: "propertyEquals (XRefObj w) v = Inr True \<longleftrightarrow> v = XRefObj w" for v by (cases v) auto
  have "set (getPropertyId kids (XRefObj w)) = {j. j < length kids \<and> kids ! j = XRefObj w}"
    by (auto simp: getPropertyId_def eq)
  with assms have one: "{j. j < length kids \<and> kids ! j = XRefObj w} = {i}" by simp
  then show i: "i < length kids" "kids ! i = XRefObj w" by auto
  show "XRefObj w \<notin> set (take i kids)"
  proof
    assume "XRefObj w \<in> set (take i kids)"
    then obtain j where "j < i" "j < length kids" "kids ! j = XRefObj w"
      by (auto simp: in_set_conv_nth)
    then have "j \<in> {j. j < length kids \<and> kids ! j = XRefObj w}" by simp
    with one \<open>j < i\<close> show False by simp
  qed
  show "XRefObj w \<notin> set (drop (Suc i) kids)"
  proof
    assume "XRefObj w \<in> set (drop (Suc i) kids)"
    then obtain j where "j < length kids - Suc i" "kids ! (Suc i + j) = XRefObj w"
      by (auto simp: in_set_conv_nth)
    then have "Suc i + j \<in> {j. j < length kids \<and> kids ! j = XRefObj w}" by simp
    with one show False by simp
  qed
qed

lemma replace_kid_id: "XRefObj w \<notin> set kids \<Longrightarrow> replace_kid w rs kids = kids"
  unfolding replace_kid_def by (induction kids) auto

lemma replace_kid_single:
  assumes "getPropertyId kids (XRefObj w) = [i]"
  shows "replace_kid w rs kids = take i kids @ map XRefObj rs @ drop (Suc i) kids"
proof -
  note s = getPropertyId_single [OF assms]
  have mid: "replace_kid w rs (a @ XRefObj w # b) = replace_kid w rs a @ map XRefObj rs @ replace_kid w rs b" for a b
    by (simp add: replace_kid_def)
  have "kids = take i kids @ XRefObj w # drop (Suc i) kids" using id_take_nth_drop [OF s(1)] by (simp add: s(2))
  then have "replace_kid w rs kids = replace_kid w rs (take i kids) @ map XRefObj rs @ replace_kid w rs (drop (Suc i) kids)"
    using mid by metis
  then show ?thesis using s(3,4) by (simp add: replace_kid_id)
qed

text \<open>Changes of arrays and of what is in a direct \<^verbatim>\<open>Kids\<close> do not change the type of a node.\<close>

definition same_shape :: "xobj \<Rightarrow> xobj \<Rightarrow> bool" where
  "same_shape x y \<longleftrightarrow> x = y \<or> (\<exists>xs ys. x = XArray xs \<and> y = XArray ys)
     \<or> (\<exists>e e'. x = XDict e \<and> y = XDict e' \<and> dict_find e' ''Type'' = dict_find e ''Type''
          \<and> (dict_find e' ''Kids'' = dict_find e ''Kids''
             \<or> (\<exists>xs ys. dict_find e ''Kids'' = Some (XArray xs) \<and> dict_find e' ''Kids'' = Some (XArray ys))))"

lemma same_shape_type:
  assumes "catalog_dict d' = catalog_dict d" "\<And>r. same_shape (objects d r) (objects d' r)"
  shows "getNodeType d' v = getNodeType d v"
proof -
  have val: "same_shape (getReferencedObject d t) (getReferencedObject d' t)" for t
    using assms(2) by (cases t) (simp_all add: getReferencedObject_def, simp_all add: same_shape_def)
  have name: "(case getReferencedObject d' t of XName n \<Rightarrow> f n | _ \<Rightarrow> u) = (case getReferencedObject d t of XName n \<Rightarrow> f n | _ \<Rightarrow> u)"
    for f and u :: 'a and t using val [of t] by (auto simp: same_shape_def)
  have arr: "(case getReferencedObject d' t of XArray n \<Rightarrow> f n | _ \<Rightarrow> u) = (case getReferencedObject d t of XArray n \<Rightarrow> f n | _ \<Rightarrow> u)"
    if "f = (\<lambda>_. c)" for f and u c :: 'b and t using val [of t] that by (auto simp: same_shape_def)
  have "(case objects d' r of XDict e \<Rightarrow> Some (Indirect r) | _ \<Rightarrow> None)
      = (case objects d r of XDict e \<Rightarrow> Some (Indirect r) | _ \<Rightarrow> None)" for r
    using assms(2) [of r] by (auto simp: same_shape_def)
  then have top: "getPageTreeRoot d' = getPageTreeRoot d"
    by (simp add: getPageTreeRoot_def assms(1) split: option.split xobj.split)
  have nd: "node_dict d v = None \<and> node_dict d' v = None
    \<or> (\<exists>e e'. node_dict d v = Some e \<and> node_dict d' v = Some e' \<and> dict_find e' ''Type'' = dict_find e ''Type''
          \<and> (dict_find e' ''Kids'' = dict_find e ''Kids''
             \<or> (\<exists>xs ys. dict_find e ''Kids'' = Some (XArray xs) \<and> dict_find e' ''Kids'' = Some (XArray ys))))"
  proof (cases v)
    case (Indirect r)
    show ?thesis using assms(2) [of r] by (auto simp: Indirect node_dict_def same_shape_def split: xobj.split)
  next
    case Inline
    then show ?thesis using assms(1) by (auto simp: node_dict_def split: xobj.split)
  qed
  have ref_arr: "getReferencedObject x (XArray xs) = XArray xs" for x xs by (simp add: getReferencedObject_def)
  show ?thesis
    using nd by (auto simp: getNodeType_def top name arr ref_arr split: option.split)
qed

lemma set_kids_edited:
  assumes "kids_array d (Indirect p) = Some kids" "getPropertyId kids (XRefObj w) = [i]"
    and only: "\<And>u. XRefObj w \<in> set (kids_of d u) \<Longrightarrow> u = Indirect p"
  shows "kids_edited d (set_kids d (Indirect p) (take i kids @ map XRefObj rs @ drop (Suc i) kids)) w rs"
    (is "kids_edited d ?d' w rs")
proof -
  let ?new = "take i kids @ map XRefObj rs @ drop (Suc i) kids"
  from assms(1) obtain e k where nd: "node_dict d (Indirect p) = Some e" and k: "dict_find e ''Kids'' = Some k"
    and arr: "getReferencedObject d k = XArray kids"
    by (auto simp: kids_array_def split: option.splits xobj.splits)
  have op: "objects d p = XDict e" using nd by (auto simp: node_dict_def split: xobj.splits)
  have kp: "kids_of d (Indirect p) = kids" by (simp add: kids_of_def nd getKidsFromInterNode_def k arr)
  have w_in: "XRefObj w \<in> set kids" using getPropertyId_single(1,2) [OF assms(2)] nth_mem by metis
  have new: "?new = replace_kid w rs kids" by (simp add: replace_kid_single [OF assms(2)])
  show ?thesis
  proof (cases "\<exists>q. k = XRefObj q")
    case True
    then obtain q where q: "k = XRefObj q" ..
    then have oq: "objects d q = XArray kids" using arr by (simp add: getReferencedObject_def)
    have d': "?d' = d\<lparr>objects := (objects d)(q := XArray ?new)\<rparr>" by (simp add: set_kids_def nd k q)
    have ty: "getNodeType ?d' v = getNodeType d v" for v
      by (rule same_shape_type) (auto simp: d' same_shape_def oq)
    have dict: "node_dict ?d' v = node_dict d v" for v
      using oq by (cases v) (auto simp: node_dict_def d')
    have "kids_of ?d' v = replace_kid w rs (kids_of d v)" for v
    proof (cases "node_dict d v")
      case None
      then show ?thesis by (simp add: kids_of_def dict replace_kid_def)
    next
      case (Some ev)
      show ?thesis
      proof (cases "dict_find ev ''Kids'' = Some (XRefObj q)")
        case True
        then have "kids_of d v = kids"
          by (simp add: kids_of_def Some getKidsFromInterNode_def getReferencedObject_def oq)
        moreover have "objects ?d' q = XArray ?new" by (simp add: d')
        then have "kids_of ?d' v = ?new"
          unfolding kids_of_def dict Some by (simp add: True getKidsFromInterNode_def getReferencedObject_def)
        ultimately show ?thesis by (simp add: new)
      next
        case False
        moreover have "objects ?d' r = objects d r" if "r \<noteq> q" for r using that by (simp add: d')
        ultimately have "kids_of ?d' v = kids_of d v"
          unfolding kids_of_def dict Some
          by (auto simp: getKidsFromInterNode_def getReferencedObject_def split: option.split xobj.split)
        moreover have "XRefObj w \<notin> set (kids_of d v)" using only [of v] False Some nd k q by auto
        ultimately show ?thesis by (simp add: replace_kid_id)
      qed
    qed
    with ty show ?thesis by (simp add: kids_edited_def)
  next
    case False
    let ?e' = "snd (dict_update e ''Kids'' (XArray ?new))"
    have ka: "k = XArray kids" using arr False by (cases k) (auto simp: getReferencedObject_def)
    then have d': "?d' = d\<lparr>objects := (objects d)(p := XDict ?e')\<rparr>" by (simp add: set_kids_def nd k put_node_def)
    have ty: "getNodeType ?d' v = getNodeType d v" for v
      by (rule same_shape_type) (auto simp: d' same_shape_def op k ka)
    have "kids_of ?d' v = replace_kid w rs (kids_of d v)" for v
    proof (cases "v = Indirect p")
      case True
      have "kids_of ?d' (Indirect p) = ?new"
        by (simp add: kids_of_def node_dict_def d' getKidsFromInterNode_def getReferencedObject_def)
      then show ?thesis by (simp add: True kp new)
    next
      case False
      have "node_dict ?d' v = node_dict d v" using False by (cases v) (auto simp: node_dict_def d')
      then have "kids_of ?d' v = kids_of d v"
        by (auto simp: kids_of_def getKidsFromInterNode_def getReferencedObject_def d' op split: option.split xobj.split)
      moreover have "XRefObj w \<notin> set (kids_of d v)" using only [of v] False by auto
      ultimately show ?thesis by (simp add: replace_kid_id)
    qed
    with ty show ?thesis by (simp add: kids_edited_def)
  qed
qed

lemma replace_page_once:
  assumes "distinct (xs @ Indirect w # ys)"
  shows "replace_page w rs (xs @ Indirect w # ys) = xs @ map Indirect rs @ ys"
proof -
  have "Indirect w \<notin> set zs \<Longrightarrow> replace_page w rs zs = zs" for zs
    unfolding replace_page_def by (induction zs) auto
  then have "replace_page w rs xs = xs" "replace_page w rs ys = ys" using assms by auto
  moreover have "replace_page w rs (Indirect w # ys) = map Indirect rs @ replace_page w rs ys"
    by (simp add: replace_page_def)
  ultimately show ?thesis by (simp add: replace_page_append)
qed


definition two_pages :: document where
  "two_pages =
     \<lparr>objects = (\<lambda>r.
        if r = Ref 1 0 then XDict [(''Kids'', XArray [XNull, XRefObj (Ref 2 0), XRefObj (Ref 3 0)]), (''Count'', XInt 2)]
        else if r = Ref 2 0 then XDict [(''Type'', XName ''Page''), (''Parent'', XRefObj (Ref 1 0))]
        else if r = Ref 3 0 then XDict [(''Type'', XName ''Page''), (''Parent'', XRefObj (Ref 1 0))]
        else if r = Ref 4 0 then XDict [(''Type'', XName ''Page'')] else XNull),
      catalog_ref = Ref 10 0, catalog_dict = [(''Pages'', XRefObj (Ref 1 0))]\<rparr>"

lemma two_pages_tree:
  "getPageTreeRoot two_pages = Some (Indirect (Ref 1 0))"
  "pages_of 2 two_pages (Indirect (Ref 1 0)) = Some ([Indirect (Ref 2 0)] @ Indirect (Ref 3 0) # [])"
  "page_place two_pages (Indirect (Ref 3 0)) = Inr (Indirect (Ref 1 0), [XNull, XRefObj (Ref 2 0), XRefObj (Ref 3 0)], 2)"
  "getNodeType two_pages (Indirect (Ref 4 0)) = LeafNode"
  by code_simp+

lemma two_pages_only: "XRefObj w \<in> set (kids_of two_pages u) \<Longrightarrow> u = Indirect (Ref 1 0)"
  by (cases u) (auto simp: kids_of_def two_pages_def node_dict_def getKidsFromInterNode_def getReferencedObject_def
      dict_lookupNF_def split: if_splits)


text \<open>
  When a wrong \<^verbatim>\<open>Count\<close> happens to be the number of pages after a change, the consolidation takes
  it for unchanged: count and cache keep the old number, and the new page cannot be reached.
\<close>

definition stale_state :: page_state where
  "stale_state = \<lparr>pages_doc = two_pages, pageList = [], pageCount = 1, nodeCountCache = [(Ref 1 0, 1)],
     next_page = 0, invalidated = [], locked_doc = False\<rparr>"

lemma stale_page_count:
  "map_option (\<lambda>(res, st). (res, pageCount st, nodeCountCache st)) (kids_notify 2 2 (Ref 1 0) None (Some (Ref 3 0)) stale_state)
     = Some (Inr (), 1, [(Ref 1 0, 1)])
   \<and> map_option fst (getPage 2 2 stale_state) = Some (Inl (PageNotFoundException 2))"
  by code_simp

end
