(* ===== verification/Operator_Table.thy ===== *)
theory Operator_Table
  imports Xpdf_Object "HOL-Library.Word"
begin

text \<open>
  The table of the operators a content stream may hold and its uses: \<^verbatim>\<open>KNOWN_OPERATORS\<close>,
  \<^verbatim>\<open>findOp\<close>, \<^verbatim>\<open>getEndTag\<close> and \<^verbatim>\<open>checkAndFixOperator\<close> of
  \<^verbatim>\<open>src/src/kernel/stateupdater.cc\<close>, the bit masks of \<^verbatim>\<open>utils.h\<close>, and the
  name lists of the operator iterators (\<^verbatim>\<open>pdfoperatorsiter.cc\<close>).  The lemmas show which names the
  binary search finds, and what the operand check accepts and converts.
\<close>

unbundle bit_operations_syntax

section \<open>Masks of property types\<close>

text \<open>The values of \<^verbatim>\<open>enum ObjType\<close>, which \<^verbatim>\<open>enum PropertyType\<close> takes over.\<close>

fun objtype_num :: "objtype \<Rightarrow> nat" where
  "objtype_num objBool = 0"
| "objtype_num objInt = 1"
| "objtype_num objReal = 2"
| "objtype_num objString = 3"
| "objtype_num objName = 4"
| "objtype_num objNull = 5"
| "objtype_num objArray = 6"
| "objtype_num objDict = 7"
| "objtype_num objStream = 8"
| "objtype_num objRef = 9"
| "objtype_num objCmd = 10"
| "objtype_num objError = 11"
| "objtype_num objEOF = 12"
| "objtype_num objNone = 13"

definition isBitSet :: "16 word \<Rightarrow> objtype \<Rightarrow> bool" where
  "isBitSet value n \<longleftrightarrow> value AND push_bit (objtype_num n) 1 \<noteq> 0"

definition setNoneBitsShort :: "16 word" where
  "setNoneBitsShort = 0"

fun setNthBitsShort :: "objtype list \<Rightarrow> 16 word" where
  "setNthBitsShort [] = setNoneBitsShort"
| "setNthBitsShort (t # ts) = push_bit (objtype_num t) 1 OR setNthBitsShort ts"

section \<open>The table\<close>

text \<open>The function that updates the graphical state, by its name.\<close>

datatype update_fn =
    opSlashUpdate | opApoUpdate | unknownUpdate | opBIUpdate | opBTUpdate | opDoUpdate
    | opIDUpdate | opQUpdate | opTstarUpdate | opTDUpdate | opTJUpdate | opTLUpdate
    | opTcUpdate | opTdUpdate | opTfUpdate | opTjUpdate | opTmUpdate | opTrUpdate
    | opTsUpdate | opTwUpdate | opTzUpdate | opcUpdate | opcmUpdate | ophUpdate | oplUpdate
    | opmUpdate | opqUpdate | opreUpdate | opvUpdate | opwUpdate | opyUpdate

record check_types =
  op_name :: string
  argNum :: int
  op_types :: "16 word list"
  op_update :: update_fn
  endTag :: string

text \<open>An initialiser of the table: the rest of the \<^verbatim>\<open>MAX_OPERANDS\<close> types are zero.\<close>

definition MAX_OPERANDS :: nat where
  "MAX_OPERANDS = 6"

definition known :: "string \<Rightarrow> int \<Rightarrow> objtype list list \<Rightarrow> update_fn \<Rightarrow> string \<Rightarrow> check_types" where
  "known n a ts u e =
     \<lparr>op_name = n, argNum = a,
      op_types = map setNthBitsShort ts @ replicate (MAX_OPERANDS - length ts) 0,
      op_update = u, endTag = e\<rparr>"

abbreviation none_ok :: "objtype list" where "none_ok \<equiv> []"
abbreviation num_ok :: "objtype list" where "num_ok \<equiv> [objInt, objReal]"
abbreviation int_ok :: "objtype list" where "int_ok \<equiv> [objInt]"
abbreviation string_ok :: "objtype list" where "string_ok \<equiv> [objString]"
abbreviation name_ok :: "objtype list" where "name_ok \<equiv> [objName]"
abbreviation array_ok :: "objtype list" where "array_ok \<equiv> [objArray]"
abbreviation dict_name_ok :: "objtype list" where "dict_name_ok \<equiv> [objDict, objName]"
abbreviation num_name_ok :: "objtype list" where "num_name_ok \<equiv> [objInt, objReal, objName]"

definition KNOWN_OPERATORS :: "check_types list" where
  "KNOWN_OPERATORS =
    [known [CHR 0x5C] (3) [num_ok, num_ok, string_ok] opSlashUpdate '''',
     known [CHR 0x27] (1) [string_ok] opApoUpdate '''',
     known ''B'' (0) [none_ok] unknownUpdate '''',
     known ''B*'' (0) [none_ok] unknownUpdate '''',
     known ''BDC'' (2) [name_ok, dict_name_ok] unknownUpdate '''',
     known ''BI'' (-1) [none_ok] opBIUpdate ''EI'',
     known ''BMC'' (1) [name_ok] unknownUpdate '''',
     known ''BT'' (0) [none_ok] opBTUpdate ''ET'',
     known ''BX'' (0) [none_ok] unknownUpdate ''EX'',
     known ''CS'' (1) [name_ok] unknownUpdate '''',
     known ''DP'' (2) [name_ok, dict_name_ok] unknownUpdate '''',
     known ''Do'' (1) [name_ok] opDoUpdate '''',
     known ''EI'' (-10) [none_ok] unknownUpdate '''',
     known ''EMC'' (0) [none_ok] unknownUpdate '''',
     known ''ET'' (0) [none_ok] unknownUpdate '''',
     known ''EX'' (0) [none_ok] unknownUpdate '''',
     known ''F'' (0) [none_ok] unknownUpdate '''',
     known ''G'' (1) [num_ok] unknownUpdate '''',
     known ''ID'' (0) [none_ok] opIDUpdate '''',
     known ''J'' (1) [int_ok] unknownUpdate '''',
     known ''K'' (4) [num_ok, num_ok, num_ok, num_ok] unknownUpdate '''',
     known ''M'' (1) [num_ok] unknownUpdate '''',
     known ''MP'' (1) [name_ok] unknownUpdate '''',
     known ''Q'' (0) [none_ok] opQUpdate '''',
     known ''RG'' (3) [num_ok, num_ok, num_ok] unknownUpdate '''',
     known ''S'' (0) [none_ok] unknownUpdate '''',
     known ''SC'' (-4) [num_ok, num_ok, num_ok, num_ok] unknownUpdate '''',
     known ''SCN'' (-5) [num_name_ok, num_name_ok, num_name_ok, num_name_ok, num_name_ok] unknownUpdate '''',
     known ''T*'' (0) [none_ok] opTstarUpdate '''',
     known ''TD'' (2) [num_ok, num_ok] opTDUpdate '''',
     known ''TJ'' (1) [array_ok] opTJUpdate '''',
     known ''TL'' (1) [num_ok] opTLUpdate '''',
     known ''Tc'' (1) [num_ok] opTcUpdate '''',
     known ''Td'' (2) [num_ok, num_ok] opTdUpdate '''',
     known ''Tf'' (2) [name_ok, num_ok] opTfUpdate '''',
     known ''Tj'' (1) [string_ok] opTjUpdate '''',
     known ''Tm'' (6) [num_ok, num_ok, num_ok, num_ok, num_ok, num_ok] opTmUpdate '''',
     known ''Tr'' (1) [int_ok] opTrUpdate '''',
     known ''Ts'' (1) [num_ok] opTsUpdate '''',
     known ''Tw'' (1) [num_ok] opTwUpdate '''',
     known ''Tz'' (1) [num_ok] opTzUpdate '''',
     known ''W'' (0) [none_ok] unknownUpdate '''',
     known ''W*'' (0) [none_ok] unknownUpdate '''',
     known ''b'' (0) [none_ok] unknownUpdate '''',
     known ''b*'' (0) [none_ok] unknownUpdate '''',
     known ''c'' (6) [num_ok, num_ok, num_ok, num_ok, num_ok, num_ok] opcUpdate '''',
     known ''cm'' (6) [num_ok, num_ok, num_ok, num_ok, num_ok, num_ok] opcmUpdate '''',
     known ''cs'' (1) [name_ok] unknownUpdate '''',
     known ''d'' (2) [array_ok, num_ok] unknownUpdate '''',
     known ''d0'' (2) [num_ok, num_ok] unknownUpdate '''',
     known ''d1'' (6) [num_ok, num_ok, num_ok, num_ok, num_ok, num_ok] unknownUpdate '''',
     known ''f'' (0) [none_ok] unknownUpdate '''',
     known ''f*'' (0) [none_ok] unknownUpdate '''',
     known ''g'' (1) [num_ok] unknownUpdate '''',
     known ''gs'' (1) [name_ok] unknownUpdate '''',
     known ''h'' (0) [none_ok] ophUpdate '''',
     known ''i'' (1) [num_ok] unknownUpdate '''',
     known ''j'' (1) [int_ok] unknownUpdate '''',
     known ''k'' (4) [num_ok, num_ok, num_ok, num_ok] unknownUpdate '''',
     known ''l'' (2) [num_ok, num_ok] oplUpdate '''',
     known ''m'' (2) [num_ok, num_ok] opmUpdate '''',
     known ''n'' (0) [none_ok] unknownUpdate '''',
     known ''q'' (0) [none_ok] opqUpdate ''Q'',
     known ''re'' (4) [num_ok, num_ok, num_ok, num_ok] opreUpdate '''',
     known ''rg'' (3) [num_ok, num_ok, num_ok] unknownUpdate '''',
     known ''ri'' (1) [name_ok] unknownUpdate '''',
     known ''s'' (0) [none_ok] unknownUpdate '''',
     known ''sc'' (-4) [num_ok, num_ok, num_ok, num_ok] unknownUpdate '''',
     known ''scn'' (-5) [num_name_ok, num_name_ok, num_name_ok, num_name_ok, num_name_ok] unknownUpdate '''',
     known ''sh'' (1) [name_ok] unknownUpdate '''',
     known ''v'' (4) [num_ok, num_ok, num_ok, num_ok] opvUpdate '''',
     known ''w'' (1) [num_ok] opwUpdate '''',
     known ''y'' (4) [num_ok, num_ok, num_ok, num_ok] opyUpdate '''']"

section \<open>Looking an operator up\<close>

text \<open>
  \<^verbatim>\<open>findOp\<close>: the loop that divides the interval; \<^verbatim>\<open>string::compare\<close> orders by characters.
\<close>

definition compare :: "string \<Rightarrow> string \<Rightarrow> int" where
  "compare s t = (if s < t then -1 else if s = t then 0 else 1)"

function find_loop :: "string \<Rightarrow> int \<Rightarrow> int \<Rightarrow> int \<Rightarrow> int \<times> int" where
  "find_loop opName cmp lo hi =
     (if hi - lo > 1 then
        let med = (lo + hi) div 2;
            c = compare opName (op_name (KNOWN_OPERATORS ! nat med)) in
        if c > 0 then find_loop opName c med hi
        else if c < 0 then find_loop opName c lo med
        else find_loop opName c med med
      else (cmp, lo))"
  by pat_completeness auto
termination by (relation "measure (\<lambda>(_, _, lo, hi). nat (hi - lo))") auto

definition findOp :: "string \<Rightarrow> check_types option" where
  "findOp opName =
     (let (cmp, lo) = find_loop opName (2 ^ 31 - 1) (-1) (int (length KNOWN_OPERATORS)) in
      if cmp = 0 then Some (KNOWN_OPERATORS ! nat lo) else None)"

text \<open>\<^verbatim>\<open>getEndTag\<close> uses the result of the search without a test.\<close>

definition getEndTag :: "string \<Rightarrow> string result" where
  "getEndTag name = (case findOp name of None \<Rightarrow> Inl UndefinedBehaviour | Some e \<Rightarrow> Inr (endTag e))"

definition isSimpleOp :: "check_types \<Rightarrow> bool" where
  "isSimpleOp chck \<longleftrightarrow> endTag chck = ''''"

definition isTextOp :: "check_types \<Rightarrow> bool" where
  "isTextOp chck \<longleftrightarrow> op_name chck \<in> {''TJ'', ''Tj'', [CHR 0x22], [CHR 0x27]}"

section \<open>Checking operands\<close>

text \<open>
  \<^verbatim>\<open>checkAndFixOperator\<close>: the operands from the position the reversed iterator was advanced to.
  The operands are objects of their own, so \<^verbatim>\<open>std::replace\<close> changes the one place.  Reading
  \<^verbatim>\<open>types\<close> at \<^verbatim>\<open>MAX_OPERANDS\<close> or later is undefined.
\<close>

fun fix_operands :: "16 word list \<Rightarrow> nat \<Rightarrow> xobj list \<Rightarrow> (bool \<times> xobj list) result" where
  "fix_operands types pos [] = Inr (True, [])"
| "fix_operands types pos (x # xs) =
     guard (pos \<ge> length types) UndefinedBehaviour
     (if \<not> isBitSet (types ! pos) (getType x) then Inr (False, x # xs)
      else rbind (fix_operands types (pos + 1) xs) (\<lambda>(okay, ys).
        Inr (okay,
          (case x of
             XInt i \<Rightarrow> if isBitSet (types ! pos) objReal then XReal (of_int i) else x
           | _ \<Rightarrow> x) # ys)))"

definition checkAndFixOperator :: "check_types \<Rightarrow> xobj list \<Rightarrow> (bool \<times> xobj list) result" where
  "checkAndFixOperator ops operands =
     (let n = nat (if argNum ops > 0 then argNum ops else - argNum ops) in
      if (argNum ops \<ge> 0 \<and> length operands \<noteq> n) \<or> (argNum ops < 0 \<and> length operands > n)
      then Inr (False, operands)
      else
        let m = min n (length operands); from = length operands - m in
        rbind (fix_operands (op_types ops) 0 (drop from operands)) (\<lambda>(okay, ys).
          Inr (okay, take from operands @ ys)))"

section \<open>The lists of the iterators\<close>

text \<open>
  The arrays of \<^verbatim>\<open>pdfoperatorsiter.cc\<close>; a missing initialiser is the empty string.  The list of the
  changeable operators has no comma between the literals of \<open>b*\<close> and \<open>n\<close>, which joins them.
\<close>

definition text_opers :: "string list" where
  "text_opers = [''Tj'', ''TJ'', [CHR 0x27], [CHR 0x22]]"

definition inline_image_opers :: "string list" where
  "inline_image_opers = [''BI'']"

definition unchangeable_opers :: "string list" where
  "unchangeable_opers =
     [''q'', ''Q'', ''cm'', ''w'', ''J'', ''j'', ''M'', ''d'', ''ri'', ''i'', ''gs'', ''s'', ''S'',
      ''f'', ''F'', ''f*'', ''B'', ''B*'', ''b'', ''b*n'', ''W'', ''W*'', ''BX'', ''EX'', ''rg'',
      ''CS'', ''cs'', ''SC'', ''SCN'', ''sc'', ''scn'', ''G'', ''g'', ''RG'', ''rg'', ''K'', ''k'',
      '''']"

definition font_opers :: "string list" where
  "font_opers = [''Tf'', '''', '''', '''']"

definition graphical_opers :: "string list" where
  "graphical_opers =
     [''f'', ''F'', ''f*'', ''B'', ''S'', ''s'', ''b'', ''B'', ''B*'', ''n'', ''m'', ''l'', ''c'',
      ''v'', ''y'', ''h'', ''re'', ''w'', ''J'', ''j'', ''M'', ''d'', ''ri'', ''gs'', ''BI'']"

section \<open>What the masks say\<close>

lemma objtype_num_less: "objtype_num t < 14"
  by (cases t) simp_all

lemma objtype_num_inject: "objtype_num s = objtype_num t \<longleftrightarrow> s = t"
  by (cases s; cases t) simp_all

lemma isBitSet_bit: "isBitSet w t \<longleftrightarrow> bit w (objtype_num t)"
  by (simp add: isBitSet_def bit_iff_and_push_bit_not_eq_0)

lemma isBitSet_setNthBitsShort [simp]: "isBitSet (setNthBitsShort ts) t \<longleftrightarrow> t \<in> set ts"
proof (induction ts)
  case Nil
  then show ?case by (simp add: isBitSet_def setNoneBitsShort_def)
next
  case (Cons s ts)
  have "bit (push_bit (objtype_num s) 1 :: 16 word) (objtype_num t) \<longleftrightarrow> t = s"
    using objtype_num_less [of t] objtype_num_inject [of t s]
    by (auto simp: bit_exp_iff)
  with Cons show ?case by (simp add: isBitSet_bit bit_or_iff)
qed

lemma isBitSet_none [simp]: "\<not> isBitSet 0 t"
  by (simp add: isBitSet_def)

section \<open>What the search finds\<close>

abbreviation name_at :: "nat \<Rightarrow> string" where
  "name_at i \<equiv> op_name (KNOWN_OPERATORS ! i)"

lemma op_name_known [simp]: "op_name (known n a ts u e) = n"
  by (simp add: known_def)

lemma length_KNOWN_OPERATORS: "length KNOWN_OPERATORS = 73"
  by (simp add: KNOWN_OPERATORS_def)

lemma names_sorted: "sorted_wrt (<) (map op_name (tl KNOWN_OPERATORS))"
  by (simp add: KNOWN_OPERATORS_def sorted_wrt2_simps del: sorted_wrt.simps)

lemma name_at_0: "name_at 0 = [CHR 0x5C]"
  by (simp add: KNOWN_OPERATORS_def)

lemma name_at_less:
  assumes "1 \<le> i" "i < j" "j < 73"
  shows "name_at i < name_at j"
proof -
  have "map op_name (tl KNOWN_OPERATORS) ! (i - 1) < map op_name (tl KNOWN_OPERATORS) ! (j - 1)"
    using assms by (intro sorted_wrt_nth_less [OF names_sorted]) (simp_all add: length_KNOWN_OPERATORS)
  with assms show ?thesis by (simp add: nth_tl length_KNOWN_OPERATORS)
qed

lemma compare_simps:
  "compare s s = 0" "s < t \<Longrightarrow> compare s t = -1" "t < s \<Longrightarrow> compare s t = 1"
  by (auto simp: compare_def)

lemma compare_0: "compare s t = 0 \<longleftrightarrow> s = t"
  by (simp add: compare_def)

declare find_loop.simps [simp del]

lemma find_loop_stop: "hi - lo \<le> 1 \<Longrightarrow> find_loop s cmp lo hi = (cmp, lo)"
  by (subst find_loop.simps) simp

lemma find_loop_step:
  assumes "hi - lo > 1" "med = (lo + hi) div 2" "c = compare s (name_at (nat med))"
  shows "find_loop s cmp lo hi =
    (if c > 0 then find_loop s c med hi else if c < 0 then find_loop s c lo med else (0, med))"
  using assms by (subst find_loop.simps) (simp add: Let_def find_loop_stop)

text \<open>An interval that starts at an entry, or behind the first one, is sorted inside.\<close>

lemma find_loop_hit:
  assumes "0 \<le> lo" "lo < int i" "int i < hi" "hi \<le> 73"
  shows "find_loop (name_at i) cmp lo hi = (0, int i)"
  using assms
proof (induction "name_at i" cmp lo hi rule: find_loop.induct)
  case (1 cmp lo hi)
  define med where "med = (lo + hi) div 2"
  have m: "lo < med" "med < hi" "1 \<le> nat med" "nat med < 73" "med = int (nat med)"
    using "1.prems" by (auto simp: med_def)
  have "nat med < i \<or> i < nat med \<or> nat med = i" by linarith
  note step = find_loop_step [OF _ med_def refl, of "name_at i" cmp]
  have wide: "hi - lo > 1" using m by linarith
  from \<open>nat med < i \<or> i < nat med \<or> nat med = i\<close>
  show ?case
  proof (elim disjE)
    assume l: "nat med < i"
    then have c: "compare (name_at i) (name_at (nat med)) = 1"
      using m "1.prems" by (intro compare_simps(3) name_at_less) auto
    then show ?thesis
      using step [OF wide] "1.hyps"(1) [OF wide med_def refl] "1.prems" m l by simp
  next
    assume l: "i < nat med"
    then have c: "compare (name_at i) (name_at (nat med)) = -1"
      using m "1.prems" by (intro compare_simps(2) name_at_less) auto
    then show ?thesis
      using step [OF wide] "1.hyps"(2) [OF wide med_def refl] "1.prems" m l by simp
  next
    assume "nat med = i"
    then show ?thesis using step [OF wide] m by (simp add: compare_simps)
  qed
qed

lemma find_loop_left:
  assumes "1 \<le> i" "int i < hi" "hi \<le> 73" "3 \<le> hi"
  shows "find_loop (name_at i) cmp (-1) hi =
    (if int i < (hi - 1) div 2 then find_loop (name_at i) (-1) (-1) ((hi - 1) div 2) else (0, int i))"
proof -
  define med where "med = (hi - 1) div 2"
  have m: "1 \<le> nat med" "nat med < 73" "med = int (nat med)" "0 \<le> med" "med < hi"
    using assms by (auto simp: med_def)
  have wide: "hi - (-1) > 1" and med: "med = (-1 + hi) div 2" using assms by (auto simp: med_def)
  note step = find_loop_step [OF wide med refl, of "name_at i" cmp]
  consider "nat med < i" | "i < nat med" | "nat med = i" by linarith
  then show ?thesis
  proof cases
    case 1
    then have "compare (name_at i) (name_at (nat med)) = 1"
      using m assms by (intro compare_simps(3) name_at_less) auto
    with 1 m assms step show ?thesis by (simp add: find_loop_hit flip: med_def)
  next
    case 2
    then have "compare (name_at i) (name_at (nat med)) = -1"
      using m assms by (intro compare_simps(2) name_at_less) auto
    moreover have "int i < med" using 2 by linarith
    ultimately show ?thesis using step by (simp flip: med_def)
  next
    case 3
    with m assms step show ?thesis by (simp add: compare_simps flip: med_def)
  qed
qed

lemma find_loop_found:
  assumes "1 \<le> i" "i < 73"
  shows "find_loop (name_at i) cmp (-1) 73 = (0, int i)"
  using assms by (simp add: find_loop_left)

lemma find_loop_sound:
  assumes "fst (find_loop s cmp lo hi) = 0" "cmp \<noteq> 0" "-1 \<le> lo" "lo < hi"
  shows "\<exists>i. snd (find_loop s cmp lo hi) = int i \<and> lo < int i \<and> int i < hi \<and> name_at i = s"
  using assms
proof (induction s cmp lo hi rule: find_loop.induct)
  case (1 s cmp lo hi)
  define med where "med = (lo + hi) div 2"
  show ?case
  proof (cases "hi - lo > 1")
    case False
    with "1.prems" show ?thesis by (simp add: find_loop_stop)
  next
    case True
    with "1.prems" have m: "lo < med" "med < hi" "0 \<le> med" by (auto simp: med_def)
    define c where "c = compare s (name_at (nat med))"
    note step = find_loop_step [OF True med_def c_def, of cmp]
    consider "c > 0" | "c < 0" | "c = 0" by linarith
    then show ?thesis
    proof cases
      case 1
      with "1.IH"(1) [OF True med_def c_def 1] "1.prems" m step show ?thesis by fastforce
    next
      case 2
      with "1.IH"(2) [OF True med_def c_def] "1.prems" m step show ?thesis by fastforce
    next
      case 3
      then have "s = name_at (nat med)" by (simp add: c_def compare_0)
      with 3 m step show ?thesis
by (intro exI [of _ "nat med"]) simp
    qed
  qed
qed

lemma name_at_inject:
  assumes "1 \<le> i" "i < 73" "1 \<le> j" "j < 73" "name_at i = name_at j"
  shows "i = j"
  using assms name_at_less [of i j] name_at_less [of j i] by (cases i j rule: linorder_cases) auto

lemma findOp_at:
  "1 \<le> i \<Longrightarrow> i < 73 \<Longrightarrow> findOp (name_at i) = Some (KNOWN_OPERATORS ! i)"
  by (simp add: findOp_def find_loop_found length_KNOWN_OPERATORS)

lemma findOp_Some:
  assumes "findOp s = Some e"
  shows "\<exists>i<73. KNOWN_OPERATORS ! i = e \<and> op_name e = s"
proof -
  obtain cmp lo where r: "find_loop s (2 ^ 31 - 1) (-1) 73 = (cmp, lo)" by force
  with assms have "cmp = 0" "e = KNOWN_OPERATORS ! nat lo"
    by (auto simp: findOp_def length_KNOWN_OPERATORS split: if_splits)
  with r find_loop_sound [of s "2 ^ 31 - 1" "-1" 73] show ?thesis by fastforce
qed


lemma findOp_backslash: "findOp [CHR 0x5C] = None"
proof (rule ccontr)
  assume "findOp [CHR 0x5C] \<noteq> None"
  then obtain cmp lo where "find_loop [CHR 0x5C] (2 ^ 31 - 1) (-1) 73 = (0, lo)"
    by (auto simp: findOp_def length_KNOWN_OPERATORS split: prod.splits if_splits)
  then have l: "find_loop [CHR 0x5C] 1 36 73 = (0, lo)"
    by (simp add: find_loop_step [of _ _ 36 1] KNOWN_OPERATORS_def compare_def)
  from find_loop_sound [of "[CHR 0x5C]" 1 36 73] l
  obtain i where "36 < i" "i < 73" "name_at i = [CHR 0x5C]" by auto
  then have "map op_name (tl KNOWN_OPERATORS) ! (i - 1) = [CHR 0x5C]"
      "i - 1 < length (map op_name (tl KNOWN_OPERATORS))"
    by (simp_all add: nth_tl length_KNOWN_OPERATORS)
  then have "[CHR 0x5C] \<in> set (map op_name (tl KNOWN_OPERATORS))" by (metis nth_mem)
  then show False by (simp add: KNOWN_OPERATORS_def)
qed

lemma findOp_find:
  "findOp s = (if s = [CHR 0x5C] then None else find (\<lambda>e. op_name e = s) KNOWN_OPERATORS)"
proof (cases "\<exists>i. 1 \<le> i \<and> i < 73 \<and> name_at i = s")
  case True
  then obtain i where i: "1 \<le> i" "i < 73" "name_at i = s" by blast
  have ne: "name_at i \<noteq> name_at 0"
    using i findOp_at [of i] findOp_backslash by (metis name_at_0 option.distinct(1))
  have "find (\<lambda>e. op_name e = s) KNOWN_OPERATORS = Some (KNOWN_OPERATORS ! i)"
  proof (subst find_Some_iff, intro exI [of _ i] conjI allI impI)
    fix j assume "j < i"
    then show "name_at j \<noteq> s"
      using i ne name_at_inject [of j i] by (cases "j = 0") auto
  qed (use i in \<open>simp_all add: length_KNOWN_OPERATORS\<close>)
  with i ne findOp_at [of i] show ?thesis by (simp add: name_at_0)
next
  case False
  have "find (\<lambda>e. op_name e = s) KNOWN_OPERATORS = None" if "s \<noteq> [CHR 0x5C]"
    using False that by (auto simp: find_None_iff in_set_conv_nth length_KNOWN_OPERATORS Suc_le_eq
        intro: ccontr) (metis gr0I name_at_0)
  moreover have "findOp s = None"
    using False findOp_Some [of s] findOp_backslash by (cases "findOp s") (auto, metis gr0I name_at_0 Suc_leI One_nat_def option.distinct(1))
  ultimately show ?thesis by simp
qed

text \<open>
  Claim C39: \<^verbatim>\<open>findOp\<close> returns for every string the entry of \<^verbatim>\<open>KNOWN_OPERATORS\<close>
  with that name, as a search from the first entry would, except that the first entry, which is out
  of order, is never found; for any other string it returns \<^verbatim>\<open>NULL\<close>.
\<close>

theorem findOp_searches:
  "findOp s = (if s = [CHR 0x5C] then None else find (\<lambda>e. op_name e = s) KNOWN_OPERATORS)"
  by (rule findOp_find)

lemma findOp_member: "findOp s = Some e \<Longrightarrow> e \<in> set KNOWN_OPERATORS \<and> op_name e = s"
  using findOp_Some [of s e] length_KNOWN_OPERATORS by (auto simp: in_set_conv_nth)

section \<open>What the operand check does\<close>

text \<open>
  The reference: the count is right and every operand has a type its position allows; an integer at
  a position that allows reals becomes the real.
\<close>

definition fits :: "check_types \<Rightarrow> xobj list \<Rightarrow> bool" where
  "fits e ops \<longleftrightarrow>
     (if argNum e \<ge> 0 then length ops = nat (argNum e) else length ops \<le> nat (- argNum e)) \<and>
     list_all (\<lambda>(t, x). isBitSet t (getType x)) (zip (op_types e) ops)"

fun as_real :: "16 word \<Rightarrow> xobj \<Rightarrow> xobj" where
  "as_real t (XInt i) = (if isBitSet t objReal then XReal (of_int i) else XInt i)"
| "as_real t x = x"

definition fixed :: "check_types \<Rightarrow> xobj list \<Rightarrow> xobj list" where
  "fixed e ops = map2 as_real (op_types e) ops"

lemma as_real_case:
  "(case x of XInt i \<Rightarrow> if isBitSet t objReal then XReal (of_int i) else x | _ \<Rightarrow> x) = as_real t x"
  by (cases x) simp_all

lemma fix_operands_spec:
  "pos + length xs \<le> length types \<Longrightarrow>
   \<exists>ys. fix_operands types pos xs =
       Inr (list_all (\<lambda>(t, x). isBitSet t (getType x)) (zip (drop pos types) xs), ys) \<and>
     (list_all (\<lambda>(t, x). isBitSet t (getType x)) (zip (drop pos types) xs) \<longrightarrow>
        ys = map2 as_real (drop pos types) xs)"
proof (induction types pos xs rule: fix_operands.induct)
  case (2 types pos x xs)
  have pos: "pos < length types" using "2.prems" by simp
  then have d: "drop pos types = types ! pos # drop (pos + 1) types"
    by (simp add: Cons_nth_drop_Suc)
  show ?case
  proof (cases "isBitSet (types ! pos) (getType x)")
    case False
    with pos show ?thesis by (simp add: d guard_def)
  next
    case True
    with 2 pos obtain ys where
      "fix_operands types (pos + 1) xs =
         Inr (list_all (\<lambda>(t, x). isBitSet t (getType x)) (zip (drop (pos + 1) types) xs), ys)"
      "list_all (\<lambda>(t, x). isBitSet t (getType x)) (zip (drop (pos + 1) types) xs) \<longrightarrow>
         ys = map2 as_real (drop (pos + 1) types) xs" by auto
    with True pos show ?thesis by (auto simp: d guard_def as_real_case)
  qed
qed simp

lemma table_bounds:
  "e \<in> set KNOWN_OPERATORS \<Longrightarrow>
     length (op_types e) = MAX_OPERANDS \<and>
     (abs (argNum e) \<le> 6 \<or> argNum e < 0 \<and> op_types e ! 0 = 0)"
  by (auto simp: KNOWN_OPERATORS_def known_def MAX_OPERANDS_def setNoneBitsShort_def)


lemma operands_checked_spec:
  assumes "e \<in> set KNOWN_OPERATORS"
  shows "\<exists>ops'. checkAndFixOperator e ops = Inr (fits e ops, ops') \<and>
    (fits e ops \<longrightarrow> ops' = fixed e ops \<and> length ops' = length ops)"
proof -
  define n where "n = nat (if argNum e > 0 then argNum e else - argNum e)"
  have n: "argNum e \<ge> 0 \<Longrightarrow> n = nat (argNum e)" "argNum e < 0 \<Longrightarrow> n = nat (- argNum e)"
    by (auto simp: n_def)
  let ?bad = "(argNum e \<ge> 0 \<and> length ops \<noteq> n) \<or> (argNum e < 0 \<and> length ops > n)"
  note t = table_bounds [OF assms]
  show ?thesis
  proof (cases ?bad)
    case True
    then have "\<not> fits e ops" using n by (auto simp: fits_def split: if_splits)
    with True show ?thesis by (simp add: checkAndFixOperator_def flip: n_def)
  next
    case False
    then have m: "min n (length ops) = length ops" by auto
    from False have count: "if argNum e \<ge> 0 then length ops = nat (argNum e)
        else length ops \<le> nat (- argNum e)" using n by (auto split: if_splits)
    have check: "checkAndFixOperator e ops =
        rbind (fix_operands (op_types e) 0 ops) (\<lambda>(okay, ys). Inr (okay, ys))"
      unfolding checkAndFixOperator_def Let_def n_def [symmetric] m
      using False by (subst if_not_P) simp_all
    show ?thesis
    proof (cases "length ops \<le> length (op_types e)")
      case True
      with fix_operands_spec [of 0 ops "op_types e"] check count show ?thesis
        by (auto simp: fits_def fixed_def)
    next
      case False
      with t count obtain x xs where "ops = x # xs" "op_types e ! 0 = 0"
        by (cases ops) (auto simp: MAX_OPERANDS_def split: if_splits)
      moreover from this False t obtain ts where "op_types e = 0 # ts"
        by (cases "op_types e") (auto simp: MAX_OPERANDS_def)
      ultimately show ?thesis using check by (simp add: fits_def guard_def)
    qed
  qed
qed

text \<open>
  Claim C40: for every operator of the table and any operand stack \<^verbatim>\<open>checkAndFixOperator\<close> stays
  inside the array of types, answers true exactly when the number of operands and each of their
  types fit, and has then turned the integers at positions that allow reals into reals and nothing
  else.
\<close>

theorem operands_checked:
  assumes "e \<in> set KNOWN_OPERATORS"
  shows "\<exists>ops'. checkAndFixOperator e ops = Inr (fits e ops, ops') \<and>
    (fits e ops \<longrightarrow> ops' = fixed e ops \<and> length ops' = length ops)"
  using assms by (rule operands_checked_spec)

theorem operands_checked_witness:
  "\<exists>ops'. checkAndFixOperator (known ''Tf'' 2 [name_ok, num_ok] opTfUpdate []) [XName ''F'', XInt 9] =
       Inr (fits (known ''Tf'' 2 [name_ok, num_ok] opTfUpdate []) [XName ''F'', XInt 9], ops') \<and>
     ops' = [XName ''F'', XReal 9]"
proof -
  have "known ''Tf'' 2 [name_ok, num_ok] opTfUpdate [] \<in> set KNOWN_OPERATORS"
    by (simp add: KNOWN_OPERATORS_def)
  from operands_checked [OF this, of "[XName ''F'', XInt 9]"] show ?thesis
    by (auto simp: fits_def fixed_def known_def MAX_OPERANDS_def simp del: setNthBitsShort.simps)
qed

text \<open>
  Two consequences: the text operator that sets the spacings is not found by its name, and the
  joined literal makes two painting operators changeable.
\<close>

lemma quote_operator_unknown: "findOp [CHR 0x22] = None"
  using findOp_member [of "[CHR 0x22]"] by (cases "findOp [CHR 0x22]") (auto simp: KNOWN_OPERATORS_def)

lemma b_star_and_n_changeable: "''b*'' \<notin> set unchangeable_opers \<and> ''n'' \<notin> set unchangeable_opers"
  by (simp add: unchangeable_opers_def)

end
