(* ===== verification/Operator_List.thy ===== *)
theory Operator_List
  imports Operator_Table Cobject_String "HOL-Library.Monad_Syntax"
begin

text \<open>
  The operators of a content stream (\<^verbatim>\<open>src/src/kernel/pdfoperatorsbase.cc\<close>,
  \<^verbatim>\<open>pdfoperators.h\<close>, \<^verbatim>\<open>utils/listitem.h\<close>, \<^verbatim>\<open>utils/iterator.h\<close>): objects
  that are at the same time nodes of a tree of composites and items of a doubly linked list with all
  operators of the stream.  The store maps addresses to operators; the weak pointers of the list are
  addresses, expired when the store holds nothing there.  The lemmas relate the tree and the list:
  the list is the tree in preorder.
\<close>

section \<open>Operators and their store\<close>

text \<open>\<^verbatim>\<open>CInlineImage\<close>: its dictionary and its buffer.\<close>

type_synonym inline_image = "dict \<times> string"

text \<open>
  The classes of operators: \<^verbatim>\<open>SimpleGenericOperator\<close>, \<^verbatim>\<open>TextSimpleOperator\<close>,
  \<^verbatim>\<open>UnknownCompositePdfOperator\<close> with its children, \<^verbatim>\<open>InlineImageCompositePdfOperator\<close>.
\<close>

datatype op_class =
    SimpleGenericOperator string "xobj list"
  | TextSimpleOperator string "xobj list"
  | UnknownCompositePdfOperator string string "nat list"
  | InlineImageCompositePdfOperator "inline_image option" string string

record pdf_op =
  op_class :: op_class
  prev_link :: "nat option"
  next_link :: "nat option"
  contentstream :: "nat option"

record op_store =
  cells :: "nat \<Rightarrow> pdf_op option"
  free_addr :: nat

definition empty_store :: op_store where
  "empty_store = \<lparr>cells = (\<lambda>_. None), free_addr = 0\<rparr>"

text \<open>A new operator stands alone.\<close>

definition new_op :: "op_class \<Rightarrow> op_store \<Rightarrow> nat \<times> op_store" where
  "new_op k st =
     (free_addr st,
      \<lparr>cells = (cells st)(free_addr st \<mapsto>
         \<lparr>op_class = k, prev_link = None, next_link = None, contentstream = None\<rparr>),
       free_addr = free_addr st + 1\<rparr>)"

definition update_op :: "nat \<Rightarrow> (pdf_op \<Rightarrow> pdf_op) \<Rightarrow> op_store \<Rightarrow> op_store" where
  "update_op a f st =
     (case cells st a of None \<Rightarrow> st | Some p \<Rightarrow> st\<lparr>cells := (cells st)(a \<mapsto> f p)\<rparr>)"

definition setNext :: "nat \<Rightarrow> nat option \<Rightarrow> op_store \<Rightarrow> op_store" where
  "setNext a n = update_op a (\<lambda>p. p\<lparr>next_link := n\<rparr>)"

definition setPrev :: "nat \<Rightarrow> nat option \<Rightarrow> op_store \<Rightarrow> op_store" where
  "setPrev a n = update_op a (\<lambda>p. p\<lparr>prev_link := n\<rparr>)"

definition setContentStream :: "nat \<Rightarrow> nat \<Rightarrow> op_store \<Rightarrow> op_store" where
  "setContentStream a cs = update_op a (\<lambda>p. p\<lparr>contentstream := Some cs\<rparr>)"

text \<open>Locking a weak pointer of the list.\<close>

definition alive :: "op_store \<Rightarrow> nat option \<Rightarrow> nat option" where
  "alive st w = (case w of None \<Rightarrow> None | Some a \<Rightarrow> if cells st a = None then None else Some a)"

definition next_of :: "op_store \<Rightarrow> nat \<Rightarrow> nat option" where
  "next_of st a = (case cells st a of None \<Rightarrow> None | Some p \<Rightarrow> alive st (next_link p))"

definition prev_of :: "op_store \<Rightarrow> nat \<Rightarrow> nat option" where
  "prev_of st a = (case cells st a of None \<Rightarrow> None | Some p \<Rightarrow> alive st (prev_link p))"

text \<open>The virtual functions of the classes.\<close>

fun children_in :: "op_class \<Rightarrow> nat list" where
  "children_in (UnknownCompositePdfOperator _ _ cs) = cs"
| "children_in _ = []"

fun operator_name :: "op_class \<Rightarrow> string" where
  "operator_name (SimpleGenericOperator n _) = n"
| "operator_name (TextSimpleOperator n _) = n"
| "operator_name (UnknownCompositePdfOperator b _ _) = b"
| "operator_name (InlineImageCompositePdfOperator _ b _) = b"

fun parameters_in :: "op_class \<Rightarrow> xobj list" where
  "parameters_in (SimpleGenericOperator _ xs) = xs"
| "parameters_in (TextSimpleOperator _ xs) = xs"
| "parameters_in (UnknownCompositePdfOperator _ _ _) = []"
| "parameters_in (InlineImageCompositePdfOperator im _ _) =
     (case im of None \<Rightarrow> [] | Some (d, buf) \<Rightarrow> [XStream d buf])"

fun composite_class :: "op_class \<Rightarrow> bool" where
  "composite_class (UnknownCompositePdfOperator _ _ _) = True"
| "composite_class (InlineImageCompositePdfOperator _ _ _) = True"
| "composite_class _ = False"

definition getChildren :: "op_store \<Rightarrow> nat \<Rightarrow> nat list" where
  "getChildren st a = (case cells st a of None \<Rightarrow> [] | Some p \<Rightarrow> children_in (op_class p))"

definition getOperatorName :: "op_store \<Rightarrow> nat \<Rightarrow> string" where
  "getOperatorName st a = (case cells st a of None \<Rightarrow> [] | Some p \<Rightarrow> operator_name (op_class p))"

definition isCompositeOp :: "op_store \<Rightarrow> nat \<Rightarrow> bool" where
  "isCompositeOp st a = (case cells st a of None \<Rightarrow> False | Some p \<Rightarrow> composite_class (op_class p))"

definition isInlineImageOp :: "op_store \<Rightarrow> nat \<Rightarrow> bool" where
  "isInlineImageOp st a =
     (case cells st a of
        Some p \<Rightarrow> (case op_class p of InlineImageCompositePdfOperator _ _ _ \<Rightarrow> True | _ \<Rightarrow> False)
      | None \<Rightarrow> False)"

section \<open>The list\<close>

text \<open>\<^verbatim>\<open>PdfOperator::putBehind\<close>, for two operators that are there.\<close>

definition putBehind :: "nat \<Rightarrow> nat \<Rightarrow> op_store \<Rightarrow> op_store" where
  "putBehind behindWhich which st =
     (case next_of st behindWhich of
        Some n \<Rightarrow>
          setNext behindWhich (Some which)
            (setPrev which (Some behindWhich)
              (setPrev n (Some which)
                (setNext which (Some n) st)))
      | None \<Rightarrow> setPrev which (Some behindWhich) (setNext behindWhich (Some which) st))"

text \<open>
  \<^verbatim>\<open>DoubleListIterator\<close>.  The walk to the next accepted item may not end on a list that is a
  circle.
\<close>

datatype position = pend | pbegin | pvalid | pinvalid

record op_iter =
  cur :: nat
  curpos :: position

definition getIterator :: "op_store \<Rightarrow> nat \<Rightarrow> op_iter" where
  "getIterator st a = \<lparr>cur = a, curpos = (if cells st a = None then pinvalid else pvalid)\<rparr>"

partial_function (option) next_loop :: "(nat \<Rightarrow> bool) \<Rightarrow> op_store \<Rightarrow> nat \<Rightarrow> op_iter option" where
  "next_loop validItem st c =
     (case next_of st c of
        None \<Rightarrow> Some \<lparr>cur = c, curpos = pend\<rparr>
      | Some n \<Rightarrow>
          if validItem n then Some \<lparr>cur = n, curpos = pvalid\<rparr> else next_loop validItem st n)"

partial_function (option) prev_loop :: "(nat \<Rightarrow> bool) \<Rightarrow> op_store \<Rightarrow> nat \<Rightarrow> op_iter option" where
  "prev_loop validItem st c =
     (case prev_of st c of
        None \<Rightarrow> Some \<lparr>cur = c, curpos = pbegin\<rparr>
      | Some n \<Rightarrow>
          if validItem n then Some \<lparr>cur = n, curpos = pvalid\<rparr> else prev_loop validItem st n)"

definition iter_next :: "(nat \<Rightarrow> bool) \<Rightarrow> op_store \<Rightarrow> op_iter \<Rightarrow> op_iter result option" where
  "iter_next validItem st it =
     (case curpos it of
        pinvalid \<Rightarrow> Some (Inl IteratorInvalidObjectException)
      | pend \<Rightarrow> Some (Inl IteratorInvalidObjectException)
      | pbegin \<Rightarrow> Some (Inr (it\<lparr>curpos := pvalid\<rparr>))
      | pvalid \<Rightarrow> map_option Inr (next_loop validItem st (cur it)))"

definition iter_prev :: "(nat \<Rightarrow> bool) \<Rightarrow> op_store \<Rightarrow> op_iter \<Rightarrow> op_iter result option" where
  "iter_prev validItem st it =
     (case curpos it of
        pinvalid \<Rightarrow> Some (Inl IteratorInvalidObjectException)
      | pbegin \<Rightarrow> Some (Inl IteratorInvalidObjectException)
      | pend \<Rightarrow> Some (Inr (it\<lparr>curpos := pvalid\<rparr>))
      | pvalid \<Rightarrow> map_option Inr (prev_loop validItem st (cur it)))"

text \<open>The items of the base class, and of the accepting and the rejecting iterators.\<close>

definition any_op :: "nat \<Rightarrow> bool" where
  "any_op a = True"

definition accepted :: "string list \<Rightarrow> op_store \<Rightarrow> nat \<Rightarrow> bool" where
  "accepted names st a \<longleftrightarrow> getOperatorName st a \<in> set names"

definition not_rejected :: "string list \<Rightarrow> op_store \<Rightarrow> nat \<Rightarrow> bool" where
  "not_rejected names st a \<longleftrightarrow> getOperatorName st a \<notin> set names"

text \<open>
  The constructor of those iterators goes to the first item they take; the loop there runs once, as
  a step already skips the others.  An expired pointer is dereferenced.
\<close>

definition filtered_iterator ::
    "(nat \<Rightarrow> bool) \<Rightarrow> bool \<Rightarrow> op_store \<Rightarrow> nat \<Rightarrow> op_iter result option" where
  "filtered_iterator validItem forwarddir st a =
     (let it = getIterator st a in
      if cells st a = None then Some (Inl UndefinedBehaviour)
      else if validItem a then Some (Inr it)
      else if forwarddir then iter_next validItem st it else iter_prev validItem st it)"

section \<open>The tree\<close>

text \<open>\<^verbatim>\<open>getLastOperator\<close>: the last operator of a composite, in the order of the list.\<close>

partial_function (option) last_loop :: "op_store \<Rightarrow> nat \<Rightarrow> nat option" where
  "last_loop st tmpop =
     (if isCompositeOp st tmpop then
        (case getChildren st tmpop of
           [] \<Rightarrow> Some tmpop
         | c # cs \<Rightarrow> last_loop st (last (c # cs)))
      else Some tmpop)"

definition getLastOperator :: "op_store \<Rightarrow> nat \<Rightarrow> nat option" where
  "getLastOperator st oper =
     (if \<not> isCompositeOp st oper \<or> getChildren st oper = [] then Some oper
      else last_loop st (last (getChildren st oper)))"

definition set_children :: "nat \<Rightarrow> (nat list \<Rightarrow> nat list) \<Rightarrow> op_store \<Rightarrow> op_store" where
  "set_children a f =
     update_op a (\<lambda>p. p\<lparr>op_class :=
       (case op_class p of
          UnknownCompositePdfOperator b e cs \<Rightarrow> UnknownCompositePdfOperator b e (f cs)
        | k \<Rightarrow> k)\<rparr>)"

text \<open>
  \<^verbatim>\<open>CompositePdfOperator::push_back\<close>: without children the operator to go behind must be given,
  without it the last child must be no composite.
\<close>

definition push_back :: "nat \<Rightarrow> nat \<Rightarrow> nat option \<Rightarrow> op_store \<Rightarrow> op_store result" where
  "push_back this oper prev st =
     (let children = getChildren st this in
      if children = [] then
        (case prev of
           Some p \<Rightarrow> Inr (putBehind p oper (set_children this (\<lambda>cs. cs @ [oper]) st))
         | None \<Rightarrow> Inl CObjInvalidOperation)
      else
        rbind
          (case prev of
             Some p \<Rightarrow> Inr p
           | None \<Rightarrow> if isCompositeOp st (last children) then Inl CObjInvalidOperation
                     else Inr (last children))
          (\<lambda>p. Inr (set_children this (\<lambda>cs. cs @ [oper]) (putBehind p oper st))))"

text \<open>\<^verbatim>\<open>CompositePdfOperator::remove\<close>.\<close>

definition remove_child :: "nat \<Rightarrow> nat \<Rightarrow> op_store \<Rightarrow> op_store result" where
  "remove_child this oper st =
     guard (oper \<notin> set (getChildren st this)) CObjInvalidOperation
       (Inr (set_children this (remove1 oper) st))"

text \<open>
  \<^verbatim>\<open>CompositePdfOperator::insert_after\<close> steps behind what it finds, also behind the end.
\<close>

fun list_insert_after :: "'a \<Rightarrow> 'a \<Rightarrow> 'a list \<Rightarrow> 'a list" where
  "list_insert_after x y [] = []"
| "list_insert_after x y (z # zs) = (if z = x then z # y # zs else z # list_insert_after x y zs)"

definition insert_after :: "nat \<Rightarrow> nat \<Rightarrow> nat \<Rightarrow> op_store \<Rightarrow> op_store result" where
  "insert_after this oper newOper st =
     guard (oper \<notin> set (getChildren st this)) UndefinedBehaviour
       (Inr (set_children this (list_insert_after oper newOper) st))"

section \<open>Text\<close>

text \<open>
  The representation of an operator: operands and name; a composite writes its name and its children,
  its end tag is the last of them.  The keys of an inline image are written as they are.
\<close>

fun operand_strings :: "(dict \<Rightarrow> string \<Rightarrow> string) \<Rightarrow> xobj list \<Rightarrow> string result" where
  "operand_strings sr [] = Inr []"
| "operand_strings sr (x # xs) =
     rbind (obj_string sr x) (\<lambda>s. rbind (operand_strings sr xs) (\<lambda>t. Inr (s @ '' '' @ t)))"

fun image_entries :: "(dict \<Rightarrow> string \<Rightarrow> string) \<Rightarrow> dict \<Rightarrow> string result" where
  "image_entries sr [] = Inr []"
| "image_entries sr ((k, v) # d) =
     rbind (obj_string sr v) (\<lambda>s. rbind (image_entries sr d) (\<lambda>t.
       Inr (''/'' @ k @ '' '' @ s @ newline @ t)))"

definition image_string :: "(dict \<Rightarrow> string \<Rightarrow> string) \<Rightarrow> inline_image \<Rightarrow> string result" where
  "image_string sr im =
     rbind (image_entries sr (fst im)) (\<lambda>s. Inr (s @ ''ID'' @ [CHR 0x00] @ snd im))"

fun own_string :: "(dict \<Rightarrow> string \<Rightarrow> string) \<Rightarrow> op_class \<Rightarrow> string result" where
  "own_string sr (SimpleGenericOperator n xs) = rbind (operand_strings sr xs) (\<lambda>s. Inr (s @ n))"
| "own_string sr (TextSimpleOperator n xs) = rbind (operand_strings sr xs) (\<lambda>s. Inr (s @ n))"
| "own_string sr (UnknownCompositePdfOperator b e cs) = Inr (b @ '' '')"
| "own_string sr (InlineImageCompositePdfOperator im b e) =
     (case im of
        None \<Rightarrow> Inl CObjInvalidObject
      | Some i \<Rightarrow> rbind (image_string sr i) (\<lambda>s. Inr (b @ newline @ s @ e @ newline)))"

text \<open>
  \<^verbatim>\<open>getStringRepresentation\<close> of the operators of a list, each with a space behind it: the body of
  a composite and of the whole stream.
\<close>

definition class_at :: "op_store \<Rightarrow> nat \<Rightarrow> op_class" where
  "class_at st a = (case cells st a of None \<Rightarrow> SimpleGenericOperator [] [] | Some p \<Rightarrow> op_class p)"

partial_function (option) ops_string ::
    "(dict \<Rightarrow> string \<Rightarrow> string) \<Rightarrow> op_store \<Rightarrow> nat list \<Rightarrow> string result option" where
  "ops_string sr st as =
     (case as of
        [] \<Rightarrow> Some (Inr [])
      | a # rest \<Rightarrow>
          do {
            body \<leftarrow> ops_string sr st (getChildren st a);
            more \<leftarrow> ops_string sr st rest;
            Some (rbind (own_string sr (class_at st a)) (\<lambda>s. rbind body (\<lambda>t. rbind more (\<lambda>u.
              Inr (s @ t @ '' '' @ u)))))
          })"

section \<open>Trees and their preorder\<close>

text \<open>
  What a part of the store represents: a tree of addresses.  \<open>flat\<close> is its preorder, \<open>stands st t\<close>
  says that the composites of the store have the children of the tree, and \<open>linked st p xs n\<close> that the
  operators \<open>xs\<close> are chained in both directions, between the links \<open>p\<close> and \<open>n\<close>.
\<close>

datatype op_tree = OpTree (root_op: nat) (sub_ops: "op_tree list")

fun flat :: "op_tree \<Rightarrow> nat list" where
  "flat (OpTree a ts) = a # concat (map flat ts)"

abbreviation flats :: "op_tree list \<Rightarrow> nat list" where
  "flats ts \<equiv> concat (map flat ts)"

fun stands :: "op_store \<Rightarrow> op_tree \<Rightarrow> bool" where
  "stands st (OpTree a ts) \<longleftrightarrow>
     cells st a \<noteq> None \<and> getChildren st a = map root_op ts \<and> (\<forall>t\<in>set ts. stands st t)"

fun linked :: "op_store \<Rightarrow> nat option \<Rightarrow> nat list \<Rightarrow> nat option \<Rightarrow> bool" where
  "linked st p [] n \<longleftrightarrow> True"
| "linked st p (x # xs) n \<longleftrightarrow>
     (\<exists>q. cells st x = Some q \<and> prev_link q = p \<and>
       next_link q = (case xs of [] \<Rightarrow> n | y # _ \<Rightarrow> Some y)) \<and>
     linked st (Some x) xs n"

definition first_of :: "nat list \<Rightarrow> nat option \<Rightarrow> nat option" where
  "first_of xs n = (case xs of [] \<Rightarrow> n | y # _ \<Rightarrow> Some y)"

definition last_of :: "nat list \<Rightarrow> nat option \<Rightarrow> nat option" where
  "last_of xs p = (if xs = [] then p else Some (last xs))"

lemma first_of_simps [simp]:
  "first_of [] n = n" "first_of (y # ys) n = Some y" "first_of (xs @ ys) n = first_of xs (first_of ys n)"
  by (simp_all add: first_of_def split: list.splits)

lemma last_of_simps [simp]:
  "last_of [] p = p" "last_of (y # ys) p = last_of ys (Some y)"
  "last_of (xs @ ys) p = last_of ys (last_of xs p)"
  by (simp_all add: last_of_def)

lemma linked_append [simp]:
  "linked st p (xs @ ys) n \<longleftrightarrow>
     linked st p xs (first_of ys n) \<and> linked st (last_of xs p) ys n"
  by (induction xs arbitrary: p) (auto split: list.splits simp: first_of_def)

lemma root_in_flat [simp]: "root_op t \<in> set (flat t)"
  by (cases t) simp

lemma flat_not_Nil [simp]: "flat t \<noteq> []"
  by (cases t) simp

lemma first_of_flat [simp]: "first_of (flat t) n = Some (root_op t)"
  by (cases t) simp

lemma hd_flat [simp]: "hd (flat t) = root_op t"
  by (cases t) simp

lemma last_of_flat [simp]: "last_of (flat t) p = Some (last (flat t))"
  by (simp add: last_of_def)

lemma roots_in_flats: "t \<in> set ts \<Longrightarrow> root_op t \<in> set (flats ts)"
  by (auto intro!: bexI [of _ t])

section \<open>What the updates keep\<close>

lemma cells_update_op:
  "cells (update_op a f st) = (cells st)(a := map_option f (cells st a))"
  by (auto simp: update_op_def fun_eq_iff split: option.splits)

lemma cells_setters [simp]:
  "cells (setNext a n st) = (cells st)(a := map_option (next_link_update (\<lambda>_. n)) (cells st a))"
  "cells (setPrev a n st) = (cells st)(a := map_option (prev_link_update (\<lambda>_. n)) (cells st a))"
  "cells (setContentStream a c st) =
     (cells st)(a := map_option (contentstream_update (\<lambda>_. Some c)) (cells st a))"
  by (simp_all add: setNext_def setPrev_def setContentStream_def cells_update_op)

lemma getChildren_update:
  "(\<And>p. op_class (f p) = op_class p) \<Longrightarrow> getChildren (update_op a f st) = getChildren st"
  by (auto simp: getChildren_def cells_update_op fun_eq_iff split: option.splits)

lemma getChildren_setters [simp]:
  "getChildren (setNext a n st) = getChildren st"
  "getChildren (setPrev a n st) = getChildren st"
  "getChildren (setContentStream a c st) = getChildren st"
  by (simp_all add: setNext_def setPrev_def setContentStream_def getChildren_update)

lemma dom_update_op: "cells (update_op a f st) b = None \<longleftrightarrow> cells st b = None"
  by (simp add: cells_update_op)

lemma stands_cong:
  assumes "\<And>a. a \<in> set (flat t) \<Longrightarrow> getChildren st' a = getChildren st a"
    "\<And>a. a \<in> set (flat t) \<Longrightarrow> cells st' a = None \<longleftrightarrow> cells st a = None"
  shows "stands st' t \<longleftrightarrow> stands st t"
  using assms
proof (induction t)
  case (OpTree a ts)
  have "stands st' t \<longleftrightarrow> stands st t" if "t \<in> set ts" for t
    by (rule OpTree.IH [OF that]) (use OpTree.prems that in auto)
  with OpTree.prems(1) [of a] OpTree.prems(2) [of a] show ?case by simp
qed

lemma stands_setters [simp]:
  "stands (setNext a n st) t \<longleftrightarrow> stands st t"
  "stands (setPrev a n st) t \<longleftrightarrow> stands st t"
  "stands (setContentStream a c st) t \<longleftrightarrow> stands st t"
  by (rule stands_cong; simp split: if_splits)+

lemma stands_alive: "stands st t \<Longrightarrow> a \<in> set (flat t) \<Longrightarrow> cells st a \<noteq> None"
  by (induction t) auto

definition links_at :: "op_store \<Rightarrow> nat \<Rightarrow> (nat option \<times> nat option) option" where
  "links_at st a = map_option (\<lambda>q. (prev_link q, next_link q)) (cells st a)"

lemma linked_Cons_links:
  "linked st p (x # xs) n \<longleftrightarrow> links_at st x = Some (p, first_of xs n) \<and> linked st (Some x) xs n"
  by (auto simp: links_at_def first_of_def split: list.splits)

lemma linked_frame:
  "(\<And>a. a \<in> set xs \<Longrightarrow> links_at st' a = links_at st a) \<Longrightarrow> linked st' p xs n = linked st p xs n"
  by (induction xs arbitrary: p) (simp_all add: linked_Cons_links del: linked.simps(2))

lemma links_at_setters [simp]:
  "links_at (setNext a n st) =
     (links_at st)(a := map_option (\<lambda>(p, _). (p, n)) (links_at st a))"
  "links_at (setPrev a n st) =
     (links_at st)(a := map_option (\<lambda>(_, m). (n, m)) (links_at st a))"
  "links_at (setContentStream a c st) = links_at st"
  by (auto simp: links_at_def fun_eq_iff option.map_comp comp_def)

lemma linked_other:
  "a \<notin> set xs \<Longrightarrow> linked (setNext a m st) p xs n = linked st p xs n"
  "a \<notin> set xs \<Longrightarrow> linked (setPrev a m st) p xs n = linked st p xs n"
  by (rule linked_frame; auto)+

lemma linked_setContentStream [simp]:
  "linked (setContentStream a c st) p xs n = linked st p xs n"
  by (rule linked_frame) simp

lemma linked_setNext_last:
  "linked st p xs n \<Longrightarrow> xs \<noteq> [] \<Longrightarrow> distinct xs \<Longrightarrow> linked (setNext (last xs) m st) p xs m"
proof (induction xs arbitrary: p)
  case (Cons x xs)
  show ?case
  proof (cases "xs = []")
    case True
    with Cons.prems show ?thesis by (simp add: linked_Cons_links del: linked.simps(2))
  next
    case False
    with Cons have "x \<noteq> last xs" "linked (setNext (last xs) m st) (Some x) xs m"
      by (auto simp: linked_Cons_links simp del: linked.simps(2))
    with Cons.prems(1) False show ?thesis
      by (simp add: linked_Cons_links first_of_def split: list.splits del: linked.simps(2))
  qed
qed simp

lemma linked_setPrev_first:
  "linked st p (x # xs) n \<Longrightarrow> x \<notin> set xs \<Longrightarrow> linked (setPrev x q st) q (x # xs) n"
  by (simp add: linked_Cons_links linked_other del: linked.simps(2))

lemma linked_alive: "linked st p xs n \<Longrightarrow> a \<in> set xs \<Longrightarrow> cells st a \<noteq> None"
  by (induction xs arbitrary: p) auto

lemma next_of_links:
  "next_of st a = (case links_at st a of None \<Rightarrow> None | Some (_, n) \<Rightarrow> alive st n)"
  by (simp add: next_of_def links_at_def split: option.splits)

lemma prev_of_links:
  "prev_of st a = (case links_at st a of None \<Rightarrow> None | Some (p, _) \<Rightarrow> alive st p)"
  by (simp add: prev_of_def links_at_def split: option.splits)

lemma alive_Some: "cells st a \<noteq> None \<Longrightarrow> alive st (Some a) = Some a"
  by (simp add: alive_def)

lemma linked_at:
  "linked st p (xs @ a # ys) n \<Longrightarrow> links_at st a = Some (last_of xs p, first_of ys n)"
  by (simp add: linked_Cons_links del: linked.simps(2))

lemma linked_next_of:
  assumes "linked st p (xs @ a # ys) n"
  shows "next_of st a = (case ys of [] \<Rightarrow> alive st n | y # _ \<Rightarrow> Some y)"
  using linked_at [OF assms] linked_alive [OF assms]
  by (simp add: next_of_links first_of_def alive_Some split: list.splits)

lemma linked_prev_of:
  assumes "linked st p (xs @ a # ys) n"
  shows "prev_of st a = (if xs = [] then alive st p else Some (last xs))"
  using linked_at [OF assms] linked_alive [OF assms, of "last xs"]
  by (simp add: prev_of_links last_of_def alive_Some)

section \<open>The last operator\<close>

lemma isCompositeOp_children: "getChildren st a \<noteq> [] \<Longrightarrow> isCompositeOp st a"
  by (auto simp: getChildren_def isCompositeOp_def split: option.splits)
    (rename_tac p, case_tac "op_class p", simp_all)

lemma last_loop_step:
  "getChildren st a \<noteq> [] \<Longrightarrow> last_loop st a = last_loop st (last (getChildren st a))"
  by (subst last_loop.simps) (auto simp: isCompositeOp_children neq_Nil_conv)

lemma last_loop_leaf: "getChildren st a = [] \<Longrightarrow> last_loop st a = Some a"
  by (subst last_loop.simps) simp

lemma last_loop_stands: "stands st t \<Longrightarrow> last_loop st (root_op t) = Some (last (flat t))"
proof (induction t)
  case (OpTree a ts)
  show ?case
  proof (cases ts rule: rev_cases)
    case Nil
    with OpTree.prems show ?thesis by (simp add: last_loop_leaf)
  next
    case (snoc us u)
    have "last_loop st (root_op u) = Some (last (flat u))"
      using OpTree.IH [of u] OpTree.prems snoc by simp
    with OpTree.prems snoc show ?thesis by (simp add: last_loop_step)
  qed
qed

lemma getLastOperator_stands:
  assumes "stands st t"
  shows "getLastOperator st (root_op t) = Some (last (flat t))"
proof (cases t)
  case (OpTree a ts)
  show ?thesis
  proof (cases ts rule: rev_cases)
    case Nil
    with OpTree assms show ?thesis by (simp add: getLastOperator_def)
  next
    case (snoc us u)
    with OpTree assms last_loop_stands [of st u] isCompositeOp_children [of st a] show ?thesis
      by (simp add: getLastOperator_def)
  qed
qed

section \<open>What the iterators visit\<close>

lemma next_loop_linked:
  "linked st p (xs @ a # ys) None \<Longrightarrow>
     next_loop v st a = Some (case find v ys of
       Some b \<Rightarrow> \<lparr>cur = b, curpos = pvalid\<rparr> | None \<Rightarrow> \<lparr>cur = last (a # ys), curpos = pend\<rparr>)"
proof (induction ys arbitrary: xs a)
  case Nil
  from linked_next_of [OF Nil] show ?case by (subst next_loop.simps) (simp add: alive_def)
next
  case (Cons y ys)
  from Cons.prems have "linked st p ((xs @ [a]) @ y # ys) None" by simp
  from Cons.IH [OF this] linked_next_of [OF Cons.prems] show ?case
    by (subst next_loop.simps) (simp split: option.splits)
qed

lemma prev_loop_linked:
  "linked st None (rev xs @ a # ys) n \<Longrightarrow>
     prev_loop v st a = Some (case find v xs of
       Some b \<Rightarrow> \<lparr>cur = b, curpos = pvalid\<rparr> | None \<Rightarrow> \<lparr>cur = last (a # xs), curpos = pbegin\<rparr>)"
proof (induction xs arbitrary: ys a)
  case Nil
  from linked_prev_of [OF Nil] show ?case by (subst prev_loop.simps) (simp add: alive_def)
next
  case (Cons x xs)
  from Cons.prems have "linked st None (rev xs @ x # a # ys) n" by simp
  from Cons.IH [OF this] linked_prev_of [OF Cons.prems] show ?case
    by (subst prev_loop.simps) (simp split: option.splits)
qed

text \<open>
  The loop of a function that walks an iterator to its end: \<^verbatim>\<open>getOperatorsAtPosition\<close> of
  \<^verbatim>\<open>ccontentstream.h\<close> takes the changeable operators whose bounding boxes the comparator accepts.
\<close>

partial_function (option) visit_loop ::
    "(nat \<Rightarrow> bool) \<Rightarrow> (nat \<Rightarrow> bool) \<Rightarrow> op_store \<Rightarrow> op_iter \<Rightarrow> nat list result option" where
  "visit_loop validItem cmp st it =
     (if curpos it = pend then Some (Inr [])
      else do {
        r \<leftarrow> iter_next validItem st it;
        (case r of
           Inl e \<Rightarrow> Some (Inl e)
         | Inr it' \<Rightarrow> do {
             rest \<leftarrow> visit_loop validItem cmp st it';
             Some (rbind rest (\<lambda>xs. Inr (if cmp (cur it) then cur it # xs else xs)))
           })
      })"

definition getOperatorsAtPosition ::
    "(nat \<Rightarrow> bool) \<Rightarrow> op_store \<Rightarrow> nat list \<Rightarrow> nat list result option" where
  "getOperatorsAtPosition cmp st operators =
     (case operators of
        [] \<Rightarrow> Some (Inr [])
      | a # _ \<Rightarrow>
          do {
            r \<leftarrow> filtered_iterator (not_rejected unchangeable_opers st) True st a;
            (case r of
               Inl e \<Rightarrow> Some (Inl e)
             | Inr it \<Rightarrow> visit_loop (not_rejected unchangeable_opers st) cmp st it)
          })"

text \<open>The operators of a content stream: the first level and the trees below it.\<close>

definition content_ok :: "op_store \<Rightarrow> nat list \<Rightarrow> op_tree list \<Rightarrow> bool" where
  "content_ok st operators ts \<longleftrightarrow>
     operators = map root_op ts \<and> (\<forall>t\<in>set ts. stands st t) \<and>
     distinct (flats ts) \<and> linked st None (flats ts) None"

lemma find_split:
  assumes "find v ys = Some b"
  shows "\<exists>us vs. ys = us @ b # vs \<and> v b \<and> filter v us = []"
proof -
  from assms have "\<exists>y\<in>set ys. v y" by (metis find_None_iff option.distinct(1))
  then obtain us c vs where ys: "ys = us @ c # vs" "v c" "\<forall>u\<in>set us. \<not> v u"
    by (metis split_list_first_prop)
  then have "find v ys = Some c" by (induction us arbitrary: ys) auto
  with ys assms show ?thesis by auto
qed

lemma visit_loop_linked:
  "linked st p (xs @ a # ys) None \<Longrightarrow>
     visit_loop v cmp st \<lparr>cur = a, curpos = pvalid\<rparr> = Some (Inr (filter cmp (a # filter v ys)))"
proof (induction "length ys" arbitrary: xs a ys rule: less_induct)
  case less
  note step = next_loop_linked [OF less.prems, of v]
  show ?case
  proof (cases "find v ys")
    case None
    then have "filter v ys = []" by (auto simp: find_None_iff)
    with None step show ?thesis
      by (subst visit_loop.simps) (simp add: iter_next_def visit_loop.simps [of _ _ _ "\<lparr>cur = _, curpos = pend\<rparr>"])
  next
    case (Some b)
    from find_split [OF Some] obtain us vs where ys: "ys = us @ b # vs" "v b" "filter v us = []"
      by blast
    from less.prems ys have "linked st p ((xs @ a # us) @ b # vs) None" by simp
    from less.hyps [OF _ this] ys have "visit_loop v cmp st \<lparr>cur = b, curpos = pvalid\<rparr> =
        Some (Inr (filter cmp (b # filter v vs)))" by simp
    moreover have "filter v ys = b # filter v vs" using ys by simp
    ultimately show ?thesis using Some step
      by (subst visit_loop.simps) (simp add: iter_next_def)
  qed
qed

lemma filtered_iterator_forward:
  "cells st a \<noteq> None \<Longrightarrow> filtered_iterator v True st a =
     (if v a then Some (Inr \<lparr>cur = a, curpos = pvalid\<rparr>) else map_option Inr (next_loop v st a))"
  by (simp add: filtered_iterator_def getIterator_def iter_next_def Let_def del: not_None_eq)

lemma position_spec:
  assumes "content_ok st operators ts"
  shows "getOperatorsAtPosition cmp st operators =
    Some (Inr (filter cmp (filter (not_rejected unchangeable_opers st) (flats ts))))"
proof (cases "flats ts")
  case Nil
  with assms have "operators = []" by (cases ts) (auto simp: content_ok_def)
  with Nil show ?thesis by (simp add: getOperatorsAtPosition_def)
next
  case (Cons a ys)
  let ?v = "not_rejected unchangeable_opers st"
  from Cons obtain t us where ts: "ts = t # us" by (cases ts) auto
  with Cons have "root_op t = a" by (metis concat.simps(2) flat_not_Nil hd_append2 hd_flat list.sel(1) list.simps(9))
  with assms ts have o: "operators = a # map root_op us" by (simp add: content_ok_def)
  from Cons assms have l: "linked st None ([] @ a # ys) None" by (simp add: content_ok_def)
  have al: "cells st a \<noteq> None" using linked_alive [OF l] by simp
  show ?thesis
  proof (cases "?v a")
    case True
    with o al Cons visit_loop_linked [OF l, of ?v cmp] show ?thesis
      by (simp add: getOperatorsAtPosition_def filtered_iterator_forward [OF al])
  next
    case False
    show ?thesis
    proof (cases "find ?v ys")
      case None
      then have "filter ?v ys = []" by (auto simp: find_None_iff)
      with None False o al Cons next_loop_linked [OF l, of ?v] show ?thesis
        by (simp add: getOperatorsAtPosition_def filtered_iterator_forward [OF al]
            visit_loop.simps [of _ _ _ "\<lparr>cur = _, curpos = pend\<rparr>"])
    next
      case (Some b)
      from find_split [OF Some] obtain us vs where ys: "ys = us @ b # vs" "?v b" "filter ?v us = []"
        by blast
      from l ys have "linked st None ((a # us) @ b # vs) None" by simp
      from visit_loop_linked [OF this, of ?v cmp] Some False o al Cons ys
        next_loop_linked [OF l, of ?v]
      show ?thesis
        by (simp add: getOperatorsAtPosition_def filtered_iterator_forward [OF al])
    qed
  qed
qed

end
