(* ===== verification/Content_Editing.thy ===== *)
theory Content_Editing
  imports Operator_List "HOL-Library.Multiset"
begin

text \<open>
  Changing the operators of a content stream (\<^verbatim>\<open>src/src/kernel/ccontentstream.cc\<close>:
  \<^verbatim>\<open>deleteOperator\<close>, \<^verbatim>\<open>insertOperator\<close>, \<^verbatim>\<open>frontInsertOperator\<close>,
  \<^verbatim>\<open>replaceOperator\<close>, \<^verbatim>\<open>_objectChanged\<close>).  Each operation has to keep the tree of
  composites and the list of all operators in step; the lemmas show that it does, and what the tree is
  afterwards.
\<close>

section \<open>The stream and its operations\<close>

text \<open>
  \<^verbatim>\<open>CContentStream\<close>: the first level of operators, the buffers of the underlying streams, whether
  the first of them is in a document and may be changed, whether the observers of the streams are
  registered, and the number of notifications sent.
\<close>

record content_stream =
  cs_id :: nat
  cs_operators :: "nat list"
  cs_store :: op_store
  cs_buffers :: "string list"
  cs_in_pdf :: bool
  cs_can_change :: bool
  cs_observed :: bool
  cs_notified :: nat

type_synonym cs_outcome = "(unit result \<times> content_stream) option"

text \<open>
  \<^verbatim>\<open>opsSetPdfRefCs\<close> goes through the list from an operator on.  Operands are values here; the
  document and the reference they get are not kept.
\<close>

partial_function (option) opsSetPdfRefCs :: "nat \<Rightarrow> nat \<Rightarrow> op_store \<Rightarrow> op_store option" where
  "opsSetPdfRefCs cs a st =
     (case next_of (setContentStream a cs st) a of
        None \<Rightarrow> Some (setContentStream a cs st)
      | Some n \<Rightarrow> opsSetPdfRefCs cs n (setContentStream a cs st))"

text \<open>
  \<^verbatim>\<open>_objectChanged\<close>: the representation goes to the first stream, the others become empty.  An
  exception of the representation is no \<^verbatim>\<open>PdfException\<close>, so the handler that registers the observers
  again does not run.
\<close>

definition objectChanged :: "(dict \<Rightarrow> string \<Rightarrow> string) \<Rightarrow> content_stream \<Rightarrow> cs_outcome" where
  "objectChanged sr cs =
     (if \<not> cs_in_pdf cs then Some (Inr (), cs)
      else
        map_option
          (\<lambda>r. case r of
             Inl e \<Rightarrow> (Inl e, cs\<lparr>cs_observed := False\<rparr>)
           | Inr s \<Rightarrow> (Inr (), cs\<lparr>cs_buffers := s # map (\<lambda>_. []) (tl (cs_buffers cs)),
                 cs_observed := True, cs_notified := cs_notified cs + 1\<rparr>))
          (ops_string sr (cs_store cs) (cs_operators cs)))"

definition indicate :: "(dict \<Rightarrow> string \<Rightarrow> string) \<Rightarrow> bool \<Rightarrow> content_stream \<Rightarrow> cs_outcome" where
  "indicate sr indicateChange cs =
     (if indicateChange then objectChanged sr cs else Some (Inr (), cs))"

text \<open>\<^verbatim>\<open>findCompositeOfPdfOperator\<close> goes through the list until a composite has the operator.\<close>

partial_function (option) find_composite :: "op_store \<Rightarrow> nat \<Rightarrow> nat option \<Rightarrow> nat result option" where
  "find_composite st oper it =
     (case it of
        None \<Rightarrow> Some (Inl CObjInvalidOperation)
      | Some a \<Rightarrow>
          if isCompositeOp st a \<and> oper \<in> set (getChildren st a) then Some (Inr a)
          else if \<not> isCompositeOp st a \<and> a = oper then Some (Inl CObjInvalidObject)
          else find_composite st oper (next_of st a))"

text \<open>
  Changing the list that holds an operator: the first level, or the children of the composite it is
  in.
\<close>

definition change_level ::
    "(nat list \<Rightarrow> nat list) \<Rightarrow> (nat \<Rightarrow> op_store \<Rightarrow> op_store result) \<Rightarrow> nat \<Rightarrow> content_stream
     \<Rightarrow> content_stream result option" where
  "change_level on_operators on_composite oper cs =
     (if oper \<in> set (cs_operators cs)
      then Some (Inr (cs\<lparr>cs_operators := on_operators (cs_operators cs)\<rparr>))
      else
        map_option
          (\<lambda>r. rbind r (\<lambda>c. rbind (on_composite c (cs_store cs)) (\<lambda>st.
             Inr (cs\<lparr>cs_store := st\<rparr>))))
          (find_composite (cs_store cs) oper (Some (hd (cs_operators cs)))))"

text \<open>
  The checks at the head, in their order: an empty list of streams or an iterator that is not at an
  operator is against the assertions.
\<close>

definition may_edit :: "content_stream \<Rightarrow> op_iter \<Rightarrow> cs_outcome \<Rightarrow> cs_outcome" where
  "may_edit cs it k =
     (if cs_buffers cs = [] then Some (Inl UndefinedBehaviour, cs)
      else if \<not> cs_can_change cs then Some (Inl ReadOnlyDocumentException, cs)
      else if curpos it \<noteq> pvalid then Some (Inl UndefinedBehaviour, cs)
      else k)"

definition finish ::
    "(dict \<Rightarrow> string \<Rightarrow> string) \<Rightarrow> bool \<Rightarrow> content_stream \<Rightarrow> content_stream result option \<Rightarrow> cs_outcome" where
  "finish sr indicateChange cs r =
     (case r of
        None \<Rightarrow> None
      | Some (Inl e) \<Rightarrow> Some (Inl e, cs)
      | Some (Inr cs') \<Rightarrow> indicate sr indicateChange cs')"

text \<open>Taking an operator, with what is below it, out of the list.\<close>

definition unlink :: "nat \<Rightarrow> op_store \<Rightarrow> op_store option" where
  "unlink toDel st =
     do {
       l \<leftarrow> getLastOperator st toDel;
       let nxt = next_of st l;
       let prv = prev_of st toDel;
       let st1 = (case nxt of Some n \<Rightarrow> setPrev n prv st | None \<Rightarrow> st);
       let st2 = (case prv of Some p \<Rightarrow> setNext p nxt st1 | None \<Rightarrow> st1);
       let st3 = setPrev toDel None st2;
       l' \<leftarrow> getLastOperator st3 toDel;
       Some (setNext l' None st3)
     }"

definition deleteOperator ::
    "(dict \<Rightarrow> string \<Rightarrow> string) \<Rightarrow> op_iter \<Rightarrow> bool \<Rightarrow> content_stream \<Rightarrow> cs_outcome" where
  "deleteOperator sr it indicateChange cs =
     (if cs_operators cs = [] then Some (Inl UndefinedBehaviour, cs)
      else may_edit cs it (finish sr indicateChange cs (do {
        r \<leftarrow> change_level (remove1 (cur it)) (\<lambda>c. remove_child c (cur it)) (cur it) cs;
        (case r of
           Inl e \<Rightarrow> Some (Inl e)
         | Inr cs1 \<Rightarrow>
             map_option (\<lambda>st. Inr (cs1\<lparr>cs_store := st\<rparr>)) (unlink (cur it) (cs_store cs1)))
      })))"

text \<open>
  Inserting behind an operator.  In an empty stream the new operator is only added to the list of
  the first level: it is not given the stream, and no change is indicated.
\<close>

definition link_behind :: "nat \<Rightarrow> nat \<Rightarrow> op_store \<Rightarrow> op_store option" where
  "link_behind oper newOper st =
     do {
       l \<leftarrow> getLastOperator st oper;
       let nxt = next_of st l;
       let st1 = setPrev newOper (Some l) (setNext l (Some newOper) st);
       Some (case nxt of
               None \<Rightarrow> st1
             | Some n \<Rightarrow> setNext newOper (Some n) (setPrev n (Some newOper) st1))
     }"

definition insertOperator ::
    "(dict \<Rightarrow> string \<Rightarrow> string) \<Rightarrow> op_iter \<Rightarrow> nat \<Rightarrow> bool \<Rightarrow> content_stream \<Rightarrow> cs_outcome" where
  "insertOperator sr it newOper indicateChange cs =
     (if cs_buffers cs \<noteq> [] \<and> cs_can_change cs \<and> cs_operators cs = []
      then Some (Inr (), cs\<lparr>cs_operators := [newOper]\<rparr>)
      else may_edit cs it (do {
        st1 \<leftarrow> opsSetPdfRefCs (cs_id cs) newOper (cs_store cs);
        let cs0 = cs\<lparr>cs_store := st1\<rparr>;
        finish sr indicateChange cs0 (do {
          r \<leftarrow> change_level (list_insert_after (cur it) newOper)
                (\<lambda>c. insert_after c (cur it) newOper) (cur it) cs0;
          (case r of
             Inl e \<Rightarrow> Some (Inl e)
           | Inr cs1 \<Rightarrow>
               map_option (\<lambda>st. Inr (cs1\<lparr>cs_store := st\<rparr>))
                 (link_behind (cur it) newOper (cs_store cs1)))
        })
      }))"

definition frontInsertOperator ::
    "(dict \<Rightarrow> string \<Rightarrow> string) \<Rightarrow> nat \<Rightarrow> bool \<Rightarrow> content_stream \<Rightarrow> cs_outcome" where
  "frontInsertOperator sr newoper indicateChange cs =
     (if cs_buffers cs = [] then Some (Inl UndefinedBehaviour, cs)
      else if \<not> cs_can_change cs then Some (Inl ReadOnlyDocumentException, cs)
      else do {
        st1 \<leftarrow> opsSetPdfRefCs (cs_id cs) newoper (cs_store cs);
        (case cs_operators cs of
           [] \<Rightarrow> indicate sr indicateChange (cs\<lparr>cs_store := st1, cs_operators := [newoper]\<rparr>)
         | secondoper # rest \<Rightarrow> do {
             st2 \<leftarrow> opsSetPdfRefCs (cs_id cs) newoper st1;
             lastofnew \<leftarrow> getLastOperator st2 newoper;
             let st3 = setNext lastofnew (Some secondoper) (setPrev secondoper (Some lastofnew) st2);
             indicate sr indicateChange
               (cs\<lparr>cs_store := st3, cs_operators := newoper # secondoper # rest\<rparr>)
           })
      })"

text \<open>Replacing: the new operator takes the place in its level and in the list.\<close>

definition relink :: "nat \<Rightarrow> nat \<Rightarrow> op_store \<Rightarrow> op_store option" where
  "relink toReplace newOper st =
     do {
       new_last \<leftarrow> getLastOperator st newOper;
       let prv = prev_of st toReplace;
       l \<leftarrow> getLastOperator st toReplace;
       let nxt = next_of st l;
       let st1 = (case nxt of None \<Rightarrow> st
                  | Some n \<Rightarrow> setNext new_last (Some n) (setPrev n (Some new_last) st));
       let st2 = (case prv of None \<Rightarrow> st1
                  | Some p \<Rightarrow> setPrev newOper (Some p) (setNext p (Some newOper) st1));
       let st3 = setPrev toReplace None st2;
       l' \<leftarrow> getLastOperator st3 toReplace;
       Some (setNext l' None st3)
     }"

definition replaceOperator ::
    "(dict \<Rightarrow> string \<Rightarrow> string) \<Rightarrow> op_iter \<Rightarrow> nat \<Rightarrow> bool \<Rightarrow> content_stream \<Rightarrow> cs_outcome" where
  "replaceOperator sr it newOper indicateChange cs =
     (if cs_operators cs = [] then Some (Inl UndefinedBehaviour, cs)
      else may_edit cs it (do {
        st1 \<leftarrow> opsSetPdfRefCs (cs_id cs) newOper (cs_store cs);
        let cs0 = cs\<lparr>cs_store := st1\<rparr>;
        finish sr indicateChange cs0 (do {
          r \<leftarrow> change_level (map (\<lambda>a. if a = cur it then newOper else a))
                (\<lambda>c st. rbind (insert_after c (cur it) newOper st) (remove_child c (cur it)))
                (cur it) cs0;
          (case r of
             Inl e \<Rightarrow> Some (Inl e)
           | Inr cs1 \<Rightarrow>
               map_option (\<lambda>st. Inr (cs1\<lparr>cs_store := st\<rparr>))
                 (relink (cur it) newOper (cs_store cs1)))
        })
      }))"

section \<open>Changing a tree\<close>

text \<open>
  The abstract operations: the subtree of an operator is cut out, and a tree is put behind that of an
  operator.
\<close>

fun prune :: "nat \<Rightarrow> op_tree list \<Rightarrow> op_tree list" where
  "prune a [] = []"
| "prune a (OpTree b us # ts) = (if b = a then ts else OpTree b (prune a us) # prune a ts)"

fun graft :: "nat \<Rightarrow> op_tree \<Rightarrow> op_tree list \<Rightarrow> op_tree list" where
  "graft a u [] = []"
| "graft a u (OpTree b us # ts) =
     (if b = a then OpTree b us # u # ts else OpTree b (graft a u us) # graft a u ts)"

lemma prune_absent [simp]: "a \<notin> set (flats ts) \<Longrightarrow> prune a ts = ts"
  by (induction a ts rule: prune.induct) auto

lemma graft_absent [simp]: "a \<notin> set (flats ts) \<Longrightarrow> graft a u ts = ts"
  by (induction a u ts rule: graft.induct) auto

lemma flats_split:
  assumes "a \<in> set (flats ts)" "distinct (flats ts)"
  shows "\<exists>pre t post. flats ts = pre @ flat t @ post \<and> root_op t = a \<and>
    flats (prune a ts) = pre @ post \<and>
    (\<forall>u. flats (graft a u ts) = pre @ flat t @ flat u @ post \<and>
       (a \<notin> set (flat u) \<longrightarrow> flats (prune a (graft a u ts)) = pre @ flat u @ post)) \<and>
    (\<forall>st. (\<forall>t\<in>set ts. stands st t) \<longrightarrow> stands st t)"
  using assms
proof (induction a ts rule: prune.induct)
  case (2 a b us ts)
  show ?case
  proof (cases "b = a")
    case True
    then show ?thesis
      by (intro exI [of _ "[]"] exI [of _ "OpTree b us"] exI [of _ "flats ts"]) simp
  next
    case False
    note ba = False
    show ?thesis
    proof (cases "a \<in> set (flats us)")
      case True
      with "2.IH"(1) [OF ba] "2.prems" obtain pre t post where
        *: "flats us = pre @ flat t @ post" "root_op t = a" "flats (prune a us) = pre @ post"
          "\<And>u. flats (graft a u us) = pre @ flat t @ flat u @ post"
          "\<And>u. a \<notin> set (flat u) \<Longrightarrow> flats (prune a (graft a u us)) = pre @ flat u @ post"
          "\<And>st. (\<forall>t\<in>set us. stands st t) \<Longrightarrow> stands st t"
        by auto
      from True "2.prems" have "a \<notin> set (flats ts)" by auto
      then have "prune a ts = ts" "\<And>u. graft a u ts = ts" by simp_all
      with * ba show ?thesis
        by (intro exI [of _ "b # pre"] exI [of _ t] exI [of _ "post @ flats ts"]) simp
    next
      case False
      with "2.prems" ba have "a \<in> set (flats ts)" by auto
      with "2.IH"(2) [OF ba] "2.prems" obtain pre t post where
        *: "flats ts = pre @ flat t @ post" "root_op t = a" "flats (prune a ts) = pre @ post"
          "\<And>u. flats (graft a u ts) = pre @ flat t @ flat u @ post"
          "\<And>u. a \<notin> set (flat u) \<Longrightarrow> flats (prune a (graft a u ts)) = pre @ flat u @ post"
          "\<And>st. (\<forall>t\<in>set ts. stands st t) \<Longrightarrow> stands st t"
        by auto
      from False have "prune a us = us" "\<And>u. graft a u us = us" by simp_all
      with * ba show ?thesis
        by (intro exI [of _ "b # flats us @ pre"] exI [of _ t] exI [of _ post]) simp
    qed
  qed
qed simp

lemma roots_prune: "map root_op (prune a ts) = remove1 a (map root_op ts)"
  by (induction a ts rule: prune.induct) auto

lemma roots_graft: "map root_op (graft a u ts) = list_insert_after a (root_op u) (map root_op ts)"
  by (induction a u ts rule: graft.induct) auto

lemma children_below:
  "stands st t \<Longrightarrow> c \<in> set (flat t) \<Longrightarrow> set (getChildren st c) \<subseteq> set (flat t)"
proof (induction t)
  case (OpTree a ts)
  show ?case
  proof (cases "c = a")
    case True
    with OpTree.prems(1) show ?thesis by (auto intro: roots_in_flats simp: )
  next
    case False
    with OpTree.prems(2) obtain t where "t \<in> set ts" "c \<in> set (flat t)" by auto
    with OpTree.IH [of t] OpTree.prems(1) show ?thesis by auto
  qed
qed

lemma stands_absent:
  assumes "\<forall>t\<in>set ts. stands st t" "a \<notin> set (flats ts)"
    "\<And>c. c \<in> set (flats ts) \<Longrightarrow> getChildren st' c = f (getChildren st c)"
    "\<And>c. c \<in> set (flats ts) \<Longrightarrow> cells st' c = None \<longleftrightarrow> cells st c = None"
    "\<And>xs. a \<notin> set xs \<Longrightarrow> f xs = xs"
  shows "\<forall>t\<in>set ts. stands st' t"
proof
  fix t assume t: "t \<in> set ts"
  have "stands st' t = stands st t"
  proof (rule stands_cong)
    fix c assume c: "c \<in> set (flat t)"
    then have "a \<notin> set (getChildren st c)"
      using children_below [of st t c] assms(1,2) t by auto
    moreover have "getChildren st' c = f (getChildren st c)" using assms(3) [of c] c t by auto
    ultimately show "getChildren st' c = getChildren st c" using assms(5) by simp
    show "cells st' c = None \<longleftrightarrow> cells st c = None" using assms(4) c t by auto
  qed
  with assms(1) t show "stands st' t" by simp
qed

lemma stands_prune:
  assumes "\<forall>t\<in>set ts. stands st t" "distinct (flats ts)"
    "\<And>c. c \<in> set (flats ts) \<Longrightarrow> getChildren st' c = remove1 a (getChildren st c)"
    "\<And>c. c \<in> set (flats ts) \<Longrightarrow> cells st' c = None \<longleftrightarrow> cells st c = None"
  shows "\<forall>t\<in>set (prune a ts). stands st' t"
  using assms
proof (induction a ts rule: prune.induct)
  case (2 a b us ts)
  show ?case
  proof (cases "b = a")
    case True
    with "2.prems"(2) have "a \<notin> set (flats ts)" by auto
    have "\<forall>t\<in>set ts. stands st' t"
      by (rule stands_absent [of ts st a st' "remove1 a"])
        (use \<open>a \<notin> _\<close> "2.prems" in \<open>auto simp: remove1_idem\<close>)
    with True show ?thesis by simp
  next
    case False
    have "\<forall>t\<in>set (prune a us). stands st' t" "\<forall>t\<in>set (prune a ts). stands st' t"
      using "2.IH" [OF False] "2.prems" by auto
    with False "2.prems" show ?thesis by (simp add: roots_prune)
  qed
qed simp

lemma list_insert_after_absent: "x \<notin> set xs \<Longrightarrow> list_insert_after x y xs = xs"
  by (induction xs) auto

lemma stands_graft:
  assumes "\<forall>t\<in>set ts. stands st t" "distinct (flats ts)" "stands st' u"
    "\<And>c. c \<in> set (flats ts) \<Longrightarrow> getChildren st' c = list_insert_after a (root_op u) (getChildren st c)"
    "\<And>c. c \<in> set (flats ts) \<Longrightarrow> cells st' c = None \<longleftrightarrow> cells st c = None"
  shows "\<forall>t\<in>set (graft a u ts). stands st' t"
  using assms
proof (induction a u ts rule: graft.induct)
  case (2 a u b us ts)
  note absent = stands_absent [of _ st a st' "list_insert_after a (root_op u)"]
  show ?case
  proof (cases "b = a")
    case True
    with "2.prems"(2) have na: "a \<notin> set (flats ts)" "a \<notin> set (flats us)" by auto
    have "\<forall>t\<in>set ts. stands st' t"
      by (rule absent) (use na "2.prems" list_insert_after_absent in auto)
    moreover have us: "\<forall>t\<in>set us. stands st' t"
      by (rule absent) (use na "2.prems" list_insert_after_absent in auto)
    moreover have "a \<notin> set (map root_op us)" using na(2) by (auto dest: roots_in_flats)
    then have "getChildren st' b = map root_op us" "cells st' b \<noteq> None"
      using "2.prems" by (simp_all add: list_insert_after_absent)
    ultimately show ?thesis using True "2.prems"(3) by simp
  next
    case False
    have "\<forall>t\<in>set (graft a u us). stands st' t" "\<forall>t\<in>set (graft a u ts). stands st' t"
      using "2.IH" [OF False] "2.prems" by auto
    with False "2.prems" show ?thesis by (simp add: roots_graft)
  qed
qed simp

section \<open>The composite of an operator\<close>

lemma mset_flats_step:
  "\<forall>t\<in>set ts. mset (flat t) = add_mset (root_op t) (mset (concat (map f (flat t)))) \<Longrightarrow>
     mset (flats ts) = mset (map root_op ts) + mset (concat (map f (flats ts)))"
  by (induction ts) (simp_all add: ac_simps)

lemma mset_flat:
  "stands st t \<Longrightarrow>
     mset (flat t) = add_mset (root_op t) (mset (concat (map (getChildren st) (flat t))))"
proof (induction t)
  case (OpTree a ts)
  then have "mset (flats ts) = mset (map root_op ts) + mset (concat (map (getChildren st) (flats ts)))"
    by (intro mset_flats_step) auto
  with OpTree.prems show ?case by simp
qed

lemma distinct_children:
  assumes "\<forall>t\<in>set ts. stands st t" "distinct (flats ts)"
  shows "distinct (map root_op ts @ concat (map (getChildren st) (flats ts)))"
    "set (flats ts) = set (map root_op ts @ concat (map (getChildren st) (flats ts)))"
proof -
  have m: "mset (flats ts) = mset (map root_op ts @ concat (map (getChildren st) (flats ts)))"
    using assms(1) mset_flats_step [of ts "getChildren st"] mset_flat [of st] by simp
  with assms(2) show "distinct (map root_op ts @ concat (map (getChildren st) (flats ts)))"
    using mset_eq_imp_distinct_iff by blast
  from m show "set (flats ts) = set (map root_op ts @ concat (map (getChildren st) (flats ts)))"
    by (rule mset_eq_setD)
qed

lemma one_parent:
  assumes "\<forall>t\<in>set ts. stands st t" "distinct (flats ts)"
    "c \<in> set (flats ts)" "a \<in> set (getChildren st c)"
    "d \<in> set (flats ts)" "a \<in> set (getChildren st d)"
  shows "c = d"
proof (rule ccontr)
  assume ne: "c \<noteq> d"
  obtain xs ys where s: "flats ts = xs @ c # ys" using assms(3) by (metis split_list)
  with assms(5) ne have "d \<in> set (xs @ ys)" by auto
  moreover have "distinct (concat (map (getChildren st) (flats ts)))"
    using distinct_children [OF assms(1,2)] by simp
  with s have "set (getChildren st c) \<inter> set (concat (map (getChildren st) (xs @ ys))) = {}" by auto
  ultimately show False using assms(4,6) by auto
qed

lemma parent_before:
  assumes "\<forall>t\<in>set ts. stands st t" "distinct (flats ts)"
    "a \<in> set (flats ts)" "a \<notin> set (map root_op ts)"
  shows "\<exists>xs c ys. flats ts = xs @ c # ys \<and> a \<in> set (getChildren st c) \<and> a \<in> set ys"
proof -
  have "a \<in> set (concat (map (getChildren st) (flats ts)))"
    using assms(3,4) distinct_children(2) [OF assms(1,2)] by (metis Un_iff set_append)
  then obtain c where c: "c \<in> set (flats ts)" "a \<in> set (getChildren st c)"
    unfolding set_concat set_map by blast
  from flats_split [OF c(1) assms(2)] obtain pre t post where
    t: "flats ts = pre @ flat t @ post" "root_op t = c" "stands st t"
    using assms(1) by blast
  obtain us where "t = OpTree c us" using t(2) by (cases t) simp
  with t c have "flats ts = pre @ c # (flats us @ post)" "a \<in> set (flats us)"
    by (auto dest: roots_in_flats)
  with c(2) show ?thesis by (metis Un_iff set_append)
qed

lemma find_composite_linked:
  assumes "linked st p (xs @ a # ys) n" "zs @ c # ws = a # ys"
    "oper \<in> set (getChildren st c)" "oper \<notin> set zs"
    "\<forall>z\<in>set zs. oper \<notin> set (getChildren st z)"
  shows "find_composite st oper (Some a) = Some (Inr c)"
  using assms
proof (induction zs arbitrary: xs a ys)
  case Nil
  then have "isCompositeOp st a" "c = a" by (auto intro: isCompositeOp_children)
  with Nil show ?case by (subst find_composite.simps) simp
next
  case (Cons z zs)
  then obtain y us where ys: "ys = y # us" "zs @ c # ws = y # us"
    by (cases ys) auto
  have "linked st p ((xs @ [a]) @ y # us) n" using Cons.prems ys by simp
  from Cons.IH [OF this] Cons.prems ys have "find_composite st oper (Some y) = Some (Inr c)" by auto
  moreover have "next_of st a = Some y"
    using linked_next_of [OF Cons.prems(1)] ys by simp
  ultimately show ?case using Cons.prems by (subst find_composite.simps) auto
qed

lemma find_composite_ok:
  assumes "content_ok st ops ts" "a \<in> set (flats ts)" "a \<notin> set ops"
  shows "\<exists>c. find_composite st a (Some (hd ops)) = Some (Inr c) \<and> c \<in> set (flats ts) \<and>
    a \<in> set (getChildren st c) \<and>
    (\<forall>d\<in>set (flats ts). a \<in> set (getChildren st d) \<longrightarrow> d = c)"
proof -
  note ok = assms(1) [unfolded content_ok_def]
  from ok assms parent_before [of ts st a] obtain xs c ys where
    s: "flats ts = xs @ c # ys" "a \<in> set (getChildren st c)" "a \<in> set ys" by auto
  have c: "c \<in> set (flats ts)" using s by simp
  have uniq: "\<forall>d\<in>set (flats ts). a \<in> set (getChildren st d) \<longrightarrow> d = c"
    using one_parent [of ts st] ok c s by blast
  obtain t us where ts: "ts = t # us" using s by (cases ts) auto
  have "hd ops = root_op t" using ok ts by simp
  then obtain zs where zs: "flats ts = hd ops # zs"
    using ts by (cases t) simp
  have d: "distinct (xs @ c # ys)" using ok s(1) by simp
  with s(3) have "a \<notin> set xs" by auto
  moreover have "\<forall>z\<in>set xs. a \<notin> set (getChildren st z)"
    using d uniq s(1) by (metis Un_iff disjoint_iff distinct_append list.set_intros(1) set_append)
  moreover have "linked st None ([] @ hd ops # zs) None"
  proof -
    have "linked st None (flats ts) None" using ok by blast
    then show ?thesis by (simp only: zs append_Nil)
  qed
  moreover have "xs @ c # ys = hd ops # zs" using s(1) zs by simp
  ultimately have "find_composite st a (Some (hd ops)) = Some (Inr c)"
    using s(2) by (intro find_composite_linked [of st None "[]" _ zs None xs c ys])
  with c s uniq show ?thesis by blast
qed

section \<open>What an operator is besides its place\<close>

text \<open>Name, operands and image, without the children.\<close>

fun own_part :: "op_class \<Rightarrow> op_class" where
  "own_part (UnknownCompositePdfOperator b e cs) = UnknownCompositePdfOperator b e []"
| "own_part k = k"

definition op_label :: "op_store \<Rightarrow> nat \<Rightarrow> op_class option" where
  "op_label st a = map_option (\<lambda>p. own_part (op_class p)) (cells st a)"

lemma op_label_update:
  "(\<And>p. own_part (op_class (f p)) = own_part (op_class p)) \<Longrightarrow> op_label (update_op a f st) = op_label st"
  by (auto simp: op_label_def cells_update_op fun_eq_iff option.map_comp comp_def)

lemma op_label_setters [simp]:
  "op_label (setNext a n st) = op_label st"
  "op_label (setPrev a n st) = op_label st"
  "op_label (setContentStream a c st) = op_label st"
  by (simp_all add: setNext_def setPrev_def setContentStream_def op_label_update)

lemma op_label_set_children [simp]: "op_label (set_children a f st) = op_label st"
  unfolding set_children_def by (rule op_label_update) (simp split: op_class.splits)

lemma op_label_None: "op_label st a = None \<longleftrightarrow> cells st a = None"
  by (simp add: op_label_def)

lemma links_at_set_children [simp]: "links_at (set_children a f st) = links_at st"
  by (auto simp: links_at_def set_children_def cells_update_op fun_eq_iff option.map_comp comp_def)

lemma getChildren_set_children:
  "getChildren st c \<noteq> [] \<Longrightarrow>
     getChildren (set_children c f st) = (getChildren st)(c := f (getChildren st c))"
  by (auto simp: getChildren_def set_children_def cells_update_op fun_eq_iff
      split: option.splits op_class.splits)

lemma set_children_twice: "set_children c g (set_children c f st) = set_children c (\<lambda>xs. g (f xs)) st"
  by (auto simp: set_children_def update_op_def fun_eq_iff
      split: option.splits op_class.splits)

definition owner :: "op_store \<Rightarrow> nat \<Rightarrow> nat option" where
  "owner st a = (case cells st a of None \<Rightarrow> None | Some p \<Rightarrow> contentstream p)"

lemma owner_setContentStream:
  "cells st a \<noteq> None \<Longrightarrow> owner (setContentStream a c st) = (owner st)(a := Some c)"
  by (auto simp: owner_def fun_eq_iff)

lemma owner_update:
  "(\<And>p. contentstream (f p) = contentstream p) \<Longrightarrow> owner (update_op a f st) = owner st"
  by (auto simp: owner_def cells_update_op fun_eq_iff split: option.splits)

lemma owner_setters [simp]:
  "owner (setNext a n st) = owner st"
  "owner (setPrev a n st) = owner st"
  "owner (set_children a g st) = owner st"
  by (simp_all add: setNext_def setPrev_def set_children_def owner_update)

text \<open>Two stores with the same tree, and stores that differ in links only, or in children only.\<close>

definition same_shape :: "op_store \<Rightarrow> op_store \<Rightarrow> bool" where
  "same_shape st st' \<longleftrightarrow> getChildren st' = getChildren st \<and> op_label st' = op_label st \<and>
     free_addr st' = free_addr st"

definition same_tree :: "op_store \<Rightarrow> op_store \<Rightarrow> bool" where
  "same_tree st st' \<longleftrightarrow> same_shape st st' \<and> owner st' = owner st"

definition same_list :: "op_store \<Rightarrow> op_store \<Rightarrow> bool" where
  "same_list st st' \<longleftrightarrow> links_at st' = links_at st \<and> op_label st' = op_label st \<and>
     owner st' = owner st \<and> free_addr st' = free_addr st"

lemma free_addr_update [simp]: "free_addr (update_op a f st) = free_addr st"
  by (simp add: update_op_def split: option.splits)

lemma same_shape_setters [simp]:
  "same_shape st (setNext a n st') \<longleftrightarrow> same_shape st st'"
  "same_shape st (setPrev a n st') \<longleftrightarrow> same_shape st st'"
  "same_shape st (setContentStream a c st') \<longleftrightarrow> same_shape st st'"
  "same_shape st st"
  by (simp_all add: same_shape_def, simp_all add: setNext_def setPrev_def setContentStream_def)

lemma same_tree_setters [simp]:
  "same_tree st (setNext a n st') \<longleftrightarrow> same_tree st st'"
  "same_tree st (setPrev a n st') \<longleftrightarrow> same_tree st st'"
  "same_tree st st"
  by (simp_all add: same_tree_def)

lemma same_list_set_children [simp]: "same_list st (set_children c f st)"
  by (simp add: same_list_def, simp add: set_children_def)

lemma same_shape_stands: "same_shape st st' \<Longrightarrow> stands st' t = stands st t"
  by (rule stands_cong) (simp_all add: same_shape_def flip: op_label_None)

lemma same_tree_stands: "same_tree st st' \<Longrightarrow> stands st' t = stands st t"
  by (simp add: same_tree_def same_shape_stands)

lemma same_tree_last: "same_tree st st' \<Longrightarrow> stands st t \<Longrightarrow>
    getLastOperator st' (root_op t) = Some (last (flat t))"
  by (simp add: same_tree_stands getLastOperator_stands)

lemma same_list_linked: "same_list st st' \<Longrightarrow> linked st' p xs n = linked st p xs n"
  by (rule linked_frame) (simp add: same_list_def)

section \<open>Changing a level\<close>

lemma change_level_ok:
  assumes ok: "content_ok (cs_store cs) (cs_operators cs) ts" and a: "a \<in> set (flats ts)"
    and top: "on_operators (cs_operators cs) = F (cs_operators cs)"
    and comp: "\<And>c. a \<in> set (getChildren (cs_store cs) c) \<Longrightarrow>
      on_composite c (cs_store cs) = Inr (set_children c F (cs_store cs))"
    and absent: "\<And>xs. a \<notin> set xs \<Longrightarrow> F xs = xs"
  shows "\<exists>st. change_level on_operators on_composite a cs =
      Some (Inr (cs\<lparr>cs_operators := F (cs_operators cs), cs_store := st\<rparr>)) \<and>
    same_list (cs_store cs) st \<and>
    (\<forall>d\<in>set (flats ts). getChildren st d = F (getChildren (cs_store cs) d)) \<and>
    (\<forall>d. d \<notin> set (flats ts) \<longrightarrow> getChildren st d = getChildren (cs_store cs) d)"
proof (cases "a \<in> set (cs_operators cs)")
  case True
  have "a \<notin> set (getChildren (cs_store cs) d)" if "d \<in> set (flats ts)" for d
  proof
    assume "a \<in> set (getChildren (cs_store cs) d)"
    then have "a \<in> set (concat (map (getChildren (cs_store cs)) (flats ts)))"
      using that by auto
    moreover have "a \<in> set (map root_op ts)" using True ok by (simp add: content_ok_def)
    ultimately show False
      using distinct_children(1) [of ts "cs_store cs"] ok
      unfolding content_ok_def distinct_append by blast
  qed
  with True top absent show ?thesis
    by (intro exI [of _ "cs_store cs"]) (simp add: change_level_def same_list_def)
next
  case False
  from find_composite_ok [OF ok a False] obtain c where
    c: "find_composite (cs_store cs) a (Some (hd (cs_operators cs))) = Some (Inr c)"
      "c \<in> set (flats ts)" "a \<in> set (getChildren (cs_store cs) c)"
      "\<forall>d\<in>set (flats ts). a \<in> set (getChildren (cs_store cs) d) \<longrightarrow> d = c" by blast
  from c(3) have "getChildren (cs_store cs) c \<noteq> []" by (metis empty_iff empty_set)
  note ch = getChildren_set_children [OF this, of F]
  have "cs_operators cs = F (cs_operators cs)" using False absent by simp
  then have e1: "change_level on_operators on_composite a cs =
      Some (Inr (cs\<lparr>cs_operators := F (cs_operators cs), cs_store := set_children c F (cs_store cs)\<rparr>))"
    using False c(1) comp [OF c(3)] by (simp add: change_level_def)
  have e2: "\<forall>d\<in>set (flats ts). getChildren (set_children c F (cs_store cs)) d =
      F (getChildren (cs_store cs) d)"
  proof
    fix d assume "d \<in> set (flats ts)"
    with c(4) have "d \<noteq> c \<Longrightarrow> a \<notin> set (getChildren (cs_store cs) d)" by blast
    then show "getChildren (set_children c F (cs_store cs)) d = F (getChildren (cs_store cs) d)"
      by (cases "d = c") (simp_all add: ch absent)
  qed
  have e3: "\<forall>d. d \<notin> set (flats ts) \<longrightarrow>
      getChildren (set_children c F (cs_store cs)) d = getChildren (cs_store cs) d"
    using c(2) by (auto simp: ch)
  show ?thesis
    by (intro exI [of _ "set_children c F (cs_store cs)"] conjI e1 e2 e3 same_list_set_children)
qed

section \<open>Changing the list\<close>

lemma unlink_ok:
  assumes l: "linked st None (pre @ flat t @ post) None" and d: "distinct (pre @ flat t @ post)"
    and t: "stands st t"
  shows "\<exists>st'. unlink (root_op t) st = Some st' \<and> same_tree st st' \<and>
    linked st' None (pre @ post) None \<and> linked st' None (flat t) None"
proof -
  define nxt where "nxt = first_of post None"
  define prv where "prv = last_of pre None"
  obtain us where ft: "flat t = root_op t # us" by (cases t) simp
  obtain vs where fl: "flat t = vs @ [last (flat t)]"
    by (metis append_butlast_last_id flat_not_Nil)
  have "linked st None ((pre @ vs) @ last (flat t) # post) None" using l fl
    by (metis append.assoc append_Cons append_Nil)
  from linked_next_of [OF this] have n: "next_of st (last (flat t)) = nxt"
    by (simp add: nxt_def first_of_def alive_def split: list.splits)
  have "linked st None (pre @ root_op t # (us @ post)) None" using l ft by simp
  from linked_prev_of [OF this] have p: "prev_of st (root_op t) = prv"
    by (simp add: prv_def last_of_def alive_def)
  define st1 where "st1 = (case nxt of Some n \<Rightarrow> setPrev n prv st | None \<Rightarrow> st)"
  define st2 where "st2 = (case prv of Some p \<Rightarrow> setNext p nxt st1 | None \<Rightarrow> st1)"
  define st3 where "st3 = setPrev (root_op t) None st2"
  define st4 where "st4 = setNext (last (flat t)) None st3"
  have s: "same_tree st st3" by (simp add: st3_def st2_def st1_def split: option.splits)
  have u: "unlink (root_op t) st = Some st4"
    by (simp only: unlink_def getLastOperator_stands [OF t] bind.bind_lunit n p Let_def
        st1_def [symmetric] st2_def [symmetric] st3_def [symmetric] same_tree_last [OF s t] st4_def)
  have lp: "linked st None pre (Some (root_op t))" and lt: "linked st prv (flat t) nxt"
    and lo: "linked st (Some (last (flat t))) post None"
    using l by (simp_all add: prv_def nxt_def)
  have mem: "last (flat t) \<in> set (flat t)" "root_op t \<in> set (flat t)" by simp_all
  have nin: "root_op t \<notin> set pre" "last (flat t) \<notin> set pre"
      "root_op t \<notin> set post" "last (flat t) \<notin> set post"
    using d mem unfolding distinct_append set_append by blast+
  have pre: "linked st4 None pre nxt"
  proof (cases "pre = []")
    case False
    then have pv: "prv = Some (last pre)" by (simp add: prv_def last_of_def)
    have "linked st1 None pre (Some (root_op t))"
      using lp d by (auto simp: st1_def nxt_def first_of_def linked_other split: option.splits list.splits)
    then have "linked st2 None pre nxt"
      using False d pv by (simp add: st2_def linked_setNext_last)
    with nin show ?thesis by (simp add: st4_def st3_def linked_other)
  qed simp
  have post: "linked st4 prv post None"
  proof (cases post)
    case (Cons y ys)
    then have nv: "nxt = Some y" by (simp add: nxt_def)
    have "y \<notin> set ys" using d Cons by simp
    with lo have "linked (setPrev y prv st) prv post None"
      unfolding Cons by (intro linked_setPrev_first)
    then have "linked st1 prv post None" by (simp add: st1_def nv)
    moreover have "last pre \<notin> set post" if "pre \<noteq> []"
      using d last_in_set [OF that] by auto
    ultimately have "linked st2 prv post None"
      by (auto simp: st2_def prv_def last_of_def linked_other split: option.splits if_splits)
    with nin show ?thesis by (simp add: st4_def st3_def linked_other)
  qed simp
  have mid: "linked st4 None (flat t) None"
  proof -
    have "linked st1 prv (flat t) nxt"
      using lt d by (auto simp: st1_def nxt_def first_of_def linked_other split: option.splits list.splits)
    moreover have "last pre \<notin> set (flat t)" if "pre \<noteq> []"
      using d last_in_set [OF that] by auto
    ultimately have "linked st2 prv (flat t) nxt"
      by (auto simp: st2_def prv_def last_of_def linked_other split: option.splits if_splits)
    moreover have "root_op t \<notin> set us" using d ft by simp
    ultimately have "linked st3 None (flat t) nxt"
      unfolding ft st3_def by (intro linked_setPrev_first)
    then show ?thesis using d by (simp add: st4_def linked_setNext_last)
  qed
  have "same_tree st st4" using s by (simp add: st4_def)
  moreover have "linked st4 None (pre @ post) None"
    using pre post by (simp add: nxt_def prv_def)
  ultimately show ?thesis using u mid by blast
qed

lemma next_of_setContentStream [simp]: "next_of (setContentStream a c st) = next_of st"
  by (auto simp: next_of_links fun_eq_iff alive_def split: option.splits)

lemma opsSetPdfRefCs_ok:
  "linked st p (a # ys) None \<Longrightarrow>
     \<exists>st'. opsSetPdfRefCs cs a st = Some st' \<and> same_shape st st' \<and> links_at st' = links_at st \<and>
       (\<forall>b. owner st' b = (if b \<in> set (a # ys) then Some cs else owner st b))"
proof (induction ys arbitrary: st p a)
  case Nil
  have "cells st a \<noteq> None" using linked_alive [OF Nil] by simp
  moreover have "next_of st a = None"
    using linked_next_of [of st p "[]" a "[]" None] Nil by (simp add: alive_def)
  ultimately show ?case
    by (subst opsSetPdfRefCs.simps) (simp add: owner_setContentStream del: not_None_eq)
next
  case (Cons y ys)
  have al: "cells st a \<noteq> None" using linked_alive [OF Cons.prems] by simp
  have n: "next_of st a = Some y"
    using linked_next_of [of st p "[]" a "y # ys" None] Cons.prems by simp
  let ?st = "setContentStream a cs st"
  have "linked st (Some a) (y # ys) None" using Cons.prems linked.simps(2) [of st p a] by blast
  then have "linked ?st (Some a) (y # ys) None" by (simp only: linked_setContentStream)
  from Cons.IH [OF this] obtain st' where
    *: "opsSetPdfRefCs cs y ?st = Some st'" "same_shape ?st st'" "links_at st' = links_at ?st"
      "\<forall>b. owner st' b = (if b \<in> set (y # ys) then Some cs else owner ?st b)" by blast
  have "opsSetPdfRefCs cs a st = Some st'"
    by (subst opsSetPdfRefCs.simps) (simp add: n *(1))
  moreover have "same_shape st st'"
    using *(2) by (simp add: same_shape_def) (simp add: setContentStream_def)
  moreover have "\<forall>b. owner st' b = (if b \<in> set (a # y # ys) then Some cs else owner st b)"
    unfolding *(4) [rule_format] owner_setContentStream [OF al] by simp
  ultimately show ?case using *(3) by (intro exI [of _ st']) simp
qed

lemma link_behind_ok:
  assumes l: "linked st None (pre @ flat t @ post) None" and u: "linked st None (flat u) None"
    and d: "distinct (pre @ flat t @ flat u @ post)" and t: "stands st t"
    and simple: "sub_ops u = [] \<or> post = []"
  shows "\<exists>st'. link_behind (root_op t) (root_op u) st = Some st' \<and> same_tree st st' \<and>
    linked st' None (pre @ flat t @ flat u @ post) None"
proof -
  let ?l = "last (flat t)"
  let ?n = "root_op u"
  define nxt where "nxt = first_of post None"
  obtain us where fu: "flat u = ?n # us" by (cases u) simp
  obtain vs where fl: "flat t = vs @ [?l]"
    by (metis append_butlast_last_id flat_not_Nil)
  have "linked st None ((pre @ vs) @ ?l # post) None" using l fl
    by (metis append.assoc append_Cons append_Nil)
  from linked_next_of [OF this] have n: "next_of st ?l = nxt"
    by (simp add: nxt_def first_of_def alive_def split: list.splits)
  have mem: "?l \<in> set (flat t)" "?n \<in> set (flat u)" by simp_all
  have nin: "?n \<notin> set pre" "?n \<notin> set (flat t)" "?n \<notin> set post" "?n \<notin> set us"
      "?l \<notin> set pre" "?l \<notin> set (flat u)" "?l \<notin> set post"
    using d mem unfolding distinct_append set_append fu distinct.simps(2) by blast+
  define st1 where "st1 = setPrev ?n (Some ?l) (setNext ?l (Some ?n) st)"
  define st2 where "st2 = (case nxt of None \<Rightarrow> st1
      | Some n \<Rightarrow> setNext ?n (Some n) (setPrev n (Some ?n) st1))"
  have b: "link_behind (root_op t) ?n st = Some st2"
    by (simp only: link_behind_def getLastOperator_stands [OF t] bind.bind_lunit n Let_def
        st1_def [symmetric] st2_def [symmetric])
  have s: "same_tree st st2" by (simp add: st2_def st1_def split: option.splits)
  have lp: "linked st None (pre @ flat t) nxt" and lo: "linked st (Some ?l) post None"
    using l by (simp_all add: nxt_def)
  have pt1: "linked st1 None (pre @ flat t) (Some ?n)"
  proof -
    have "linked (setNext (last (pre @ flat t)) (Some ?n) st) None (pre @ flat t) (Some ?n)"
      using lp d by (intro linked_setNext_last) auto
    with nin show ?thesis by (simp add: st1_def linked_other)
  qed
  have u1: "linked st1 (Some ?l) (flat u) None"
  proof -
    have "linked (setNext ?l (Some ?n) st) None (?n # us) None"
      using u nin(6) unfolding fu by (simp add: linked_other del: linked.simps(2))
    then show ?thesis
      unfolding fu st1_def using nin(4) by (intro linked_setPrev_first)
  qed
  have o1: "linked st1 (Some ?l) post None"
    using lo nin by (simp add: st1_def linked_other)
  have "linked st2 None (pre @ flat t @ flat u @ post) None"
  proof (cases post)
    case Nil
    then have "st2 = st1" by (simp add: st2_def nxt_def)
    with Nil pt1 u1 show ?thesis by simp
  next
    case (Cons y ys)
    with simple have us: "us = []" using fu by (cases u) simp
    from Cons have st2: "st2 = setNext ?n (Some y) (setPrev y (Some ?n) st1)"
      by (simp add: st2_def nxt_def)
    have y: "y \<notin> set pre" "y \<notin> set (flat t)" "y \<noteq> ?n" "y \<notin> set ys"
      using d Cons fu by auto
    have "linked st2 None (pre @ flat t) (Some ?n)"
      using pt1 y nin by (simp add: st2 linked_other)
    moreover have "linked st2 (Some ?l) [?n] (Some y)"
    proof -
      have "linked (setPrev y (Some ?n) st1) (Some ?l) [?n] None"
        using u1 y(3) unfolding fu us by (simp add: linked_other del: linked.simps(2))
      from linked_setNext_last [OF this, of "Some y"] show ?thesis
        unfolding st2 by simp
    qed
    moreover have "linked st2 (Some ?n) post None"
    proof -
      have "linked (setPrev y (Some ?n) st1) (Some ?n) post None"
        using o1 y(4) unfolding Cons by (intro linked_setPrev_first)
      with nin show ?thesis by (simp add: st2 linked_other)
    qed
    ultimately show ?thesis using Cons fu us by simp
  qed
  with b s show ?thesis by blast
qed

lemma relink_ok:
  assumes l: "linked st None (pre @ flat t @ post) None" and u: "linked st None (flat u) None"
    and d: "distinct (pre @ flat t @ flat u @ post)" and t: "stands st t" and su: "stands st u"
  shows "\<exists>st'. relink (root_op t) (root_op u) st = Some st' \<and> same_tree st st' \<and>
    linked st' None (pre @ flat u @ post) None \<and> linked st' None (flat t) None"
proof -
  let ?l = "last (flat t)" and ?m = "last (flat u)" and ?n = "root_op u" and ?a = "root_op t"
  define nxt where "nxt = first_of post None"
  define prv where "prv = last_of pre None"
  obtain us where fu: "flat u = ?n # us" by (cases u) simp
  obtain ws where ft: "flat t = ?a # ws" by (cases t) simp
  obtain vs where fl: "flat t = vs @ [?l]"
    by (metis append_butlast_last_id flat_not_Nil)
  have "linked st None ((pre @ vs) @ ?l # post) None" using l fl
    by (metis append.assoc append_Cons append_Nil)
  from linked_next_of [OF this] have n: "next_of st ?l = nxt"
    by (simp add: nxt_def first_of_def alive_def split: list.splits)
  have "linked st None (pre @ ?a # (ws @ post)) None" using l ft by simp
  from linked_prev_of [OF this] have p: "prev_of st ?a = prv"
    by (simp add: prv_def last_of_def alive_def)
  have mem: "?l \<in> set (flat t)" "?m \<in> set (flat u)" "?n \<in> set (flat u)" "?a \<in> set (flat t)"
    by simp_all
  have nin: "?a \<notin> set pre" "?a \<notin> set (flat u)" "?a \<notin> set post" "?l \<notin> set pre" "?l \<notin> set (flat u)"
      "?l \<notin> set post" "?n \<notin> set pre" "?n \<notin> set (flat t)" "?n \<notin> set post" "?m \<notin> set pre"
      "?m \<notin> set (flat t)" "?m \<notin> set post"
    using d mem unfolding distinct_append set_append by blast+
  have prein: "\<And>q. prv = Some q \<Longrightarrow> q \<notin> set (flat t) \<and> q \<notin> set (flat u) \<and> q \<notin> set post"
    using d unfolding distinct_append set_append
    by (auto simp: prv_def last_of_def split: if_splits dest: last_in_set)
  have postin: "\<And>q. nxt = Some q \<Longrightarrow> q \<notin> set (flat t) \<and> q \<notin> set (flat u) \<and> q \<notin> set pre"
    using d by (auto simp: nxt_def first_of_def split: list.splits)
  define st1 where "st1 = (case nxt of None \<Rightarrow> st
      | Some n \<Rightarrow> setNext ?m (Some n) (setPrev n (Some ?m) st))"
  define st2 where "st2 = (case prv of None \<Rightarrow> st1
      | Some p \<Rightarrow> setPrev ?n (Some p) (setNext p (Some ?n) st1))"
  define st3 where "st3 = setPrev ?a None st2"
  define st4 where "st4 = setNext ?l None st3"
  have s: "same_tree st st3" by (simp add: st3_def st2_def st1_def split: option.splits)
  have r: "relink ?a ?n st = Some st4"
    by (simp only: relink_def getLastOperator_stands [OF t] getLastOperator_stands [OF su]
        bind.bind_lunit n p Let_def st1_def [symmetric] st2_def [symmetric] st3_def [symmetric]
        same_tree_last [OF s t] st4_def)
  have lp: "linked st None pre (Some ?a)" and lt: "linked st prv (flat t) nxt"
    and lo: "linked st (Some ?l) post None"
    using l by (simp_all add: prv_def nxt_def)
  have old: "linked st2 prv (flat t) nxt"
    using lt prein postin nin
    by (auto simp: st1_def st2_def linked_other split: option.splits)
  have old4: "linked st4 None (flat t) None"
  proof -
    have "?a \<notin> set ws" using d ft by simp
    with old have "linked st3 None (flat t) nxt"
      unfolding ft st3_def by (intro linked_setPrev_first)
    then show ?thesis using d by (simp add: st4_def linked_setNext_last)
  qed
  have new1: "linked st1 None (flat u) nxt"
  proof (cases nxt)
    case (Some y)
    have "linked (setPrev y (Some ?m) st) None (flat u) None"
      using u postin [OF Some] by (simp add: linked_other)
    then show ?thesis using Some d by (simp add: st1_def linked_setNext_last)
  qed (use u in \<open>simp add: st1_def\<close>)
  have new2: "linked st2 prv (flat u) nxt"
  proof (cases prv)
    case (Some q)
    have "linked (setNext q (Some ?n) st1) None (?n # us) nxt"
      using new1 prein [OF Some] unfolding fu [symmetric] by (simp add: linked_other)
    moreover have "?n \<notin> set us" using d fu by simp
    ultimately show ?thesis unfolding fu st2_def Some option.case
      by (rule linked_setPrev_first)
  qed (use new1 in \<open>simp add: st2_def\<close>)
  have pre2: "linked st2 None pre (Some ?n)"
  proof (cases "pre = []")
    case False
    then have pv: "prv = Some (last pre)" by (simp add: prv_def last_of_def)
    have "linked st1 None pre (Some ?a)"
      using lp postin nin by (auto simp: st1_def linked_other split: option.splits)
    then have "linked (setNext (last pre) (Some ?n) st1) None pre (Some ?n)"
      using False d by (intro linked_setNext_last) auto
    with nin show ?thesis by (simp add: st2_def pv linked_other)
  qed simp
  have post2: "linked st2 (Some ?m) post None"
  proof (cases post)
    case (Cons y ys)
    then have nv: "nxt = Some y" by (simp add: nxt_def)
    have "y \<notin> set ys" using d Cons by simp
    with lo have "linked (setPrev y (Some ?m) st) (Some ?m) post None"
      unfolding Cons by (intro linked_setPrev_first)
    with nin have "linked st1 (Some ?m) post None" by (simp add: st1_def nv linked_other)
    with prein nin show ?thesis by (auto simp: st2_def linked_other split: option.splits)
  qed simp
  have "linked st4 None (pre @ flat u @ post) None"
    using pre2 new2 post2 nin by (simp add: st4_def st3_def linked_other flip: prv_def nxt_def)
  moreover have "same_tree st st4" using s by (simp add: st4_def)
  ultimately show ?thesis using r old4 by blast
qed

lemma front_link_ok:
  assumes l: "linked st None post None" and u: "linked st None (flat u) None"
    and d: "distinct (flat u @ post)" and post: "post = y # ys"
  shows "linked (setNext (last (flat u)) (Some y) (setPrev y (Some (last (flat u))) st))
    None (flat u @ post) None"
proof -
  let ?m = "last (flat u)"
  have mem: "?m \<in> set (flat u)" by simp
  have "set (flat u) \<inter> set post = {}" "distinct post" using d by simp_all
  then have nin: "?m \<notin> set post" "y \<notin> set (flat u)" "y \<notin> set ys"
    using mem post by (metis disjoint_iff, metis disjoint_iff list.set_intros(1), simp)
  have "linked (setPrev y (Some ?m) st) None (flat u) None"
    using u nin by (simp add: linked_other)
  then have "linked (setNext ?m (Some y) (setPrev y (Some ?m) st)) None (flat u) (Some y)"
    using d by (intro linked_setNext_last) auto
  moreover have "linked (setPrev y (Some ?m) st) (Some ?m) post None"
    using l nin(3) unfolding post by (rule linked_setPrev_first)
  then have "linked (setNext ?m (Some y) (setPrev y (Some ?m) st)) (Some ?m) post None"
    using nin by (simp add: linked_other)
  ultimately show ?thesis using post by simp
qed

lemma root_not_below:
  assumes "stands st t" "distinct (flat t)" "d \<in> set (flat t)"
  shows "root_op t \<notin> set (getChildren st d)"
proof -
  have "distinct (root_op t # concat (map (getChildren st) (flat t)))"
    using distinct_children(1) [of "[t]" st] assms(1,2) by simp
  with assms(3) show ?thesis by auto
qed

lemma stands_same_below:
  assumes "stands st t" "distinct (flat t)"
    "\<And>d. d \<in> set (flat t) \<Longrightarrow> getChildren st' d = F (getChildren st d)"
    "\<And>d. cells st' d = None \<longleftrightarrow> cells st d = None"
    "\<And>xs. root_op t \<notin> set xs \<Longrightarrow> F xs = xs"
  shows "stands st' t"
  using assms(1) root_not_below [OF assms(1,2)] assms(3-5)
  by (subst stands_cong [of t st' st]) auto

lemma same_list_cells: "same_list st st' \<Longrightarrow> cells st' d = None \<longleftrightarrow> cells st d = None"
  by (simp add: same_list_def flip: op_label_None)

lemma content_ok_cong:
  assumes "same_shape st st'" "links_at st' = links_at st"
  shows "content_ok st' ops ts = content_ok st ops ts"
  using same_shape_stands [OF assms(1)] linked_frame [of _ st' st] assms(2)
  by (simp add: content_ok_def)

section \<open>The operations\<close>

lemma may_edit_ok:
  "cs_buffers cs \<noteq> [] \<Longrightarrow> cs_can_change cs \<Longrightarrow> cells st a \<noteq> None \<Longrightarrow>
     may_edit cs (getIterator st a) k = k"
  by (simp add: may_edit_def getIterator_def del: not_None_eq)

lemma cur_getIterator [simp]: "cur (getIterator st a) = a"
  by (simp add: getIterator_def)

lemma content_alive: "content_ok st ops ts \<Longrightarrow> a \<in> set (flats ts) \<Longrightarrow> cells st a \<noteq> None"
  unfolding content_ok_def using linked_alive by blast

lemma content_not_Nil: "content_ok st ops ts \<Longrightarrow> a \<in> set (flats ts) \<Longrightarrow> ops \<noteq> []"
  by (auto simp: content_ok_def)

text \<open>
  Claim C35: deleting an operator of a content stream takes it out of the level it is in and takes it
  and everything below it out of the list of all operators; what is left is again a tree whose
  preorder is the list, the operators keep their names and operands, and the deleted part stands
  alone, chained in itself.
\<close>

theorem operator_deleted:
  assumes ok: "content_ok (cs_store cs) (cs_operators cs) ts" and a: "a \<in> set (flats ts)"
    and can: "cs_buffers cs \<noteq> []" "cs_can_change cs"
  shows "\<exists>cs1 t pre post.
    deleteOperator sr (getIterator (cs_store cs) a) ind cs = indicate sr ind cs1 \<and>
    content_ok (cs_store cs1) (cs_operators cs1) (prune a ts) \<and>
    flats ts = pre @ flat t @ post \<and> flats (prune a ts) = pre @ post \<and>
    root_op t = a \<and> stands (cs_store cs1) t \<and> linked (cs_store cs1) None (flat t) None \<and>
    op_label (cs_store cs1) = op_label (cs_store cs) \<and> cs_buffers cs1 = cs_buffers cs"
proof -
  note ok' = ok [unfolded content_ok_def]
  from flats_split [OF a] ok' obtain pre t post where
    t: "flats ts = pre @ flat t @ post" "root_op t = a" "flats (prune a ts) = pre @ post"
      "stands (cs_store cs) t" by blast
  from change_level_ok [OF ok a, of "remove1 a" "remove1 a" "\<lambda>c. remove_child c a"]
  obtain st where st: "change_level (remove1 a) (\<lambda>c. remove_child c a) a cs =
        Some (Inr (cs\<lparr>cs_operators := remove1 a (cs_operators cs), cs_store := st\<rparr>))"
      "same_list (cs_store cs) st"
      "\<And>d. d \<in> set (flats ts) \<Longrightarrow> getChildren st d = remove1 a (getChildren (cs_store cs) d)"
    by (auto simp: remove_child_def remove1_idem)
  have d: "distinct (flats ts)" using ok' by blast
  note alive = same_list_cells [OF st(2)]
  have stt: "stands st t"
    using t d st(3) by (intro stands_same_below [OF t(4), of st "remove1 a"]) (auto simp: alive remove1_idem)
  have lst: "linked st None (pre @ flat t @ post) None"
    using ok' same_list_linked [OF st(2)] t(1) by metis
  have dst: "distinct (pre @ flat t @ post)" using d t(1) by simp
  from unlink_ok [OF lst dst stt]
  obtain st' where st': "unlink a st = Some st'" "same_tree st st'"
      "linked st' None (pre @ post) None" "linked st' None (flat t) None"
    unfolding t(2) by blast
  let ?cs = "cs\<lparr>cs_operators := remove1 a (cs_operators cs), cs_store := st'\<rparr>"
  have "deleteOperator sr (getIterator (cs_store cs) a) ind cs = indicate sr ind ?cs"
    using content_not_Nil [OF ok a]
    by (simp add: deleteOperator_def may_edit_ok [OF can content_alive [OF ok a]] finish_def st(1) st'(1))
  moreover have "content_ok st' (remove1 a (cs_operators cs)) (prune a ts)"
    unfolding content_ok_def
  proof (intro conjI)
    show "remove1 a (cs_operators cs) = map root_op (prune a ts)" using ok' by (simp add: roots_prune)
    have "\<forall>t\<in>set (prune a ts). stands st t"
      by (rule stands_prune [of ts "cs_store cs"]) (use ok' st(3) alive in blast)+
    then show "\<forall>t\<in>set (prune a ts). stands st' t" by (simp add: same_tree_stands [OF st'(2)])
    show "distinct (flats (prune a ts))" using dst t(3) by auto
    show "linked st' None (flats (prune a ts)) None" using st'(3) t(3) by simp
  qed
  moreover have "op_label st' = op_label (cs_store cs)"
    using st(2) st'(2) by (simp add: same_list_def same_tree_def same_shape_def)
  moreover have "stands st' t" using stt by (simp add: same_tree_stands [OF st'(2)])
  ultimately show ?thesis using t(1-3) st'(4) by (intro exI [of _ ?cs]) auto
qed

text \<open>What inserting and replacing share: the new operators get the stream, and a level changes.\<close>

lemma level_prepared:
  assumes ok: "content_ok (cs_store cs) (cs_operators cs) ts" and a: "a \<in> set (flats ts)"
    and u: "stands (cs_store cs) u" "linked (cs_store cs) None (flat u) None"
      "distinct (flats ts @ flat u)"
    and top: "on_operators (cs_operators cs) = F (cs_operators cs)"
    and comp: "\<And>c st. a \<in> set (getChildren st c) \<Longrightarrow> on_composite c st = Inr (set_children c F st)"
    and absent: "\<And>xs. a \<notin> set xs \<Longrightarrow> F xs = xs"
  shows "\<exists>st1 st2 pre t post.
    opsSetPdfRefCs (cs_id cs) (root_op u) (cs_store cs) = Some st1 \<and>
    content_ok st1 (cs_operators cs) ts \<and> stands st1 u \<and>
    change_level on_operators on_composite a (cs\<lparr>cs_store := st1\<rparr>) =
      Some (Inr (cs\<lparr>cs_operators := F (cs_operators cs), cs_store := st2\<rparr>)) \<and>
    flats ts = pre @ flat t @ post \<and> root_op t = a \<and>
    flats (graft a u ts) = pre @ flat t @ flat u @ post \<and>
    flats (prune a (graft a u ts)) = pre @ flat u @ post \<and>
    distinct (pre @ flat t @ flat u @ post) \<and>
    stands st2 t \<and> stands st2 u \<and>
    linked st2 None (pre @ flat t @ post) None \<and> linked st2 None (flat u) None \<and>
    (\<forall>d\<in>set (flats ts). getChildren st2 d = F (getChildren st1 d)) \<and>
    (\<forall>d. d \<notin> set (flats ts) \<longrightarrow> getChildren st2 d = getChildren st1 d) \<and>
    (\<forall>d. cells st2 d = None \<longleftrightarrow> cells st1 d = None) \<and>
    op_label st2 = op_label (cs_store cs) \<and> (\<forall>b\<in>set (flat u). owner st2 b = Some (cs_id cs))"
proof -
  note ok' = ok [unfolded content_ok_def]
  obtain us where fu: "flat u = root_op u # us" by (cases u) simp
  from opsSetPdfRefCs_ok [of "cs_store cs" None "root_op u" us "cs_id cs"] u(2) fu
  obtain st1 where st1: "opsSetPdfRefCs (cs_id cs) (root_op u) (cs_store cs) = Some st1"
      "same_shape (cs_store cs) st1" "links_at st1 = links_at (cs_store cs)"
      "\<And>b. b \<in> set (flat u) \<Longrightarrow> owner st1 b = Some (cs_id cs)" by auto
  let ?cs0 = "cs\<lparr>cs_store := st1\<rparr>"
  have ok1: "content_ok (cs_store ?cs0) (cs_operators ?cs0) ts"
    using ok content_ok_cong [OF st1(2,3)] by simp
  note ok1' = ok1 [unfolded content_ok_def, simplified]
  have d: "distinct (flats ts)" using ok' by blast
  have na: "a \<notin> set (flat u)" using u(3) a by auto
  from flats_split [OF a d] na obtain pre t post where
    t: "flats ts = pre @ flat t @ post" "root_op t = a"
      "flats (graft a u ts) = pre @ flat t @ flat u @ post"
      "flats (prune a (graft a u ts)) = pre @ flat u @ post" "stands st1 t"
    using ok1' by blast
  have "on_operators (cs_operators ?cs0) = F (cs_operators ?cs0)" using top by simp
  from change_level_ok [of ?cs0 ts a on_operators F on_composite, OF ok1 a this comp absent] obtain st2 where
    raw: "change_level on_operators on_composite a ?cs0 =
        Some (Inr (?cs0\<lparr>cs_operators := F (cs_operators ?cs0), cs_store := st2\<rparr>))"
      "same_list (cs_store ?cs0) st2"
      "\<forall>d\<in>set (flats ts). getChildren st2 d = F (getChildren (cs_store ?cs0) d)"
      "\<forall>d. d \<notin> set (flats ts) \<longrightarrow> getChildren st2 d = getChildren (cs_store ?cs0) d"
    by blast
  have st2: "change_level on_operators on_composite a ?cs0 =
        Some (Inr (cs\<lparr>cs_operators := F (cs_operators cs), cs_store := st2\<rparr>))"
      "same_list st1 st2"
      "\<forall>d\<in>set (flats ts). getChildren st2 d = F (getChildren st1 d)"
      "\<forall>d. d \<notin> set (flats ts) \<longrightarrow> getChildren st2 d = getChildren st1 d"
    using raw by (simp_all del: set_concat set_map)
  note alive = same_list_cells [OF st2(2)]
  note lnk = same_list_linked [OF st2(2)]
  have stt: "stands st2 t"
    using t d bspec [OF st2(3)] absent
    by (intro stands_same_below [OF t(5), of st2 F]) (simp_all add: alive del: set_concat)
  have su: "stands st1 u" using u(1) same_shape_stands [OF st1(2)] by simp
  moreover have "\<And>d. d \<in> set (flat u) \<Longrightarrow> getChildren st2 d = getChildren st1 d"
    using u(3) st2(4) by auto
  ultimately have stu: "stands st2 u" using stands_cong [of u st2 st1] alive by blast
  have lts: "linked st2 None (pre @ flat t @ post) None"
    using ok1' lnk t(1) by metis
  have lu: "linked st2 None (flat u) None"
    using u(2) lnk linked_frame [of "flat u" st1 "cs_store cs"] st1(3) by simp
  have dd: "distinct (pre @ flat t @ flat u @ post)" using u(3) t(1) by auto
  have lab: "op_label st2 = op_label (cs_store cs)" "owner st2 = owner st1"
    using st1(2) st2(2) by (simp_all add: same_list_def same_shape_def)
  show ?thesis
    by (intro exI [of _ st1] exI [of _ st2] exI [of _ pre] exI [of _ t] exI [of _ post] conjI)
      (use ok1 st1 st2 t alive stt su stu lts lu dd lab in \<open>simp_all del: set_concat set_map\<close>)
qed


lemma swap_in_list:
  "distinct xs \<Longrightarrow> n \<noteq> a \<Longrightarrow>
     map (\<lambda>b. if b = a then n else b) xs = remove1 a (list_insert_after a n xs)"
proof (induction xs)
  case (Cons x xs)
  show ?case
  proof (cases "x = a")
    case True
    with Cons.prems have "map (\<lambda>b. if b = a then n else b) xs = xs" by (intro map_idI) auto
    with True Cons.prems show ?thesis by simp
  next
    case False
    with Cons show ?thesis by simp
  qed
qed simp

lemma in_list_insert_after: "a \<in> set xs \<Longrightarrow> set (list_insert_after a n xs) = insert n (set xs)"
  by (induction xs) auto

lemma stands_swapped:
  assumes "\<forall>t\<in>set ts. stands st1 t" "distinct (flats ts)" "stands st2 u" "root_op u \<noteq> a"
    "\<And>d. d \<in> set (flats ts) \<Longrightarrow>
       getChildren st2 d = remove1 a (list_insert_after a (root_op u) (getChildren st1 d))"
    "\<And>d. cells st2 d = None \<longleftrightarrow> cells st1 d = None"
  shows "\<forall>t\<in>set (prune a (graft a u ts)). stands st2 t"
  using assms
proof (induction a u ts rule: graft.induct)
  case (2 a u b us ts)
  show ?case
  proof (cases "b = a")
    case True
    then have "a \<notin> set (flats ts)" using "2.prems"(2) by auto
    then have "\<forall>t\<in>set ts. stands st2 t"
      using "2.prems"
      by (intro stands_absent [of ts st1 a st2 "\<lambda>xs. remove1 a (list_insert_after a (root_op u) xs)"])
        (auto simp: list_insert_after_absent remove1_idem)
    with True "2.prems"(3,4) show ?thesis by (cases u) auto
  next
    case False
    have "\<forall>t\<in>set (prune a (graft a u us)). stands st2 t"
      "\<forall>t\<in>set (prune a (graft a u ts)). stands st2 t"
      using "2.IH" [OF False] "2.prems" by auto
    with False "2.prems" show ?thesis by (simp add: roots_prune roots_graft)
  qed
qed simp


text \<open>
  Inserting an operator, a composite or not, before all others makes it the first of its level
  and of the list.
\<close>

theorem operator_front_inserted:
  assumes ok: "content_ok (cs_store cs) (cs_operators cs) ts"
    and u: "stands (cs_store cs) u" "linked (cs_store cs) None (flat u) None"
      "distinct (flats ts @ flat u)"
    and can: "cs_buffers cs \<noteq> []" "cs_can_change cs"
  shows "\<exists>cs1.
    frontInsertOperator sr (root_op u) ind cs = indicate sr ind cs1 \<and>
    content_ok (cs_store cs1) (cs_operators cs1) (u # ts) \<and>
    (\<forall>b\<in>set (flat u). owner (cs_store cs1) b = Some (cs_id cs)) \<and>
    op_label (cs_store cs1) = op_label (cs_store cs) \<and> cs_buffers cs1 = cs_buffers cs"
proof -
  let ?n = "root_op u" and ?m = "last (flat u)"
  note set_all = opsSetPdfRefCs_ok [where p = None and a = ?n and ys = "tl (flat u)" and cs = "cs_id cs"]
  have fu: "flat u = ?n # tl (flat u)" by (cases u) simp
  from set_all [of "cs_store cs"] u(2) fu
  obtain st1 where st1: "opsSetPdfRefCs (cs_id cs) ?n (cs_store cs) = Some st1"
      "same_shape (cs_store cs) st1" "links_at st1 = links_at (cs_store cs)"
      "\<forall>b\<in>set (flat u). owner st1 b = Some (cs_id cs)" by auto
  have l1: "linked st1 None (flat u) None"
    using u(2) linked_frame [of "flat u" st1 "cs_store cs"] st1(3) by simp
  from set_all [of st1] l1 fu
  obtain st2 where st2: "opsSetPdfRefCs (cs_id cs) ?n st1 = Some st2"
      "same_shape st1 st2" "links_at st2 = links_at st1"
      "\<forall>b\<in>set (flat u). owner st2 b = Some (cs_id cs)" by auto
  have sh: "same_shape (cs_store cs) st2" using st1(2) st2(2) by (simp add: same_shape_def)
  have lk: "links_at st2 = links_at (cs_store cs)" using st1(3) st2(3) by simp
  have ok1: "content_ok st1 (cs_operators cs) ts" using ok content_ok_cong [OF st1(2,3)] by simp
  have ok2: "content_ok st2 (cs_operators cs) ts" using ok content_ok_cong [OF sh lk] by simp
  have l2: "linked st2 None (flat u) None"
    using u(2) linked_frame [of "flat u" st2 "cs_store cs"] lk by simp
  have u1: "stands st1 u" and u2: "stands st2 u"
    using u(1) same_shape_stands [OF st1(2)] same_shape_stands [OF sh] by simp_all
  show ?thesis
  proof (cases "cs_operators cs")
    case Nil
    then have ts: "ts = []" using ok by (simp add: content_ok_def)
    let ?cs = "cs\<lparr>cs_store := st1, cs_operators := [?n]\<rparr>"
    have "frontInsertOperator sr ?n ind cs = indicate sr ind ?cs"
      using can Nil by (simp add: frontInsertOperator_def st1(1))
    moreover have "content_ok st1 [?n] (u # ts)"
      using ts u1 l1 u(3) by (simp add: content_ok_def)
    moreover have "op_label st1 = op_label (cs_store cs)" using st1(2) by (simp add: same_shape_def)
    ultimately show ?thesis using st1(4) by (intro exI [of _ ?cs]) simp
  next
    case (Cons second rest)
    then obtain v vs where v: "ts = v # vs" "root_op v = second"
      using ok by (cases ts) (auto simp: content_ok_def)
    then have fv: "flats ts = second # tl (flat v) @ flats vs" by (cases v) simp
    let ?st = "setNext ?m (Some second) (setPrev second (Some ?m) st2)"
    let ?cs = "cs\<lparr>cs_store := ?st, cs_operators := ?n # second # rest\<rparr>"
    have "frontInsertOperator sr ?n ind cs = indicate sr ind ?cs"
      using can Cons
      by (simp add: frontInsertOperator_def st1(1) st2(1) getLastOperator_stands [OF u2] Let_def)
    moreover have "linked ?st None (flat u @ flats ts) None"
      using ok2 l2 u(3) fv
      by (intro front_link_ok) (auto simp: content_ok_def)
    then have "content_ok ?st (?n # second # rest) (u # ts)"
      using ok2 u2 u(3) Cons by (auto simp: content_ok_def simp del: linked_append)
    moreover have "op_label ?st = op_label (cs_store cs)" using sh by (simp add: same_shape_def)
    moreover have "owner ?st = owner st2" by simp
    ultimately show ?thesis using st2(4) by (intro exI [of _ ?cs]) simp
  qed
qed

section \<open>Two divergences\<close>

text \<open>
  A composite that is inserted in the middle of the list: its own link to the next operator goes to
  what followed, not to its first child, so the walk along the list misses what is below it.
\<close>

lemma composite_insert_skips:
  assumes l: "linked st None (pre @ flat t @ y # ys) None" and t: "stands st t"
    and d: "distinct (pre @ flat t @ flat u @ y # ys)" and u: "stands st u"
  shows "\<exists>st'. link_behind (root_op t) (root_op u) st = Some st' \<and> next_of st' (root_op u) = Some y"
proof -
  let ?l = "last (flat t)" and ?n = "root_op u"
  obtain vs where fl: "flat t = vs @ [?l]"
    by (metis append_butlast_last_id flat_not_Nil)
  have "linked st None ((pre @ vs) @ ?l # y # ys) None" using l fl
    by (metis append.assoc append_Cons append_Nil)
  from linked_next_of [OF this] have n: "next_of st ?l = Some y" by simp
  let ?st = "setNext ?n (Some y) (setPrev y (Some ?n) (setPrev ?n (Some ?l) (setNext ?l (Some ?n) st)))"
  have b: "link_behind (root_op t) ?n st = Some ?st"
    by (simp add: link_behind_def getLastOperator_stands [OF t] n Let_def)
  have "cells st y \<noteq> None" "cells st ?n \<noteq> None"
    using linked_alive [OF l, of y] stands_alive [OF u, of ?n] by simp_all
  then have "next_of ?st ?n = Some y"
    by (auto simp: next_of_def alive_def)
  with b show ?thesis by blast
qed

text \<open>The first operator of an empty stream is not given the stream it is in.\<close>

lemma empty_insert_no_owner:
  assumes "cs_buffers cs \<noteq> []" "cs_can_change cs" "cs_operators cs = []"
  shows "insertOperator sr it n True cs = Some (Inr (), cs\<lparr>cs_operators := [n]\<rparr>)"
  using assms by (simp add: insertOperator_def)

section \<open>What is written\<close>

lemma objectChanged_writes:
  assumes "cs_in_pdf cs" "cs_buffers cs \<noteq> []"
    "ops_string sr (cs_store cs) (cs_operators cs) = Some (Inr s)"
  shows "\<exists>cs1. objectChanged sr cs = Some (Inr (), cs1) \<and> concat (cs_buffers cs1) = s \<and>
    length (cs_buffers cs1) = length (cs_buffers cs) \<and> cs_observed cs1"
  using assms by (auto simp: objectChanged_def)

section \<open>A small stream\<close>

text \<open>\<open>q w Q\<close>, a composite with two children, followed by \<open>n\<close>; the operator \<open>S\<close> is not in it.\<close>

definition sample_ops :: op_store where
  "sample_ops = \<lparr>cells =
     [0 \<mapsto> \<lparr>op_class = UnknownCompositePdfOperator ''q'' ''Q'' [1, 2], prev_link = None,
             next_link = Some 1, contentstream = Some 7\<rparr>,
      1 \<mapsto> \<lparr>op_class = SimpleGenericOperator ''w'' [XReal 2], prev_link = Some 0,
             next_link = Some 2, contentstream = Some 7\<rparr>,
      2 \<mapsto> \<lparr>op_class = SimpleGenericOperator ''Q'' [], prev_link = Some 1,
             next_link = Some 3, contentstream = Some 7\<rparr>,
      3 \<mapsto> \<lparr>op_class = SimpleGenericOperator ''n'' [], prev_link = Some 2,
             next_link = None, contentstream = Some 7\<rparr>,
      4 \<mapsto> \<lparr>op_class = SimpleGenericOperator ''S'' [], prev_link = None,
             next_link = None, contentstream = None\<rparr>],
     free_addr = 5\<rparr>"

definition sample_stream :: content_stream where
  "sample_stream = \<lparr>cs_id = 7, cs_operators = [0, 3], cs_store = sample_ops,
     cs_buffers = [''q 2 w Q n'', '' ''], cs_in_pdf = True, cs_can_change = True,
     cs_observed = True, cs_notified = 0\<rparr>"

definition sample_tree :: "op_tree list" where
  "sample_tree = [OpTree 0 [OpTree 1 [], OpTree 2 []], OpTree 3 []]"

lemma sample_content: "content_ok (cs_store sample_stream) (cs_operators sample_stream) sample_tree"
  by (simp add: content_ok_def sample_stream_def sample_tree_def sample_ops_def getChildren_def)

lemma sample_new:
  "stands (cs_store sample_stream) (OpTree 4 [])"
  "linked (cs_store sample_stream) None (flat (OpTree 4 [])) None"
  "distinct (flats sample_tree @ flat (OpTree 4 []))"
  by (simp_all add: sample_stream_def sample_ops_def sample_tree_def getChildren_def)

lemma sample_editable: "cs_buffers sample_stream \<noteq> []" "cs_can_change sample_stream"
  by (simp_all add: sample_stream_def)

theorem operator_deleted_witness:
  "\<exists>cs1. deleteOperator (\<lambda>_ s. s) (getIterator (cs_store sample_stream) 1) False sample_stream =
       indicate (\<lambda>_ s. s) False cs1 \<and>
     content_ok (cs_store cs1) (cs_operators cs1) [OpTree 0 [OpTree 2 []], OpTree 3 []]"
  using operator_deleted [OF sample_content _ sample_editable, of 1 "\<lambda>_ s. s" False]
  by (auto simp: sample_tree_def)



theorem operator_front_inserted_witness:
  "\<exists>cs1. frontInsertOperator (\<lambda>_ s. s) 4 False sample_stream = indicate (\<lambda>_ s. s) False cs1 \<and>
     content_ok (cs_store cs1) (cs_operators cs1) (OpTree 4 [] # sample_tree)"
  using operator_front_inserted [OF sample_content sample_new sample_editable, of "\<lambda>_ s. s" False]
  by auto

text \<open>
  Claim C38: the objects a search by position returns are exactly the operators of the stream that are
  changeable and whose bounding box the comparator takes, in the order of the list; the walk ends.
\<close>

theorem position_search:
  assumes "content_ok st operators ts"
  shows "getOperatorsAtPosition cmp st operators =
    Some (Inr (filter cmp (filter (not_rejected unchangeable_opers st) (flats ts))))"
  using assms by (rule position_spec)

theorem position_search_witness:
  "getOperatorsAtPosition (\<lambda>_. True) sample_ops [0, 3] = Some (Inr [3])"
proof -
  have "content_ok sample_ops [0, 3] sample_tree"
    using sample_content by (simp add: sample_stream_def)
  from position_search [OF this, of "\<lambda>_. True"] show ?thesis
    by (simp add: sample_tree_def sample_ops_def not_rejected_def getOperatorName_def
        unchangeable_opers_def)
qed

end
