(* ===== verification/Parsed_Content.thy ===== *)
theory Parsed_Content
  imports Content_Parser
begin

text \<open>
  What the parser of content streams builds.  Its result is, on every input, a list of operators that
  are the preorder of the tree of the composites, each closed by its end tag, which spells the part of
  the input that was read; and a list of operators that is written token by token is read back.
\<close>

section \<open>Appending to a composite\<close>

lemma getChildren_of_unknown:
  "op_label st c = Some (UnknownCompositePdfOperator b e cs) \<Longrightarrow>
     getChildren (set_children c f st) = (getChildren st)(c := f (getChildren st c))"
  by (auto simp: getChildren_def set_children_def cells_update_op op_label_def fun_eq_iff
      split: option.splits op_class.splits)

lemma next_of_set_children [simp]: "next_of (set_children a f st) = next_of st"
  by (auto simp: next_of_links fun_eq_iff alive_def set_children_def cells_update_op split: option.splits)
    (auto simp: links_at_def cells_update_op split: if_splits)

lemma putBehind_end:
  "next_of st p = None \<Longrightarrow> putBehind p w st = setPrev w (Some p) (setNext p (Some w) st)"
  by (simp add: putBehind_def)

lemma cells_set_children_other: "b \<noteq> a \<Longrightarrow> cells (set_children a f st) b = cells st b"
  by (simp add: set_children_def cells_update_op)

lemma push_back_cases:
  assumes p: "next_of st p = None" and a: "op_label st a = Some (UnknownCompositePdfOperator b e cs)"
  shows "\<exists>st'. push_back a w (Some p) st = Inr st' \<and>
    links_at st' = links_at (setPrev w (Some p) (setNext p (Some w) st)) \<and>
    getChildren st' = (getChildren st)(a := getChildren st a @ [w]) \<and>
    op_label st' = op_label st \<and> owner st' = owner st \<and> free_addr st' = free_addr st \<and>
    (\<forall>d. d \<notin> {a, p, w} \<longrightarrow> cells st' d = cells st d)"
proof (cases "getChildren st a = []")
  case True
  let ?st = "setPrev w (Some p) (setNext p (Some w) (set_children a (\<lambda>cs. cs @ [w]) st))"
  have "push_back a w (Some p) st = Inr ?st"
    using True p by (simp add: push_back_def putBehind_end)
  moreover have "free_addr ?st = free_addr st"
    by (simp add: setPrev_def setNext_def set_children_def)
  ultimately show ?thesis
    by (intro exI [of _ ?st]) (simp add: getChildren_of_unknown [OF a] cells_set_children_other)
next
  case False
  let ?st = "set_children a (\<lambda>cs. cs @ [w]) (setPrev w (Some p) (setNext p (Some w) st))"
  have "push_back a w (Some p) st = Inr ?st"
    using False p by (simp add: push_back_def putBehind_end)
  moreover have "free_addr ?st = free_addr st"
    by (simp add: setPrev_def setNext_def set_children_def)
  moreover have "getChildren ?st = (getChildren st)(a := getChildren st a @ [w])"
    by (subst getChildren_of_unknown [of _ a b e cs]) (simp_all add: a)
  ultimately show ?thesis
    by (intro exI [of _ ?st]) (simp add: cells_set_children_other)
qed

lemma next_of_last:
  assumes "linked st p xs None" "xs \<noteq> []"
  shows "next_of st (last xs) = None"
  using linked_next_of [of st p "butlast xs" "last xs" "[]" None] assms by (simp add: alive_def)

lemma push_back_ok:
  assumes u: "stands st (OpTree a ts)" "linked st None (flat (OpTree a ts)) None"
    and t: "stands st t" "linked st None (flat t) None"
    and d: "distinct (flat (OpTree a ts) @ flat t)"
    and l: "op_label st a = Some (UnknownCompositePdfOperator b e cs)"
  shows "\<exists>st'. push_back a (root_op t) (Some (last (flat (OpTree a ts)))) st = Inr st' \<and>
    stands st' (OpTree a (ts @ [t])) \<and> linked st' None (flat (OpTree a (ts @ [t]))) None \<and>
    op_label st' = op_label st \<and> owner st' = owner st \<and> free_addr st' = free_addr st \<and>
    (\<forall>c. c \<notin> set (flat (OpTree a ts)) \<longrightarrow> c \<notin> set (flat t) \<longrightarrow> cells st' c = cells st c)"
proof -
  let ?u = "OpTree a ts"
  let ?p = "last (flat ?u)" and ?w = "root_op t"
  have "next_of st ?p = None" by (rule next_of_last [OF u(2) flat_not_Nil])
  from push_back_cases [OF this l, of ?w] obtain st' where
    s: "push_back a ?w (Some ?p) st = Inr st'"
      "links_at st' = links_at (setPrev ?w (Some ?p) (setNext ?p (Some ?w) st))"
      "getChildren st' = (getChildren st)(a := getChildren st a @ [?w])"
      "op_label st' = op_label st" "owner st' = owner st" "free_addr st' = free_addr st"
      "\<forall>d. d \<notin> {a, ?p, ?w} \<longrightarrow> cells st' d = cells st d" by blast
  have dom: "cells st' d = None \<longleftrightarrow> cells st d = None" for d
    using s(4) by (metis op_label_None)
  have a: "a \<notin> set (flat t)" "\<And>v. v \<in> set ts \<Longrightarrow> a \<notin> set (flat v)" using d by auto
  have keep: "stands st' v = stands st v" if "a \<notin> set (flat v)" for v
    by (rule stands_cong) (use that in \<open>auto simp: s(3) dom\<close>)
  have "stands st' (OpTree a (ts @ [t]))"
    using u(1) t(1) a by (auto simp: s(3) dom keep)
  moreover have "linked st' None (flat ?u @ flat t) None"
  proof -
    have q: "?p \<in> set (flat ?u)" by (metis flat_not_Nil last_in_set)
    then have n: "?p \<notin> set (flat t)" "?w \<notin> set (flat ?u)"
      using d root_in_flat [of t] unfolding distinct_append by blast+
    obtain ws where ft: "flat t = ?w # ws" by (cases t) simp
    have "linked (setNext ?p (Some ?w) st) None (flat ?u) (Some ?w)"
      using u(2) d by (intro linked_setNext_last) simp_all
    moreover have "linked (setPrev ?w (Some ?p) (setNext ?p (Some ?w) st)) (Some ?p) (flat t) None"
      using t(2) n(1) d ft by (metis distinct.simps(2) distinct_append linked_other(1) linked_setPrev_first)
    ultimately have "linked (setPrev ?w (Some ?p) (setNext ?p (Some ?w) st)) None (flat ?u @ flat t) None"
      using n(2) by (simp add: linked_other del: flat.simps)
    then show ?thesis using linked_frame [of _ st'] s(2) by metis
  qed
  moreover have "?p \<in> set (flat ?u)" by (metis flat_not_Nil last_in_set)
  then have "\<forall>c. c \<notin> set (flat ?u) \<longrightarrow> c \<notin> set (flat t) \<longrightarrow> cells st' c = cells st c"
    using s(7) by (metis flat.simps insertE list.set_intros(1) root_in_flat singletonD)
  ultimately show ?thesis using s(1,4,5,6) by (intro exI [of _ st']) simp
qed

section \<open>What the parser builds\<close>

lemma name_of_label:
  "getOperatorName st a = (case op_label st a of None \<Rightarrow> [] | Some k \<Rightarrow> operator_name k)"
proof -
  have "operator_name (own_part k) = operator_name k" for k by (cases k) simp_all
  then show ?thesis by (simp add: getOperatorName_def op_label_def split: option.splits)
qed

text \<open>
  A composite is closed: its last child, and no other, has the name of its end tag; other operators
  have no children.
\<close>

fun closed :: "op_store \<Rightarrow> op_tree \<Rightarrow> bool" where
  "closed st (OpTree a ts) \<longleftrightarrow>
     (case op_label st a of
        Some (UnknownCompositePdfOperator b e _) \<Rightarrow>
          getEndTag b = Inr e \<and> ts \<noteq> [] \<and> getOperatorName st (root_op (last ts)) = e \<and>
          (\<forall>t\<in>set (butlast ts). getOperatorName st (root_op t) \<noteq> e)
      | _ \<Rightarrow> ts = []) \<and>
     (\<forall>t\<in>set ts. closed st t)"

lemma closed_cong:
  "(\<And>a. a \<in> set (flat t) \<Longrightarrow> op_label st' a = op_label st a) \<Longrightarrow> closed st' t = closed st t"
proof (induction t)
  case (OpTree a ts)
  have "closed st' t = closed st t" if "t \<in> set ts" for t
    by (rule OpTree.IH [OF that]) (use OpTree.prems that in auto)
  moreover have n: "getOperatorName st' (root_op t) = getOperatorName st (root_op t)" if "t \<in> set ts" for t
    using OpTree.prems [of "root_op t"] roots_in_flats [OF that] by (simp add: name_of_label)
  moreover have "op_label st' a = op_label st a" using OpTree.prems by simp
  moreover have "(\<forall>t\<in>set (butlast ts). getOperatorName st' (root_op t) \<noteq> e) =
      (\<forall>t\<in>set (butlast ts). getOperatorName st (root_op t) \<noteq> e)" for e
    using n by (metis in_set_butlastD)
  moreover have "getOperatorName st' (root_op (last ts)) = getOperatorName st (root_op (last ts))" if "ts \<noteq> []"
    using n that by simp
  ultimately show ?case
    by (auto split: option.splits op_class.splits)
qed

text \<open>The store grows: nothing that was there changes but the operators of \<open>A\<close>.\<close>

definition grows :: "nat set \<Rightarrow> op_store \<Rightarrow> op_store \<Rightarrow> bool" where
  "grows A st st' \<longleftrightarrow> fresh st' \<and> free_addr st \<le> free_addr st' \<and>
     (\<forall>a. a < free_addr st \<longrightarrow> a \<notin> A \<longrightarrow> cells st' a = cells st a)"

text \<open>The operators of a tree are in the list, in this order; new ones have no stream.\<close>

definition built :: "op_store \<Rightarrow> op_tree \<Rightarrow> bool" where
  "built st t \<longleftrightarrow> stands st t \<and> linked st None (flat t) None \<and> distinct (flat t) \<and> closed st t"

definition spelled :: "op_store \<Rightarrow> nat list \<Rightarrow> item list \<Rightarrow> bool" where
  "spelled st as items \<longleftrightarrow>
     (\<exists>segs. list_all2 (\<lambda>a seg. case op_label st a of None \<Rightarrow> False | Some k \<Rightarrow> spells k seg) as segs \<and>
       items = concat segs)"

lemma spelled_append:
  "spelled st as i \<Longrightarrow> spelled st bs j \<Longrightarrow> spelled st (as @ bs) (i @ j)"
  unfolding spelled_def by (metis concat_append list_all2_appendI)

lemma spelled_Nil [simp]: "spelled st [] items \<longleftrightarrow> items = []"
  by (auto simp: spelled_def)

lemma spelled_cong:
  "(\<And>a. a \<in> set as \<Longrightarrow> op_label st' a = op_label st a) \<Longrightarrow> spelled st' as i = spelled st as i"
proof -
  assume *: "\<And>a. a \<in> set as \<Longrightarrow> op_label st' a = op_label st a"
  have "list_all2 (\<lambda>a seg. case op_label st' a of None \<Rightarrow> False | Some k \<Rightarrow> spells k seg) as segs =
    list_all2 (\<lambda>a seg. case op_label st a of None \<Rightarrow> False | Some k \<Rightarrow> spells k seg) as segs" for segs
    by (rule list.rel_cong_simp [OF refl refl]) (simp add: simp_implies_def *)
  then show ?thesis by (simp add: spelled_def)
qed

lemma cells_label: "cells st' a = cells st a \<Longrightarrow> op_label st' a = op_label st a"
  by (simp add: op_label_def)

lemma stands_frame:
  "(\<And>a. a \<in> set (flat t) \<Longrightarrow> cells st' a = cells st a) \<Longrightarrow> stands st' t = stands st t"
  by (rule stands_cong) (simp_all add: getChildren_def)

lemma linked_keep:
  "(\<And>a. a \<in> set xs \<Longrightarrow> cells st' a = cells st a) \<Longrightarrow> linked st' p xs n = linked st p xs n"
  by (rule linked_frame) (simp add: links_at_def)

lemma built_frame:
  "(\<And>a. a \<in> set (flat t) \<Longrightarrow> cells st' a = cells st a) \<Longrightarrow> built st' t = built st t"
  unfolding built_def by (metis (no_types, lifting) closed_cong cells_label links_at_def linked_frame stands_frame)

definition op_parsed :: "op_store \<Rightarrow> item list \<Rightarrow> nat \<Rightarrow> item list \<Rightarrow> op_store \<Rightarrow> bool" where
  "op_parsed st items a r st' \<longleftrightarrow>
     (\<exists>t seg. root_op t = a \<and> set (flat t) \<subseteq> {free_addr st..<free_addr st'} \<and> built st' t \<and>
       spelled st' (flat t) seg \<and> seg \<noteq> [] \<and> items = seg @ r)"

text \<open>Behind the last operator only operands are left, up to the end.\<close>

definition ends_with :: "item list \<Rightarrow> xobj list \<Rightarrow> bool" where
  "ends_with items ops \<longleftrightarrow> items = map Tok ops \<or> (\<exists>r. items = map Tok ops @ Tok XEOF # r)"

lemma operands_end:
  "createOperandsFromStream items ops0 = Inr (None, r, ops) \<Longrightarrow> \<exists>ys. ops = ops0 @ ys \<and> ends_with items ys"
proof (induction items arbitrary: ops0)
  case (Cons i items)
  show ?case
  proof (cases i)
    case (Tok x)
    consider (cmd) s where "x = XCmd s" | (eof) "x = XEOF" | (obj) "\<forall>s. x \<noteq> XCmd s" "x \<noteq> XEOF" by blast
    then show ?thesis
    proof cases
      case eof
      with Cons.prems Tok show ?thesis by (intro exI [of _ "[]"]) (simp add: ends_with_def)
    next
      case obj
      from Cons.IH [OF operand_read [OF Cons.prems [unfolded Tok] obj]] obtain ys where
        "ops = (ops0 @ [x]) @ ys" "ends_with items ys" by blast
      with Tok show ?thesis by (intro exI [of _ "x # ys"]) (auto simp: ends_with_def)
    qed (use Cons.prems Tok in simp)
  qed (use Cons.prems in simp_all)
qed (simp add: ends_with_def)

lemma no_operator_left:
  assumes "createOperatorFromStream items [] st = Inr (None, r, ops, st')"
  shows "st' = st \<and> ends_with items ops"
proof -
  from assms obtain cmd r0 ops0 where
    o: "createOperandsFromStream items [] = Inr (cmd, r0, ops0)"
    by (auto simp: createOperatorFromStream_def rbind_Inr_iff)
  have "cmd = None"
  proof (cases cmd)
    case (Some c)
    show ?thesis
    proof (cases "take 2 c = ''BI''")
      case True
      with assms o Some show ?thesis
        by (cases "findOp c") (auto simp: createOperatorFromStream_def rbind_Inr_iff new_op_def Let_def split: if_splits)
    next
      case False
      with assms o Some show ?thesis by (auto simp: createOperatorFromStream_def rbind_Inr_iff)
    qed
  qed
  with assms o operands_end [of items "[]" r0 ops0] show ?thesis
    by (simp add: createOperatorFromStream_def)
qed

fun parse_result :: "op_store \<Rightarrow> item list \<Rightarrow> parsed_op \<Rightarrow> bool" where
  "parse_result st items (Inl e) \<longleftrightarrow> True"
| "parse_result st items (Inr (None, r, ops, st')) \<longleftrightarrow> st' = st \<and> ends_with items ops"
| "parse_result st items (Inr (Some a, r, ops, st')) \<longleftrightarrow>
     ops = [] \<and> grows {} st st' \<and> op_parsed st items a r st'"

text \<open>
  A composite that is being read: its children \<open>ts\<close> so far, none of which is its end tag.
\<close>

definition open_list :: "op_store \<Rightarrow> nat \<Rightarrow> op_tree list \<Rightarrow> bool" where
  "open_list st a ts \<longleftrightarrow>
     stands st (OpTree a ts) \<and> linked st None (flat (OpTree a ts)) None \<and>
     distinct (flat (OpTree a ts)) \<and> (\<forall>t\<in>set ts. closed st t) \<and>
     (\<exists>b e. op_label st a = Some (UnknownCompositePdfOperator b e [])) \<and>
     set (flat (OpTree a ts)) \<subseteq> {..<free_addr st}"

definition open_op :: "op_store \<Rightarrow> nat \<Rightarrow> op_tree list \<Rightarrow> string \<Rightarrow> bool" where
  "open_op st a ts endtag \<longleftrightarrow>
     open_list st a ts \<and> (\<forall>t\<in>set ts. getOperatorName st (root_op t) \<noteq> endtag) \<and>
     (\<exists>b. op_label st a = Some (UnknownCompositePdfOperator b endtag []) \<and> getEndTag b = Inr endtag)"

definition children_parsed ::
    "op_store \<Rightarrow> item list \<Rightarrow> nat \<Rightarrow> op_tree list \<Rightarrow> item list \<Rightarrow> op_store \<Rightarrow> bool" where
  "children_parsed st items a ts r st' \<longleftrightarrow>
     (\<exists>us seg. set (flats us) \<subseteq> {free_addr st..<free_addr st'} \<and> built st' (OpTree a (ts @ us)) \<and>
       spelled st' (flats us) seg \<and> items = seg @ r) \<and>
     (\<forall>d\<in>set (flat (OpTree a ts)). op_label st' d = op_label st d)"

fun children_result ::
    "op_store \<Rightarrow> item list \<Rightarrow> nat \<Rightarrow> op_tree list \<Rightarrow> parsed_op \<Rightarrow> bool" where
  "children_result st items a ts (Inl e) \<longleftrightarrow> True"
| "children_result st items a ts (Inr (None, r, ops, st')) \<longleftrightarrow> False"
| "children_result st items a ts (Inr (Some a', r, ops, st')) \<longleftrightarrow>
     a' = a \<and> ops = [] \<and> grows (set (flat (OpTree a ts))) st st' \<and>
     children_parsed st items a ts r st'"

lemma grows_trans:
  "grows A st st1 \<Longrightarrow> grows B st1 st2 \<Longrightarrow> grows (A \<union> B) st st2"
  by (auto simp: grows_def)

lemma grows_cells:
  "grows A st st' \<Longrightarrow> X \<subseteq> {..<free_addr st} \<Longrightarrow> X \<inter> A = {} \<Longrightarrow> a \<in> X \<Longrightarrow> cells st' a = cells st a"
  by (auto simp: grows_def)

lemma new_op_leaf:
  assumes n: "new_op k st = (a, st')" and f: "fresh st" and k: "children_in k = []" "own_part k = k"
  shows "a = free_addr st" "free_addr st' = free_addr st + 1" "grows {} st st'" "op_label st' a = Some k"
    "stands st' (OpTree a [])" "linked st' None (flat (OpTree a [])) None"
proof -
  have a: "a = free_addr st" and fr: "free_addr st' = free_addr st + 1"
    and c: "cells st' = (cells st)(a \<mapsto>
      \<lparr>op_class = k, prev_link = None, next_link = None, contentstream = None\<rparr>)"
    using n by (auto simp: new_op_def)
  show "a = free_addr st" by (rule a)
  show "free_addr st' = free_addr st + 1" by (rule fr)
  show "grows {} st st'" unfolding grows_def fresh_def fr c
    using f by (simp add: fresh_def a)
  show "op_label st' a = Some k" unfolding op_label_def c by (simp add: k)
  show "stands st' (OpTree a [])" by (simp add: c getChildren_def k)
  show "linked st' None (flat (OpTree a [])) None" by (simp add: c)
qed

lemma fresh_class_parts: "fresh_class k \<Longrightarrow> children_in k = [] \<and> own_part k = k"
  by (cases k) (auto simp: fresh_class_def)

lemma class_of_label:
  assumes "op_label st a = Some k"
  shows "isCompositeOp st a = composite_class k"
    "isInlineImageOp st a = (case k of InlineImageCompositePdfOperator _ _ _ \<Rightarrow> True | _ \<Rightarrow> False)"
proof -
  from assms obtain p where p: "cells st a = Some p" "k = own_part (op_class p)"
    by (auto simp: op_label_def)
  from p(1) show "isCompositeOp st a = composite_class k"
    unfolding isCompositeOp_def p(2) by (cases "op_class p") simp_all
  from p(1) show "isInlineImageOp st a =
      (case k of InlineImageCompositePdfOperator _ _ _ \<Rightarrow> True | _ \<Rightarrow> False)"
    unfolding isInlineImageOp_def p(2) by (cases "op_class p") simp_all
qed

lemma child_added:
  assumes o: "open_list st a ts" and g: "grows {} st st1"
    and t: "set (flat t) \<subseteq> {free_addr st..<free_addr st1}" "built st1 t"
  shows "\<exists>st2. push_back a (root_op t) (Some (last (flat (OpTree a ts)))) st1 = Inr st2 \<and>
    op_label st2 = op_label st1 \<and> free_addr st2 = free_addr st1 \<and> open_list st2 a (ts @ [t]) \<and>
    grows (set (flat (OpTree a ts))) st st2 \<and>
    (\<forall>d\<in>set (flat (OpTree a ts)). op_label st2 d = op_label st d)"
proof -
  let ?u = "OpTree a ts"
  from o obtain b endtag where u: "stands st ?u" "linked st None (flat ?u) None" "distinct (flat ?u)"
      "\<forall>v\<in>set ts. closed st v" "set (flat ?u) \<subseteq> {..<free_addr st}"
    and l: "op_label st a = Some (UnknownCompositePdfOperator b endtag [])"
    unfolding open_list_def by blast
  have keep: "cells st1 d = cells st d" if "d \<in> set (flat ?u)" for d
    using g u(5) that unfolding grows_def by blast
  have fr: "free_addr st \<le> free_addr st1" using g by (simp add: grows_def)
  have u1: "stands st1 ?u" using u(1) stands_frame [of ?u st1 st] keep by blast
  have l1: "linked st1 None (flat ?u) None"
    using u(2) linked_keep [of "flat ?u" st1 st] keep by blast
  have lab: "op_label st1 d = op_label st d" if "d \<in> set (flat ?u)" for d
    using keep [OF that] by (rule cells_label)
  have dis: "distinct (flat ?u @ flat t)"
  proof -
    have "set (flat ?u) \<inter> set (flat t) = {}"
      using u(5) t(1) by (meson atLeastLessThan_iff disjoint_iff lessThan_iff linorder_not_less subsetD)
    moreover have "distinct (flat t)" using t(2) by (simp add: built_def)
    ultimately show ?thesis unfolding distinct_append using u(3) by blast
  qed
  have la: "op_label st1 a = Some (UnknownCompositePdfOperator b endtag [])"
    using lab [of a] l by simp
  have tb: "stands st1 t" "linked st1 None (flat t) None" "closed st1 t"
    using t(2) by (simp_all add: built_def)
  from push_back_ok [OF u1 l1 tb(1,2) dis la] obtain st2 where
    s: "push_back a (root_op t) (Some (last (flat ?u))) st1 = Inr st2"
      "stands st2 (OpTree a (ts @ [t]))" "linked st2 None (flat (OpTree a (ts @ [t]))) None"
      "op_label st2 = op_label st1" "free_addr st2 = free_addr st1"
      "\<forall>c. c \<notin> set (flat ?u) \<longrightarrow> c \<notin> set (flat t) \<longrightarrow> cells st2 c = cells st1 c"
    by blast
  have cl: "closed st2 v" if "v \<in> set (ts @ [t])" for v
  proof (cases "v \<in> set ts")
    case True
    have "op_label st2 d = op_label st d" if "d \<in> set (flat v)" for d
      using lab [of d] that True s(4) by auto
    then show ?thesis using u(4) True closed_cong [of v st2 st] by blast
  next
    case False
    with that have "v = t" by simp
    then show ?thesis using tb(3) closed_cong [of t st2 st1] s(4) by simp
  qed
  have gr: "grows (set (flat ?u)) st st2"
  proof -
    have "fresh st1" using g by (simp add: grows_def)
    then have "fresh st2" using s(4,5) by (metis fresh_def op_label_None)
    moreover have "cells st2 c = cells st c" if "c < free_addr st" "c \<notin> set (flat ?u)" for c
    proof -
      have "c \<notin> set (flat t)" using t(1) that(1) by (meson atLeastLessThan_iff leD subsetD)
      then have "cells st2 c = cells st1 c" using s(6) [rule_format, OF that(2)] by simp
      also have "\<dots> = cells st c"
        by (rule grows_cells [OF g, of "{..<free_addr st}"]) (use that(1) in simp_all)
      finally show ?thesis .
    qed
    ultimately show ?thesis unfolding grows_def using fr s(5) by simp
  qed
  have sub: "set (flat (OpTree a (ts @ [t]))) \<subseteq> {..<free_addr st2}"
  proof -
    have "set (flat ?u) \<subseteq> {..<free_addr st1}" using u(5) fr by (meson lessThan_iff order_less_le_trans subsetD subsetI)
    moreover have "set (flat t) \<subseteq> {..<free_addr st1}"
      using t(1) by (meson atLeastLessThan_iff lessThan_iff subsetD subsetI)
    moreover have "set (flat (OpTree a (ts @ [t]))) = set (flat ?u) \<union> set (flat t)" by simp
    ultimately show ?thesis unfolding s(5) by (simp only: Un_subset_iff)
  qed
  have "\<forall>d\<in>set (flat ?u). op_label st2 d = op_label st d" using lab s(4) by simp
  moreover have "distinct (flat (OpTree a (ts @ [t])))" using dis by simp
  moreover have "\<exists>b e. op_label st2 a = Some (UnknownCompositePdfOperator b e [])"
    using la s(4) by simp
  ultimately show ?thesis using s(1,2,3,4,5) cl gr sub unfolding open_list_def by blast
qed

section \<open>Parsing ends and builds\<close>

lemma range_mono: "X \<subseteq> {i..<j} \<Longrightarrow> i' \<le> i \<Longrightarrow> j \<le> j' \<Longrightarrow> X \<subseteq> {i'..<(j' :: nat)}"
  by (erule subset_trans) auto

lemma name_by_label:
  "op_label st' a = op_label st a \<Longrightarrow> getOperatorName st' a = getOperatorName st a"
  by (simp add: name_of_label)

lemma open_names_kept:
  assumes "open_op st a ts e" "\<forall>d\<in>set (flat (OpTree a ts)). op_label st' d = op_label st d" "v \<in> set ts"
  shows "getOperatorName st' (root_op v) \<noteq> e"
proof -
  have "root_op v \<in> set (flat (OpTree a ts))" using roots_in_flats [OF assms(3)] by simp
  with assms(2) have "getOperatorName st' (root_op v) = getOperatorName st (root_op v)"
    by (intro name_by_label) blast
  with assms(1,3) show ?thesis by (simp add: open_op_def)
qed

lemma grows_children:
  assumes g: "grows (set (flat (OpTree a ts))) st st2" and t: "set (flat t) \<subseteq> {free_addr st..}"
    and h: "grows (set (flat (OpTree a (ts @ [t])))) st2 st3"
  shows "grows (set (flat (OpTree a ts))) st st3"
proof -
  have f: "free_addr st \<le> free_addr st2" "free_addr st2 \<le> free_addr st3" "fresh st3"
    using g h by (simp_all add: grows_def)
  have "cells st3 c = cells st c" if c: "c < free_addr st" "c \<notin> set (flat (OpTree a ts))" for c
  proof -
    have "c \<notin> set (flat t)" using t c(1) by (meson atLeast_iff leD subsetD)
    with c(2) have "c \<notin> set (flat (OpTree a (ts @ [t])))" by simp
    moreover have "c < free_addr st2" using c(1) f(1) by simp
    ultimately have "cells st3 c = cells st2 c" using h unfolding grows_def by simp
    also have "\<dots> = cells st c" using g c unfolding grows_def by simp
    finally show ?thesis .
  qed
  with f show ?thesis unfolding grows_def by simp
qed

lemma parse_children_step:
  assumes P: "\<And>st items. fresh st \<Longrightarrow> 2 * length items + 1 \<le> n \<Longrightarrow>
      \<exists>res. parseOp n items [] st = Some res \<and> parse_result st items res"
    and C: "\<And>st items a ts e. fresh st \<Longrightarrow> 2 * length items + 2 \<le> n \<Longrightarrow> open_op st a ts e \<Longrightarrow>
      \<exists>res. parse_children n a (last (flat (OpTree a ts))) e items [] st = Some res \<and>
        children_result st items a ts res"
    and f: "fresh st" and n: "2 * length items + 2 \<le> Suc n" and o: "open_op st a ts e"
  shows "\<exists>res. parse_children (Suc n) a (last (flat (OpTree a ts))) e items [] st = Some res \<and>
        children_result st items a ts res"
proof -
  let ?l = "last (flat (OpTree a ts))"
  obtain res where p: "parseOp n items [] st = Some res" "parse_result st items res"
    using P [OF f, of items] n by auto
  consider (error) x where "res = Inl x" | (eof) r ops st1 where "res = Inr (None, r, ops, st1)"
    | (oper) w r ops st1 where "res = Inr (Some w, r, ops, st1)"
    by (metis not_None_eq obj_sumE prod.exhaust)
  then show ?thesis
  proof cases
    case (oper w r ops st1)
    with p(2) obtain t seg where g: "ops = []" "grows {} st st1" and t: "root_op t = w"
        "set (flat t) \<subseteq> {free_addr st..<free_addr st1}" "built st1 t" "spelled st1 (flat t) seg"
        "seg \<noteq> []" "items = seg @ r"
      by (auto simp: op_parsed_def)
    from o have "open_list st a ts" by (simp add: open_op_def)
    from child_added [OF this g(2) t(2,3)] obtain st2 where
      b: "push_back a w (Some ?l) st1 = Inr st2" "op_label st2 = op_label st1"
        "free_addr st2 = free_addr st1" "open_list st2 a (ts @ [t])"
        "grows (set (flat (OpTree a ts))) st st2"
        "\<forall>d\<in>set (flat (OpTree a ts)). op_label st2 d = op_label st d"
      unfolding t(1) by blast
    have tree: "stands st2 (OpTree a (ts @ [t]))" "linked st2 None (flat (OpTree a (ts @ [t]))) None"
        "distinct (flat (OpTree a (ts @ [t])))" "\<forall>v\<in>set (ts @ [t]). closed st2 v"
      using b(4) unfolding open_list_def by blast+
    from o obtain nm where la: "op_label st a = Some (UnknownCompositePdfOperator nm e [])"
      "getEndTag nm = Inr e" by (auto simp: open_op_def)
    have la2: "op_label st2 a = Some (UnknownCompositePdfOperator nm e [])"
      using b(6) la(1) by simp
    have names: "getOperatorName st2 (root_op v) \<noteq> e" if "v \<in> set ts" for v
      by (rule open_names_kept [OF o b(6) that])
    have sp: "spelled st2 (flat t) seg" using t(4) by (simp add: spelled_def b(2))
    show ?thesis
    proof (cases "getOperatorName st2 w = e")
      case True
      have "parse_children (Suc n) a ?l e items [] st = Some (Inr (Some a, r, [], st2))"
        by (simp add: p(1) oper g(1) b(1) True del: flat.simps)
      moreover have "closed st2 (OpTree a (ts @ [t]))"
        using tree(4) la la2 names True t(1) by simp
      then have "built st2 (OpTree a (ts @ [t]))"
        unfolding built_def using tree(1-3) by blast
      then have "children_parsed st items a ts r st2"
        unfolding children_parsed_def using t(2,6) b(3,6) sp
        by (intro conjI exI [of _ "[t]"] exI [of _ seg]) simp_all
      ultimately show ?thesis using b(5) by simp
    next
      case False
      have st2t: "stands st2 t" using tree(1) by simp
      have la': "getLastOperator st2 w = Some (last (flat (OpTree a (ts @ [t]))))"
        using getLastOperator_stands [OF st2t] t(1) by simp
      have "open_op st2 a (ts @ [t]) e"
        unfolding open_op_def using b(4) la(2) la2 names False t(1) by auto
      moreover have "fresh st2" using b(5) by (simp add: grows_def)
      moreover have "2 * length r + 2 \<le> n"
        using n t(5,6) by (cases seg) auto
      ultimately obtain res' where c: "parse_children n a (last (flat (OpTree a (ts @ [t])))) e r [] st2 = Some res'"
          "children_result st2 r a (ts @ [t]) res'" using C by blast
      have e: "parse_children (Suc n) a ?l e items [] st = Some res'"
        by (simp add: p(1) oper g(1) b(1) False la' c(1) del: flat.simps)
      consider x where "res' = Inl x" | r' ops st3 where "res' = Inr (None, r', ops, st3)"
        | w' r' ops st3 where "res' = Inr (Some w', r', ops, st3)"
        by (metis not_None_eq obj_sumE prod.exhaust)
      then have "children_result st items a ts res'"
      proof cases
        case (3 w' r' ops st3)
        with c(2) obtain us seg' where
          k: "w' = a" "ops = []" "grows (set (flat (OpTree a (ts @ [t])))) st2 st3"
            "set (flats us) \<subseteq> {free_addr st2..<free_addr st3}" "built st3 (OpTree a ((ts @ [t]) @ us))"
            "spelled st3 (flats us) seg'" "r = seg' @ r'"
            "\<forall>d\<in>set (flat (OpTree a (ts @ [t]))). op_label st3 d = op_label st2 d"
          by (auto simp: children_parsed_def)
        have fr: "free_addr st \<le> free_addr st2" "free_addr st2 \<le> free_addr st3"
          using b(5) k(3) by (simp_all add: grows_def)
        have lt: "\<forall>d\<in>set (flat t). op_label st3 d = op_label st2 d" using k(8) by simp
        have "spelled st3 (flat t) seg" using spelled_cong [of "flat t" st3 st2 seg] lt sp by blast
        then have "spelled st3 (flats (t # us)) (seg @ seg')"
          using k(6) spelled_append by simp
        moreover have "set (flats (t # us)) \<subseteq> {free_addr st..<free_addr st3}"
        proof -
          have "set (flat t) \<subseteq> {free_addr st..<free_addr st3}"
            by (rule range_mono [OF t(2)]) (use fr(2) b(3) in simp_all)
          moreover have "set (flats us) \<subseteq> {free_addr st..<free_addr st3}"
            by (rule range_mono [OF k(4)]) (use fr(1) in simp_all)
          ultimately show ?thesis by simp
        qed
        moreover have "built st3 (OpTree a (ts @ t # us))" using k(5) by simp
        moreover have "op_label st3 d = op_label st d" if "d \<in> set (flat (OpTree a ts))" for d
        proof -
          have "d \<in> set (flat (OpTree a (ts @ [t])))" using that by auto
          with k(8) b(6) that show ?thesis by (simp only:)
        qed
        ultimately have "children_parsed st items a ts r' st3"
          unfolding children_parsed_def using t(6) k(7)
          by (intro conjI exI [of _ "t # us"] exI [of _ "seg @ seg'"]) simp_all
        moreover have "set (flat t) \<subseteq> {free_addr st..}"
          by (rule subset_trans [OF t(2)]) auto
        from grows_children [OF b(5) this k(3)] have "grows (set (flat (OpTree a ts))) st st3" .
        ultimately show ?thesis using 3 k(1,2) by simp
      qed (use c(2) in simp_all)
      with e show ?thesis by blast
    qed
  qed (use p in simp_all)
qed

lemma result_cases:
  fixes res :: parsed_op
  obtains x where "res = Inl x" | r ops st1 where "res = Inr (None, r, ops, st1)"
    | w r ops st1 where "res = Inr (Some w, r, ops, st1)"
  by (metis not_None_eq obj_sumE prod.exhaust)

lemma parseOp_step:
  assumes C: "\<And>st items a ts e. fresh st \<Longrightarrow> 2 * length items + 2 \<le> n \<Longrightarrow> open_op st a ts e \<Longrightarrow>
      \<exists>res. parse_children n a (last (flat (OpTree a ts))) e items [] st = Some res \<and>
        children_result st items a ts res"
    and f: "fresh st" and n: "2 * length items + 1 \<le> Suc n"
  shows "\<exists>res. parseOp (Suc n) items [] st = Some res \<and> parse_result st items res"
proof (cases "createOperatorFromStream items [] st" rule: result_cases)
  case (2 r ops st1)
  with no_operator_left [OF 2] show ?thesis by simp
next
  case (3 w r ops st1)
  from createOperatorFromStream_spec [OF 3] obtain k seg where
    k: "w = free_addr st" "new_op k st = (w, st1)" "fresh_class k" "ops = []" "spells k seg"
      "seg \<noteq> []" "items = seg @ r" by auto
  note cl = fresh_class_parts [OF k(3)]
  note leaf = new_op_leaf [OF k(2) f conjunct1 [OF cl] conjunct2 [OF cl]]
  have sub: "set (flat (OpTree w [])) \<subseteq> {free_addr st..<free_addr st1}" using leaf(1,2) by simp
  have sp: "spelled st1 [w] seg" using leaf(4) k(5) unfolding spelled_def
    by (intro exI [of _ "[seg]"]) simp
  show ?thesis
  proof (cases "\<exists>b e cs. k = UnknownCompositePdfOperator b e cs")
    case False
    then have "\<not> (isCompositeOp st1 w \<and> \<not> isInlineImageOp st1 w)"
      unfolding class_of_label(1) [OF leaf(4)] class_of_label(2) [OF leaf(4)] by (cases k) simp_all
    with 3 k(4) have "parseOp (Suc n) items [] st = Some (Inr (Some w, r, [], st1))" by auto
    moreover have "built st1 (OpTree w [])"
      using leaf(4-6) False by (cases k) (simp_all add: built_def)
    then have "op_parsed st items w r st1" using sub sp k(6,7)
      unfolding op_parsed_def by (intro exI [of _ "OpTree w []"] exI [of _ seg]) simp
    ultimately show ?thesis using leaf(3) by simp
  next
    case True
    then obtain b e where ke: "k = UnknownCompositePdfOperator b e []" "getEndTag b = Inr e"
      using k(3) by (auto simp: fresh_class_def)
    have comp: "isCompositeOp st1 w" "\<not> isInlineImageOp st1 w"
      unfolding class_of_label(1) [OF leaf(4)] class_of_label(2) [OF leaf(4)] by (simp_all add: ke)
    have nm: "getOperatorName st1 w = b" using leaf(4) ke by (simp add: name_of_label)
    have "open_op st1 w [] e"
      unfolding open_op_def open_list_def using leaf ke by simp
    moreover have "fresh st1" using leaf(3) by (simp add: grows_def)
    moreover have "2 * length r + 2 \<le> n" using n k(6,7) by (cases seg) auto
    ultimately obtain res where
      c: "parse_children n w w e r [] st1 = Some res" "children_result st1 r w [] res"
      using C [of st1 r w "[]" e] by auto
    have e: "parseOp (Suc n) items [] st = Some res"
      using 3 comp nm ke c(1) k(4) by simp
    show ?thesis
    proof (cases res rule: result_cases)
      case (3 w' r' ops' st2)
      with c(2) obtain us seg' where
        u: "w' = w" "ops' = []" "grows {w} st1 st2" "set (flats us) \<subseteq> {free_addr st1..<free_addr st2}"
          "built st2 (OpTree w us)" "spelled st2 (flats us) seg'" "r = seg' @ r'"
          "op_label st2 w = op_label st1 w" by (auto simp: children_parsed_def)
      have fr: "free_addr st \<le> free_addr st1" "free_addr st1 \<le> free_addr st2"
        using leaf(3) u(3) by (simp_all add: grows_def)
      have "grows {} st st2"
        using u(3) leaf(1,2,3) unfolding grows_def by simp
      moreover have "spelled st2 (flat (OpTree w us)) (seg @ seg')"
        using spelled_append [of st2 "[w]" seg "flats us" seg'] sp u(6,8) spelled_cong [of "[w]" st2 st1]
        by simp
      moreover have "set (flat (OpTree w us)) \<subseteq> {free_addr st..<free_addr st2}"
        using range_mono [OF u(4) fr(1) order_refl] range_mono [OF sub order_refl fr(2)] by simp
      ultimately have "op_parsed st items w r' st2" "grows {} st st2"
        unfolding op_parsed_def using u(5,7) k(6,7)
        by (intro exI [of _ "OpTree w us"] exI [of _ "seg @ seg'"], simp_all)
      with e 3 u(1,2) show ?thesis by simp
    qed (use e c(2) in simp_all)
  qed
qed simp

lemma parse_ends:
  "(fresh st \<longrightarrow> 2 * length items + 1 \<le> n \<longrightarrow>
      (\<exists>res. parseOp n items [] st = Some res \<and> parse_result st items res)) \<and>
   (fresh st \<longrightarrow> 2 * length items + 2 \<le> n \<longrightarrow> open_op st a ts e \<longrightarrow>
      (\<exists>res. parse_children n a (last (flat (OpTree a ts))) e items [] st = Some res \<and>
        children_result st items a ts res))"
proof (induction n arbitrary: st items a ts e)
  case (Suc n)
  have P: "\<exists>res. parseOp n items [] st = Some res \<and> parse_result st items res"
    if "fresh st" "2 * length items + 1 \<le> n" for st items
    using Suc.IH [of st items] that by blast
  have C: "\<exists>res. parse_children n a (last (flat (OpTree a ts))) e items [] st = Some res \<and>
      children_result st items a ts res"
    if "fresh st" "2 * length items + 2 \<le> n" "open_op st a ts e" for st items a ts e
    using Suc.IH [of st items a ts e] that by blast
  show ?case
    using parseOp_step [OF C, of st items] parse_children_step [OF P C, of st items a ts e] by blast
qed simp

text \<open>The loop stops behind the last operator or where one cannot be read.\<close>

definition breaks_at :: "item list \<Rightarrow> bool" where
  "breaks_at items \<longleftrightarrow> (\<exists>n st e. parseOp n items [] st = Some (Inl e) \<and> is_CObjectException e)"

fun loop_result ::
    "reader_view option \<Rightarrow> op_store \<Rightarrow> item list \<Rightarrow> nat \<Rightarrow> op_tree list \<Rightarrow> (xobj list \<times> op_store) result \<Rightarrow> bool"
  where
  "loop_result first st items a ts (Inl e) \<longleftrightarrow> \<not> is_CObjectException e"
| "loop_result first st items a ts (Inr (left_over, st')) \<longleftrightarrow>
     (\<exists>us seg rest. open_list st' a (ts @ us) \<and> spelled st' (flats us) seg \<and> items = seg @ rest \<and>
       set (flats us) \<subseteq> {free_addr st..} \<and>
       (first = None \<longrightarrow> ends_with rest left_over \<or> left_over = [] \<and> breaks_at rest)) \<and>
     grows (set (flat (OpTree a ts))) st st' \<and>
     (\<forall>d\<in>set (flat (OpTree a ts)). op_label st' d = op_label st d)"

lemma loop_resultI:
  "open_list st' a (ts @ us) \<Longrightarrow> spelled st' (flats us) seg \<Longrightarrow> items = seg @ rest \<Longrightarrow>
     set (flats us) \<subseteq> {free_addr st..} \<Longrightarrow>
     first = None \<longrightarrow> ends_with rest left_over \<or> left_over = [] \<and> breaks_at rest \<Longrightarrow>
     grows (set (flat (OpTree a ts))) st st' \<Longrightarrow>
     (\<And>d. d \<in> set (flat (OpTree a ts)) \<Longrightarrow> op_label st' d = op_label st d) \<Longrightarrow>
     loop_result first st items a ts (Inr (left_over, st'))"
  unfolding loop_result.simps by blast

lemma loop_stops:
  assumes "open_list st a ts" "fresh st"
    "first = None \<longrightarrow> ends_with items left_over \<or> left_over = [] \<and> breaks_at items"
  shows "loop_result first st items a ts (Inr (left_over, st))"
proof -
  have "grows (set (flat (OpTree a ts))) st st" using assms(2) by (simp add: grows_def)
  moreover have "open_list st a (ts @ []) \<and> spelled st (flats []) [] \<and> items = [] @ items \<and>
      set (flats []) \<subseteq> {free_addr st..}" using assms(1) by simp
  ultimately show ?thesis using assms(3) unfolding loop_result.simps by blast
qed

lemma parse_loop_ends:
  assumes "fresh st" "2 * length items + 2 \<le> n" "open_list st a ts"
  shows "\<exists>res. parse_loop first n a (last (flat (OpTree a ts))) our items [] st = Some res \<and>
    loop_result first st items a ts res"
  using assms
proof (induction n arbitrary: st items ts our)
  case (Suc n)
  let ?l = "last (flat (OpTree a ts))"
  have "2 * length items + 1 \<le> n" using Suc.prems(2) by simp
  with parse_ends [of st items n] Suc.prems(1) obtain pres where
    p: "parseOp n items [] st = Some pres" "parse_result st items pres" by blast
  show ?case
  proof (cases pres rule: result_cases)
    case (1 x)
    show ?thesis
    proof (cases "is_CObjectException x")
      case True
      with p(1) 1 have "breaks_at items" unfolding breaks_at_def by blast
      with loop_stops [OF Suc.prems(3,1), of first items "[]"] show ?thesis
        by (intro exI [of _ "Inr ([], st)"]) (simp add: p(1) 1 True)
    next
      case False
      then show ?thesis by (simp add: p(1) 1)
    qed
  next
    case (2 r ops st1)
    with p(2) have "st1 = st" "ends_with items ops" by auto
    with loop_stops [OF Suc.prems(3,1), of first items ops] show ?thesis
      by (intro exI [of _ "Inr (ops, st)"]) (simp add: p(1) 2)
  next
    case (3 w r ops st1)
    with p(2) obtain t seg where g: "ops = []" "grows {} st st1" and t: "root_op t = w"
        "set (flat t) \<subseteq> {free_addr st..<free_addr st1}" "built st1 t" "spelled st1 (flat t) seg"
        "seg \<noteq> []" "items = seg @ r"
      by (auto simp: op_parsed_def)
    from child_added [OF Suc.prems(3) g(2) t(2,3)] obtain st2 where
      b: "push_back a w (Some ?l) st1 = Inr st2" "op_label st2 = op_label st1"
        "free_addr st2 = free_addr st1" "open_list st2 a (ts @ [t])"
        "grows (set (flat (OpTree a ts))) st st2"
        "\<forall>d\<in>set (flat (OpTree a ts)). op_label st2 d = op_label st d"
      unfolding t(1) by blast
    have st2t: "stands st2 t" using b(4) by (simp add: open_list_def)
    have la: "getLastOperator st2 w = Some (last (flat (OpTree a (ts @ [t]))))"
      using getLastOperator_stands [OF st2t] t(1) by simp
    have sp: "spelled st2 (flat t) seg" using t(4) by (simp add: spelled_def b(2))
    have tr: "set (flat t) \<subseteq> {free_addr st..}" by (rule subset_trans [OF t(2)]) auto
    define stop where "stop \<longleftrightarrow> (case first of None \<Rightarrow> False
      | Some v \<Rightarrow> eofOfActualStream v r \<and> ((our \<or> is_change_tag st1 w) \<or> lookXpdfObject v r = XName ''PdfEdit''))"
    have step: "parse_loop first (Suc n) a ?l our items [] st =
        (if stop then Some (Inr ([], st2))
         else parse_loop first n a (last (flat (OpTree a (ts @ [t])))) (our \<or> is_change_tag st1 w) r [] st2)"
      by (simp add: p(1) 3 g(1) b(1) la stop_def Let_def del: flat.simps)
    show ?thesis
    proof (cases stop)
      case True
      then have "first \<noteq> None" by (cases first) (simp_all add: stop_def)
      then have "loop_result first st items a ts (Inr ([], st2))"
        using b(4,5,6) sp t(6) tr
        by (intro loop_resultI [of _ _ _ "[t]" seg _ r]) auto
      with True step show ?thesis by auto
    next
      case False
      have "fresh st2" using b(5) by (simp add: grows_def)
      moreover have "2 * length r + 2 \<le> n" using Suc.prems(2) t(5,6) by (cases seg) auto
      ultimately obtain res where c: "parse_loop first n a (last (flat (OpTree a (ts @ [t]))))
          (our \<or> is_change_tag st1 w) r [] st2 = Some res" "loop_result first st2 r a (ts @ [t]) res"
        using Suc.IH b(4) by blast
      have "loop_result first st items a ts res"
      proof (cases res)
        case (Inr res')
        obtain left_over st3 where res': "res' = (left_over, st3)" by force
        from c(2) Inr res' obtain us seg' rest where
          k: "open_list st3 a ((ts @ [t]) @ us)" "spelled st3 (flats us) seg'" "r = seg' @ rest"
            "set (flats us) \<subseteq> {free_addr st2..}"
            "first = None \<longrightarrow> ends_with rest left_over \<or> left_over = [] \<and> breaks_at rest"
            "grows (set (flat (OpTree a (ts @ [t])))) st2 st3"
            "\<forall>d\<in>set (flat (OpTree a (ts @ [t]))). op_label st3 d = op_label st2 d" by auto
        have "free_addr st \<le> free_addr st2" using b(5) by (simp add: grows_def)
        then have ur: "set (flats us) \<subseteq> {free_addr st..}"
          using k(4) by (metis atLeast_subset_iff subset_trans)
        have "\<forall>d\<in>set (flat t). op_label st3 d = op_label st2 d" using k(7) by simp
        then have "spelled st3 (flat t) seg" using spelled_cong [of "flat t" st3 st2 seg] sp by blast
        then have "spelled st3 (flats (t # us)) (seg @ seg')"
          using k(2) spelled_append by simp
        moreover have "op_label st3 d = op_label st d" if "d \<in> set (flat (OpTree a ts))" for d
        proof -
          have "d \<in> set (flat (OpTree a (ts @ [t])))" using that by auto
          with k(7) b(6) that show ?thesis by (simp only:)
        qed
        ultimately show ?thesis
          using k(1,3,5) t(6) tr ur grows_children [OF b(5) tr k(6)] unfolding Inr res'
          by (intro loop_resultI [of _ _ _ "t # us" "seg @ seg'" _ rest]) simp_all
      qed (use c(2) in simp)
      with False step c(1) show ?thesis by auto
    qed
  qed
qed simp

section \<open>The list that is left\<close>

lemma first_operator:
  assumes "open_list st a us"
  shows "getChildren st a = map root_op us"
    "us \<noteq> [] \<Longrightarrow> next_of st a = Some (root_op (hd us))"
proof -
  from assms show "getChildren st a = map root_op us" by (simp add: open_list_def)
  assume "us \<noteq> []"
  then obtain v vs where us: "us = v # vs" by (cases us) auto
  obtain ws where v: "flat v = root_op v # ws" by (cases v) simp
  from assms have "linked st None ([] @ a # flats us) None" by (simp add: open_list_def)
  from linked_next_of [OF this] show "next_of st a = Some (root_op (hd us))" by (simp add: us v)
qed

lemma without_top:
  assumes o: "open_list st a us" and
    st3: "st3 = st2\<lparr>cells := (cells st2)(a := None)\<rparr>" and
    st2: "st2 = (case next_of st a of Some b \<Rightarrow> if getChildren st a = [] then st else setPrev b None st
      | None \<Rightarrow> st)"
  shows "content_ok st3 (getChildren st a) us"
    "\<And>d. d \<in> set (flats us) \<Longrightarrow> op_label st3 d = op_label st d"
    "\<And>d. d \<noteq> a \<Longrightarrow> d \<notin> set (flats us) \<Longrightarrow> cells st3 d = cells st d"
proof -
  have nin: "a \<notin> set (flats us)" and dis: "distinct (flats us)" using o by (simp_all add: open_list_def)
  have keep: "cells st3 d = cells st2 d" if "d \<noteq> a" for d using that by (simp add: st3)
  have keep': "cells st3 d = cells st2 d" if "d \<in> set (flats us)" for d
    using keep [of d] that nin by blast
  have lab2: "op_label st2 = op_label st" by (simp add: st2 split: option.splits)
  show "op_label st3 d = op_label st d" if "d \<in> set (flats us)" for d
    using cells_label [OF keep' [OF that]] lab2 by simp
  have l: "linked st2 None (flats us) None"
  proof (cases us)
    case (Cons v vs)
    obtain ws where v: "flat v = root_op v # ws" by (cases v) simp
    from first_operator [OF o] Cons have "st2 = setPrev (root_op v) None st" by (simp add: st2)
    moreover have "linked st (Some a) (root_op v # ws @ flats vs) None"
      using o Cons v by (simp add: open_list_def)
    then have "linked (setPrev (root_op v) None st) None (root_op v # ws @ flats vs) None"
      by (rule linked_setPrev_first) (use dis Cons v in auto)
    ultimately show ?thesis using Cons v by simp
  qed simp
  have "stands st3 v" if "v \<in> set us" for v
  proof -
    have "stands st v" using o that by (simp add: open_list_def)
    then have "stands st2 v" by (simp add: st2 split: option.splits)
    moreover have "cells st3 d = cells st2 d" if "d \<in> set (flat v)" for d
      using keep' \<open>v \<in> set us\<close> that by auto
    ultimately show ?thesis using stands_frame [of v st3 st2] by blast
  qed
  moreover have "linked st3 None (flats us) None"
    using l linked_keep [of "flats us" st3 st2] keep' by blast
  ultimately show "content_ok st3 (getChildren st a) us"
    using first_operator(1) [OF o] dis by (simp add: content_ok_def)
  show "cells st3 d = cells st d" if "d \<noteq> a" "d \<notin> set (flats us)" for d
  proof (cases us)
    case Nil
    with keep [OF that(1)] first_operator(1) [OF o] show ?thesis by (simp add: st2 split: option.splits)
  next
    case (Cons v vs)
    with first_operator [OF o] have "st2 = setPrev (root_op v) None st" by (simp add: st2)
    moreover have "d \<noteq> root_op v" using that(2) Cons by auto
    ultimately show ?thesis using keep [OF that(1)] by simp
  qed
qed

definition parsed_content ::
    "reader_view option \<Rightarrow> nat \<Rightarrow> item list \<Rightarrow> op_store \<Rightarrow> nat list \<Rightarrow> op_store \<Rightarrow> xobj list \<Rightarrow> bool" where
  "parsed_content first cs items st operators st' left_over \<longleftrightarrow>
     (\<exists>ts seg rest. content_ok st' operators ts \<and> (\<forall>t\<in>set ts. closed st' t) \<and>
        (\<forall>a\<in>set (flats ts). free_addr st \<le> a \<and> owner st' a = Some cs) \<and>
        spelled st' (flats ts) seg \<and> items = seg @ rest \<and>
        (first = None \<longrightarrow> ends_with rest left_over \<or> left_over = [] \<and> breaks_at rest))"

lemma content_after_refs:
  assumes c: "content_ok st operators ts" and o: "operators = a # as"
  shows "\<exists>st'. opsSetPdfRefCs cs a st = Some st' \<and> content_ok st' operators ts \<and>
    op_label st' = op_label st \<and> (\<forall>d\<in>set (flats ts). owner st' d = Some cs)"
proof -
  from c o obtain v vs where ts: "ts = v # vs" "root_op v = a" by (cases ts) (auto simp: content_ok_def)
  obtain ws where v: "flat v = a # ws" using ts(2) by (cases v) simp
  have "linked st None (a # (ws @ flats vs)) None" using c ts v by (simp add: content_ok_def)
  from opsSetPdfRefCs_ok [OF this, of cs] obtain st' where
    s: "opsSetPdfRefCs cs a st = Some st'" "same_shape st st'" "links_at st' = links_at st"
      "\<forall>b. owner st' b = (if b \<in> set (a # ws @ flats vs) then Some cs else owner st b)" by blast
  have "linked st' None (flats ts) None"
    using c linked_frame [of "flats ts" st' st] s(3) by (simp add: content_ok_def)
  then have "content_ok st' operators ts"
    using c same_shape_stands [OF s(2)] by (simp add: content_ok_def)
  with s show ?thesis by (intro exI [of _ st']) (simp add: same_shape_def ts v)
qed

lemma top_operator:
  assumes f: "fresh st" and n: "new_op (UnknownCompositePdfOperator [] [] []) st = (a, st0)"
  shows "open_list st0 a []" "fresh st0" "free_addr st0 = free_addr st + 1"
proof -
  have "children_in (UnknownCompositePdfOperator [] [] []) = []"
    "own_part (UnknownCompositePdfOperator [] [] []) = UnknownCompositePdfOperator [] [] []" by simp_all
  note leaf = new_op_leaf [OF n f this]
  show "open_list st0 a []" using leaf by (simp add: open_list_def)
  show "fresh st0" using leaf(3) by (simp add: grows_def)
  show "free_addr st0 = free_addr st + 1" by (rule leaf(2))
qed

lemma parse_from_loop:
  assumes n: "new_op (UnknownCompositePdfOperator [] [] []) st = (a, st0)"
    and l: "parse_loop first (parse_fuel items) a a False items [] st0 = Some (Inr (left_over, st1))"
    and u: "open_list st1 a us"
  shows "\<exists>st4. parse first cs items st = Some (Inr (map root_op us, st4, left_over)) \<and>
    content_ok st4 (map root_op us) us \<and>
    (\<forall>d\<in>set (flats us). op_label st4 d = op_label st1 d \<and> owner st4 d = Some cs)"
proof -
  define st2 where "st2 = (case next_of st1 a of Some b \<Rightarrow>
    if getChildren st1 a = [] then st1 else setPrev b None st1 | None \<Rightarrow> st1)"
  define st3 where "st3 = st2\<lparr>cells := (cells st2)(a := None)\<rparr>"
  note top = without_top [OF u st3_def st2_def]
  note ch = first_operator(1) [OF u]
  have e: "parse first cs items st = (case getChildren st1 a of
      [] \<Rightarrow> Some (Inr ([], st3, left_over))
    | b # _ \<Rightarrow> map_option (\<lambda>st4. Inr (getChildren st1 a, st4, left_over)) (opsSetPdfRefCs cs b st3))"
    unfolding parse_def n Let_def prod.case l option.case sum.case
      st2_def [symmetric] st3_def [symmetric] by (simp split: list.split)
  show ?thesis
  proof (cases "getChildren st1 a")
    case Nil
    with ch have "us = []" by simp
    with e top(1) show ?thesis by (simp add: Nil)
  next
    case (Cons b bs)
    from content_after_refs [OF top(1) Cons, of cs] obtain st4 where
      s: "opsSetPdfRefCs cs b st3 = Some st4" "content_ok st4 (getChildren st1 a) us"
        "op_label st4 = op_label st3" "\<forall>d\<in>set (flats us). owner st4 d = Some cs" by blast
    have "parse first cs items st = Some (Inr (getChildren st1 a, st4, left_over))"
      using e s(1) by (simp add: Cons)
    with s(2-4) top(2) show ?thesis unfolding ch by (intro exI [of _ st4]) simp
  qed
qed

lemma parse_spec:
  assumes f: "fresh st"
  shows "\<exists>res. parse first cs items st = Some res \<and>
    (case res of
       Inl e \<Rightarrow> \<not> is_CObjectException e
     | Inr (operators, st', left_over) \<Rightarrow> parsed_content first cs items st operators st' left_over)"
proof -
  obtain a st0 where n: "new_op (UnknownCompositePdfOperator [] [] []) st = (a, st0)" by force
  note t = top_operator [OF f n]
  from parse_loop_ends [OF t(2) _ t(1), of items "parse_fuel items" first False] obtain res where
    l: "parse_loop first (parse_fuel items) a a False items [] st0 = Some res"
      "loop_result first st0 items a [] res"
    by (auto simp: parse_fuel_def)
  show ?thesis
  proof (cases res)
    case (Inl e)
    with l n show ?thesis by (simp add: parse_def)
  next
    case (Inr r)
    obtain left_over st1 where r: "r = (left_over, st1)" by force
    from l(2) Inr r obtain us seg rest where
      u: "open_list st1 a us" "spelled st1 (flats us) seg" "items = seg @ rest"
        "set (flats us) \<subseteq> {free_addr st0..}"
        "first = None \<longrightarrow> ends_with rest left_over \<or> left_over = [] \<and> breaks_at rest" by auto
    from parse_from_loop [OF n l(1) [unfolded Inr r] u(1), of cs] obtain st4 where
      s: "parse first cs items st = Some (Inr (map root_op us, st4, left_over))"
        "content_ok st4 (map root_op us) us"
        "\<forall>d\<in>set (flats us). op_label st4 d = op_label st1 d \<and> owner st4 d = Some cs" by blast
    have new: "\<forall>d\<in>set (flats us). free_addr st \<le> d" using u(4) t(3) by fastforce
    have "closed st4 t" if "t \<in> set us" for t
    proof -
      have "op_label st4 d = op_label st1 d" if "d \<in> set (flat t)" for d
        using s(3) \<open>t \<in> set us\<close> that by auto
      moreover have "closed st1 t" using u(1) that by (simp add: open_list_def)
      ultimately show ?thesis using closed_cong [of t st4 st1] by blast
    qed
    moreover have "spelled st4 (flats us) seg" using spelled_cong [of "flats us" st4 st1] s(3) u(2) by blast
    ultimately have "parsed_content first cs items st (map root_op us) st4 left_over"
      unfolding parsed_content_def using s(2,3) new u(3,5) by blast
    with s(1) show ?thesis by simp
  qed
qed

section \<open>Claims\<close>



section \<open>Reading back what is written\<close>

text \<open>
  The operators of a stream without their addresses, and the tokens they are written as.  Inline
  images are left out: their data is no sequence of objects.
\<close>

datatype op_term = OpTerm op_class "op_term list"

fun term_class :: "op_term \<Rightarrow> op_class" where
  "term_class (OpTerm k ts) = k"

fun class_tokens :: "op_class \<Rightarrow> item list" where
  "class_tokens (SimpleGenericOperator n xs) = map Tok xs @ [Tok (XCmd n)]"
| "class_tokens (TextSimpleOperator n xs) = map Tok xs @ [Tok (XCmd n)]"
| "class_tokens (UnknownCompositePdfOperator b e cs) = [Tok (XCmd b)]"
| "class_tokens (InlineImageCompositePdfOperator im b e) = []"

fun term_tokens :: "op_term \<Rightarrow> item list" where
  "term_tokens (OpTerm k ts) = class_tokens k @ concat (map term_tokens ts)"

fun term_of :: "op_store \<Rightarrow> op_tree \<Rightarrow> op_term" where
  "term_of st (OpTree a ts) = OpTerm (the (op_label st a)) (map (term_of st) ts)"

text \<open>Operators the table takes as they are.\<close>

fun readable :: "op_class \<Rightarrow> bool" where
  "readable (SimpleGenericOperator n xs) \<longleftrightarrow>
     take 2 n \<noteq> ''BI'' \<and> list_all convertible xs \<and>
     (case findOp n of
        None \<Rightarrow> True
      | Some x \<Rightarrow> isSimpleOp x \<and> \<not> isTextOp x \<and> checkAndFixOperator x xs = Inr (True, xs))"
| "readable (TextSimpleOperator n xs) \<longleftrightarrow>
     take 2 n \<noteq> ''BI'' \<and> list_all convertible xs \<and>
     (case findOp n of
        None \<Rightarrow> False
      | Some x \<Rightarrow> isTextOp x \<and> checkAndFixOperator x xs = Inr (True, xs))"
| "readable (UnknownCompositePdfOperator b e cs) \<longleftrightarrow>
     cs = [] \<and> take 2 b \<noteq> ''BI'' \<and>
     (case findOp b of
        None \<Rightarrow> False
      | Some x \<Rightarrow> \<not> isSimpleOp x \<and> \<not> isTextOp x \<and> checkAndFixOperator x [] = Inr (True, []) \<and> endTag x = e)"
| "readable (InlineImageCompositePdfOperator im b e) \<longleftrightarrow> False"

abbreviation term_name :: "op_term \<Rightarrow> string" where
  "term_name t \<equiv> operator_name (term_class t)"

fun readable_term :: "op_term \<Rightarrow> bool" where
  "readable_term (OpTerm k ts) \<longleftrightarrow>
     readable k \<and> (\<forall>t\<in>set ts. readable_term t) \<and>
     (case k of
        UnknownCompositePdfOperator b e cs \<Rightarrow>
          ts \<noteq> [] \<and> term_name (last ts) = e \<and> (\<forall>t\<in>set (butlast ts). term_name t \<noteq> e)
      | _ \<Rightarrow> ts = [])"

lemma term_of_cong:
  "(\<And>a. a \<in> set (flat u) \<Longrightarrow> op_label st' a = op_label st a) \<Longrightarrow> term_of st' u = term_of st u"
proof (induction u)
  case (OpTree a ts)
  have "term_of st' t = term_of st t" if "t \<in> set ts" for t
    by (rule OpTree.IH [OF that]) (use OpTree.prems that in auto)
  moreover have "op_label st' a = op_label st a" using OpTree.prems by simp
  ultimately show ?case by simp
qed

lemma term_name_root:
  assumes "stands st u"
  shows "term_name (term_of st u) = getOperatorName st (root_op u)"
proof (cases u)
  case (OpTree a ts)
  with assms have "op_label st a \<noteq> None" by (simp add: op_label_None del: not_None_eq)
  with OpTree show ?thesis by (auto simp: name_of_label)
qed

lemma operands_are_read:
  "list_all convertible xs \<Longrightarrow>
     createOperandsFromStream (map Tok xs @ Tok (XCmd c) # r) ops0 = Inr (Some c, r, ops0 @ xs)"
proof (induction xs arbitrary: ops0)
  case (Cons x xs)
  then have "\<forall>c. x \<noteq> XCmd c" "x \<noteq> XEOF" by auto
  from operand_step [OF this] Cons show ?case by (simp add: guard_def)
qed simp

lemma right_length:
  assumes "findOp n = Some x" "checkAndFixOperator x xs = Inr (True, ys)"
  shows "\<not> nat (if argNum x > 0 then argNum x else - argNum x) < length xs"
proof -
  have x: "x \<in> set KNOWN_OPERATORS" using findOp_member [OF assms(1)] by simp
  from operands_checked_spec [OF x, of xs] assms(2) have "fits x xs" by auto
  from fits_length(1) [OF x this] show ?thesis by simp
qed

lemma operator_is_read:
  assumes "readable k"
  shows "createOperatorFromStream (class_tokens k @ r) [] st =
    Inr (Some (free_addr st), r, [], snd (new_op k st))"
proof (cases k)
  case (SimpleGenericOperator n xs)
  with assms have r: "take 2 n \<noteq> ''BI''" "list_all convertible xs" by auto
  have "createOperator n xs st = Inr (free_addr st, [], snd (new_op k st))"
  proof (cases "findOp n")
    case None
    with r SimpleGenericOperator show ?thesis by (auto simp: createOperator_def new_op_def)
  next
    case (Some x)
    with assms SimpleGenericOperator have
      x: "isSimpleOp x" "\<not> isTextOp x" "checkAndFixOperator x xs = Inr (True, xs)" by auto
    have "n \<noteq> ''BI''" using r(1) by auto
    moreover have "op_name x = n" using findOp_member [OF Some] by simp
    ultimately show ?thesis using x Some right_length [OF Some x(3)] SimpleGenericOperator
      by (simp add: createOperator_def new_op_def guard_def Let_def)
  qed
  with SimpleGenericOperator r operands_are_read [OF r(2), of n r "[]"] show ?thesis
    by (simp add: createOperatorFromStream_def)
next
  case (TextSimpleOperator n xs)
  with assms obtain x where r: "take 2 n \<noteq> ''BI''" "list_all convertible xs"
    and x: "findOp n = Some x" "isTextOp x" "checkAndFixOperator x xs = Inr (True, xs)"
    by (auto split: option.splits)
  have "n \<noteq> ''BI''" using r(1) by auto
  moreover have "op_name x = n" using findOp_member [OF x(1)] by simp
  ultimately have "createOperator n xs st = Inr (free_addr st, [], snd (new_op k st))"
    using x right_length [OF x(1,3)] TextSimpleOperator
    by (simp add: createOperator_def new_op_def guard_def Let_def)
  with TextSimpleOperator r operands_are_read [OF r(2), of n r "[]"] show ?thesis
    by (simp add: createOperatorFromStream_def)
next
  case (UnknownCompositePdfOperator b e cs)
  with assms obtain x where r: "take 2 b \<noteq> ''BI''" "cs = []"
    and x: "findOp b = Some x" "\<not> isTextOp x" "\<not> isSimpleOp x"
      "checkAndFixOperator x [] = Inr (True, [])" "endTag x = e"
    by (auto split: option.splits)
  have "b \<noteq> ''BI''" using r(1) by auto
  moreover have "op_name x = b" using findOp_member [OF x(1)] by simp
  ultimately have "createOperator b [] st = Inr (free_addr st, [], snd (new_op k st))"
    using x r UnknownCompositePdfOperator by (simp add: createOperator_def new_op_def Let_def)
  with UnknownCompositePdfOperator r operands_are_read [of "[]" b r "[]"] show ?thesis
    by (simp add: createOperatorFromStream_def)
qed (use assms in simp)

text \<open>The result of reading a term.\<close>

definition reads_term :: "op_store \<Rightarrow> op_term \<Rightarrow> nat \<Rightarrow> op_store \<Rightarrow> bool" where
  "reads_term st t a st' \<longleftrightarrow>
     grows {} st st' \<and>
     (\<exists>u. root_op u = a \<and> set (flat u) \<subseteq> {free_addr st..<free_addr st'} \<and> built st' u \<and> term_of st' u = t)"

definition reads_children ::
    "op_store \<Rightarrow> op_term list \<Rightarrow> nat \<Rightarrow> op_tree list \<Rightarrow> op_store \<Rightarrow> bool" where
  "reads_children st vs a ts st' \<longleftrightarrow>
     grows (set (flat (OpTree a ts))) st st' \<and>
     (\<exists>us. set (flats us) \<subseteq> {free_addr st..<free_addr st'} \<and> built st' (OpTree a (ts @ us)) \<and>
       map (term_of st') us = vs) \<and>
     (\<forall>d\<in>set (flat (OpTree a ts)). op_label st' d = op_label st d)"

lemma children_read:
  assumes P: "\<And>v st n r. v \<in> set vs \<Longrightarrow> fresh st \<Longrightarrow> 2 * length (term_tokens v @ r) + 1 \<le> n \<Longrightarrow>
      \<exists>a st'. parseOp n (term_tokens v @ r) [] st = Some (Inr (Some a, r, [], st')) \<and> reads_term st v a st'"
    and "fresh st" "open_op st a ts e" "2 * length (concat (map term_tokens vs) @ r) + 2 \<le> n"
    and "vs \<noteq> []" "term_name (last vs) = e" "\<forall>v\<in>set (butlast vs). term_name v \<noteq> e"
    and ne: "\<And>v. v \<in> set vs \<Longrightarrow> term_tokens v \<noteq> []"
  shows "\<exists>st'. parse_children n a (last (flat (OpTree a ts))) e (concat (map term_tokens vs) @ r) [] st =
      Some (Inr (Some a, r, [], st')) \<and> reads_children st vs a ts st'"
  using assms
proof (induction vs arbitrary: st ts n)
  case (Cons v vs)
  let ?l = "last (flat (OpTree a ts))"
  let ?rest = "concat (map term_tokens vs) @ r"
  note o = Cons.prems(3)
  obtain m where n: "n = Suc m" using Cons.prems(4) by (cases n) auto
  have "2 * length (term_tokens v @ ?rest) + 1 \<le> m" using Cons.prems(4) n by simp
  from Cons.prems(1) [OF _ Cons.prems(2) this] obtain w st1 where
    p: "parseOp m (term_tokens v @ ?rest) [] st = Some (Inr (Some w, ?rest, [], st1))"
      "reads_term st v w st1" by auto
  from p(2) obtain t where g: "grows {} st st1" and t: "root_op t = w"
      "set (flat t) \<subseteq> {free_addr st..<free_addr st1}" "built st1 t" "term_of st1 t = v"
    unfolding reads_term_def by blast
  from o have "open_list st a ts" by (simp add: open_op_def)
  from child_added [OF this g t(2,3)] obtain st2 where
    b: "push_back a w (Some ?l) st1 = Inr st2" "op_label st2 = op_label st1"
      "free_addr st2 = free_addr st1" "open_list st2 a (ts @ [t])"
      "grows (set (flat (OpTree a ts))) st st2"
      "\<forall>d\<in>set (flat (OpTree a ts)). op_label st2 d = op_label st d"
    unfolding t(1) by blast
  have tree: "stands st2 (OpTree a (ts @ [t]))" "linked st2 None (flat (OpTree a (ts @ [t]))) None"
      "distinct (flat (OpTree a (ts @ [t])))" "\<forall>v\<in>set (ts @ [t]). closed st2 v"
    using b(4) unfolding open_list_def by blast+
  from o obtain nm where la: "op_label st a = Some (UnknownCompositePdfOperator nm e [])"
    "getEndTag nm = Inr e" by (auto simp: open_op_def)
  have la2: "op_label st2 a = Some (UnknownCompositePdfOperator nm e [])"
    using b(6) la(1) by simp
  have names: "getOperatorName st2 (root_op u) \<noteq> e" if "u \<in> set ts" for u
    by (rule open_names_kept [OF o b(6) that])
  have st2t: "stands st2 t" using tree(1) by simp
  have tv: "term_of st2 t = v" using term_of_cong [of t st2 st1] t(4) b(2) by simp
  have nv: "getOperatorName st2 w = term_name v"
    using term_name_root [OF st2t] tv t(1) by simp
  show ?case
  proof (cases "vs = []")
    case True
    then have e: "getOperatorName st2 w = e" using Cons.prems(6) nv by simp
    have "closed st2 (OpTree a (ts @ [t]))"
      using tree(4) la la2 names e t(1) by simp
    then have "built st2 (OpTree a (ts @ [t]))"
      unfolding built_def using tree(1-3) by blast
    then have "reads_children st [v] a ts st2"
      unfolding reads_children_def using b(3,5,6) t(2) tv
      by (intro conjI exI [of _ "[t]"]) simp_all
    moreover have "parse_children n a ?l e (term_tokens v @ ?rest) [] st = Some (Inr (Some a, ?rest, [], st2))"
      by (simp add: n p(1) b(1) e del: flat.simps append_assoc)
    ultimately show ?thesis using True by (intro exI [of _ st2]) simp
  next
    case False
    then have e: "getOperatorName st2 w \<noteq> e" using Cons.prems(7) nv by simp
    have la': "getLastOperator st2 w = Some (last (flat (OpTree a (ts @ [t]))))"
      using getLastOperator_stands [OF st2t] t(1) by simp
    have "fresh st2" using b(5) by (simp add: grows_def)
    moreover have "open_op st2 a (ts @ [t]) e"
      unfolding open_op_def using b(4) la(2) la2 names e t(1) by auto
    moreover have "2 * length ?rest + 2 \<le> m"
      using Cons.prems(4) n Cons.prems(8) [of v] by (cases "term_tokens v") auto
    ultimately obtain st3 where
      c: "parse_children m a (last (flat (OpTree a (ts @ [t])))) e ?rest [] st2 = Some (Inr (Some a, r, [], st3))"
        "reads_children st2 vs a (ts @ [t]) st3"
      using Cons.IH [of st2 "ts @ [t]" m] Cons.prems(1,6,7,8) False by auto
    have step: "parse_children n a ?l e (term_tokens v @ ?rest) [] st = Some (Inr (Some a, r, [], st3))"
      by (simp add: n p(1) b(1) e la' c(1) del: flat.simps append_assoc)
    from c(2) obtain us where
      k: "grows (set (flat (OpTree a (ts @ [t])))) st2 st3" "set (flats us) \<subseteq> {free_addr st2..<free_addr st3}"
        "built st3 (OpTree a ((ts @ [t]) @ us))" "map (term_of st3) us = vs"
        "\<forall>d\<in>set (flat (OpTree a (ts @ [t]))). op_label st3 d = op_label st2 d"
      unfolding reads_children_def by blast
    have fr: "free_addr st \<le> free_addr st2" "free_addr st2 \<le> free_addr st3"
      using b(5) k(1) by (simp_all add: grows_def)
    have "set (flat t) \<subseteq> {free_addr st..}" by (rule subset_trans [OF t(2)]) auto
    from grows_children [OF b(5) this k(1)] have "grows (set (flat (OpTree a ts))) st st3" .
    moreover have "op_label st3 d = op_label st2 d" if "d \<in> set (flat t)" for d using k(5) that by simp
    then have "term_of st3 t = v" using term_of_cong [of t st3 st2] tv by blast
    moreover have "set (flat t) \<subseteq> {free_addr st..<free_addr st3}"
      by (rule range_mono [OF t(2)]) (use fr(2) b(3) in simp_all)
    moreover have "set (flats us) \<subseteq> {free_addr st..<free_addr st3}"
      by (rule range_mono [OF k(2)]) (use fr(1) in simp_all)
    moreover have "op_label st3 d = op_label st d" if "d \<in> set (flat (OpTree a ts))" for d
    proof -
      have "d \<in> set (flat (OpTree a (ts @ [t])))" using that by auto
      with k(5) b(6) that show ?thesis by (simp only:)
    qed
    ultimately have "reads_children st (v # vs) a ts st3"
      unfolding reads_children_def using k(3,4)
      by (intro conjI exI [of _ "t # us"] ballI) simp_all
    with step show ?thesis by (intro exI [of _ st3]) simp
  qed
qed simp

lemma tokens_not_Nil: "readable_term t \<Longrightarrow> term_tokens t \<noteq> []"
proof (cases t)
  case (OpTerm k ts)
  assume "readable_term t"
  with OpTerm show ?thesis by (cases k) auto
qed

lemma term_read:
  "readable_term v \<Longrightarrow> fresh st \<Longrightarrow> 2 * length (term_tokens v @ r) + 1 \<le> n \<Longrightarrow>
     \<exists>a st'. parseOp n (term_tokens v @ r) [] st = Some (Inr (Some a, r, [], st')) \<and> reads_term st v a st'"
proof (induction v arbitrary: st n r)
  case (OpTerm k vs)
  let ?rest = "concat (map term_tokens vs) @ r"
  from OpTerm.prems(1) have k: "readable k" "\<forall>v\<in>set vs. readable_term v" by auto
  obtain m where n: "n = Suc m" using OpTerm.prems(3) by (cases n) auto
  obtain w st1 where new: "new_op k st = (w, st1)" by force
  have cl: "children_in k = []" "own_part k = k" using k(1) by (cases k; simp)+
  note leaf = new_op_leaf [OF new OpTerm.prems(2) cl]
  have c: "createOperatorFromStream (class_tokens k @ ?rest) [] st = Inr (Some w, ?rest, [], st1)"
    using operator_is_read [OF k(1), of ?rest st] new leaf(1) by simp
  have toks: "term_tokens (OpTerm k vs) @ r = class_tokens k @ ?rest" by simp
  have sub: "set (flat (OpTree w [])) \<subseteq> {free_addr st..<free_addr st1}" using leaf(1,2) by simp
  show ?case
  proof (cases "\<exists>b e cs. k = UnknownCompositePdfOperator b e cs")
    case False
    then have vs: "vs = []" using OpTerm.prems(1) by (cases k) auto
    from False have "\<not> (isCompositeOp st1 w \<and> \<not> isInlineImageOp st1 w)"
      unfolding class_of_label(1) [OF leaf(4)] class_of_label(2) [OF leaf(4)] by (cases k) simp_all
    with c have "parseOp n (class_tokens k @ ?rest) [] st = Some (Inr (Some w, ?rest, [], st1))"
      unfolding n by auto
    moreover have "built st1 (OpTree w [])"
      using leaf(4-6) False by (cases k) (simp_all add: built_def)
    then have "reads_term st (OpTerm k vs) w st1" unfolding reads_term_def
      using leaf(3,4) sub vs by (intro conjI exI [of _ "OpTree w []"]) simp_all
    ultimately show ?thesis unfolding toks using vs by auto
  next
    case True
    then obtain b e where ke: "k = UnknownCompositePdfOperator b e []" "getEndTag b = Inr e"
      using k(1) by (auto simp: getEndTag_def split: option.splits)
    have vs: "vs \<noteq> []" "term_name (last vs) = e" "\<forall>v\<in>set (butlast vs). term_name v \<noteq> e"
      using OpTerm.prems(1) ke(1) by auto
    have comp: "isCompositeOp st1 w" "\<not> isInlineImageOp st1 w"
      unfolding class_of_label(1) [OF leaf(4)] class_of_label(2) [OF leaf(4)] by (simp_all add: ke)
    have nm: "getOperatorName st1 w = b" using leaf(4) ke by (simp add: name_of_label)
    have o: "open_op st1 w [] e"
      unfolding open_op_def open_list_def using leaf ke by simp
    have f: "fresh st1" using leaf(3) by (simp add: grows_def)
    have m: "2 * length ?rest + 2 \<le> m" using OpTerm.prems(3) n ke(1) by simp
    have P: "\<exists>a st'. parseOp n (term_tokens v @ r) [] st = Some (Inr (Some a, r, [], st')) \<and> reads_term st v a st'"
      if "v \<in> set vs" "fresh st" "2 * length (term_tokens v @ r) + 1 \<le> n" for v st n r
      using OpTerm.IH [OF that(1) _ that(2,3)] k(2) that(1) by blast
    have ne: "term_tokens v \<noteq> []" if "v \<in> set vs" for v using tokens_not_Nil k(2) that by blast
    from children_read [OF P f o m vs ne] obtain st2 where
      s: "parse_children m w w e ?rest [] st1 = Some (Inr (Some w, r, [], st2))" "reads_children st1 vs w [] st2"
      by auto
    from s(2) obtain us where
      u: "grows {w} st1 st2" "set (flats us) \<subseteq> {free_addr st1..<free_addr st2}"
        "built st2 (OpTree w us)" "map (term_of st2) us = vs" "op_label st2 w = op_label st1 w"
      unfolding reads_children_def by auto
    have e: "parseOp n (class_tokens k @ ?rest) [] st = Some (Inr (Some w, r, [], st2))"
      unfolding n using c comp nm ke s(1) by simp
    have fr: "free_addr st \<le> free_addr st1" "free_addr st1 \<le> free_addr st2"
      using leaf(3) u(1) by (simp_all add: grows_def)
    have "grows {} st st2" using u(1) leaf(1,2,3) unfolding grows_def by simp
    moreover have "set (flat (OpTree w us)) \<subseteq> {free_addr st..<free_addr st2}"
      using range_mono [OF u(2) fr(1) order_refl] range_mono [OF sub order_refl fr(2)] by simp
    ultimately have "reads_term st (OpTerm k vs) w st2"
      unfolding reads_term_def using u(3,4,5) leaf(4)
      by (intro conjI exI [of _ "OpTree w us"]) simp_all
    with e show ?thesis unfolding toks by blast
  qed
qed

lemma loop_reads:
  assumes "fresh st" "open_list st a ts" "2 * length (concat (map term_tokens vs)) + 2 \<le> n"
    "\<forall>v\<in>set vs. readable_term v"
  shows "\<exists>st' us. parse_loop None n a (last (flat (OpTree a ts))) our (concat (map term_tokens vs)) [] st =
      Some (Inr ([], st')) \<and>
    open_list st' a (ts @ us) \<and> map (term_of st') us = vs \<and>
    (\<forall>d\<in>set (flat (OpTree a ts)). op_label st' d = op_label st d)"
  using assms
proof (induction vs arbitrary: st ts n our)
  case Nil
  obtain m where "n = Suc (Suc m)" using Nil.prems(3) by (metis add_2_eq_Suc le_Suc_ex plus_nat.simps(2) mult_0_right list.map(1) concat.simps(1) list.size(3) add_0)
  with Nil show ?case by (intro exI [of _ st] exI [of _ "[]"]) (simp add: createOperatorFromStream_def)
next
  case (Cons v vs)
  let ?l = "last (flat (OpTree a ts))"
  let ?rest = "concat (map term_tokens vs)"
  obtain m where n: "n = Suc m" using Cons.prems(3) by (cases n) auto
  have v: "readable_term v" using Cons.prems(4) by simp
  have "2 * length (term_tokens v @ ?rest) + 1 \<le> m" using Cons.prems(3) n by simp
  from term_read [OF v Cons.prems(1) this] obtain w st1 where
    p: "parseOp m (term_tokens v @ ?rest) [] st = Some (Inr (Some w, ?rest, [], st1))"
      "reads_term st v w st1" by auto
  from p(2) obtain t where g: "grows {} st st1" and t: "root_op t = w"
      "set (flat t) \<subseteq> {free_addr st..<free_addr st1}" "built st1 t" "term_of st1 t = v"
    unfolding reads_term_def by blast
  from child_added [OF Cons.prems(2) g t(2,3)] obtain st2 where
    b: "push_back a w (Some ?l) st1 = Inr st2" "op_label st2 = op_label st1"
      "free_addr st2 = free_addr st1" "open_list st2 a (ts @ [t])"
      "grows (set (flat (OpTree a ts))) st st2"
      "\<forall>d\<in>set (flat (OpTree a ts)). op_label st2 d = op_label st d"
    unfolding t(1) by blast
  have st2t: "stands st2 t" using b(4) by (simp add: open_list_def)
  have la: "getLastOperator st2 w = Some (last (flat (OpTree a (ts @ [t]))))"
    using getLastOperator_stands [OF st2t] t(1) by simp
  have tv: "term_of st2 t = v" using term_of_cong [of t st2 st1] t(4) b(2) by simp
  have "fresh st2" using b(5) by (simp add: grows_def)
  moreover have "2 * length ?rest + 2 \<le> m"
    using Cons.prems(3) n tokens_not_Nil [OF v] by (cases "term_tokens v") auto
  ultimately obtain st3 us where
    c: "parse_loop None m a (last (flat (OpTree a (ts @ [t])))) (our \<or> is_change_tag st1 w) ?rest [] st2 =
        Some (Inr ([], st3))" "open_list st3 a ((ts @ [t]) @ us)" "map (term_of st3) us = vs"
      "\<forall>d\<in>set (flat (OpTree a (ts @ [t]))). op_label st3 d = op_label st2 d"
    using Cons.IH [of st2 "ts @ [t]" m] b(4) Cons.prems(4) by (metis list.set_intros(2))
  have "parse_loop None n a ?l our (term_tokens v @ ?rest) [] st = Some (Inr ([], st3))"
    by (simp add: n p(1) b(1) la c(1) Let_def del: flat.simps append_assoc)
  moreover have "op_label st3 d = op_label st2 d" if "d \<in> set (flat t)" for d using c(4) that by simp
  then have "term_of st3 t = v" using term_of_cong [of t st3 st2] tv by blast
  moreover have "op_label st3 d = op_label st d" if "d \<in> set (flat (OpTree a ts))" for d
  proof -
    have "d \<in> set (flat (OpTree a (ts @ [t])))" using that by auto
    with c(4) b(6) that show ?thesis by (simp only:)
  qed
  ultimately show ?case using c(2,3)
    by (intro exI [of _ st3] exI [of _ "t # us"] conjI ballI) simp_all
qed

text \<open>
  Claim C32: operators that are written token by token are read back.  For any list of terms whose
  operands fit the table of operators and whose composites are closed by their end tags, parsing their
  tokens returns operators that stand for just these terms, in this order and nesting, in one list and
  owned by the stream; no operand is left.
\<close>

theorem operators_read_back:
  assumes "fresh st" "\<forall>v\<in>set vs. readable_term v"
  shows "\<exists>operators st' ts. parse None cs (concat (map term_tokens vs)) st = Some (Inr (operators, st', [])) \<and>
    content_ok st' operators ts \<and> map (term_of st') ts = vs \<and>
    (\<forall>a\<in>set (flats ts). owner st' a = Some cs)"
proof -
  let ?items = "concat (map term_tokens vs)"
  obtain a st0 where n: "new_op (UnknownCompositePdfOperator [] [] []) st = (a, st0)" by force
  note t = top_operator [OF assms(1) n]
  from loop_reads [OF t(2,1) _ assms(2), of "parse_fuel ?items" False] obtain st1 us where
    l: "parse_loop None (parse_fuel ?items) a a False ?items [] st0 = Some (Inr ([], st1))"
      "open_list st1 a us" "map (term_of st1) us = vs"
    by (auto simp: parse_fuel_def)
  from parse_from_loop [OF n l(1,2), of cs] obtain st4 where
    s: "parse None cs ?items st = Some (Inr (map root_op us, st4, []))"
      "content_ok st4 (map root_op us) us"
      "\<forall>d\<in>set (flats us). op_label st4 d = op_label st1 d \<and> owner st4 d = Some cs" by blast
  have "term_of st4 u = term_of st1 u" if "u \<in> set us" for u
    by (rule term_of_cong) (use s(3) that in auto)
  then have "map (term_of st4) us = vs" using l(3) by (metis map_cong)
  with s show ?thesis by blast
qed

definition sample_terms :: "op_term list" where
  "sample_terms =
     [OpTerm (UnknownCompositePdfOperator ''q'' ''Q'' [])
        [OpTerm (SimpleGenericOperator ''w'' [XReal (5/2)]) [],
         OpTerm (UnknownCompositePdfOperator ''BT'' ''ET'' [])
           [OpTerm (TextSimpleOperator ''Tj'' [XString ''text'']) [],
            OpTerm (SimpleGenericOperator ''ET'' []) []],
         OpTerm (SimpleGenericOperator ''Q'' []) []],
      OpTerm (SimpleGenericOperator ''unknown'' [XInt 3, XName ''N'']) []]"

lemma sample_operators:
  "findOp ''q'' = Some (known ''q'' 0 [none_ok] opqUpdate ''Q'')"
  "findOp ''Q'' = Some (known ''Q'' 0 [none_ok] opQUpdate '''')"
  "findOp ''w'' = Some (known ''w'' 1 [num_ok] opwUpdate '''')"
  "findOp ''BT'' = Some (known ''BT'' 0 [none_ok] opBTUpdate ''ET'')"
  "findOp ''ET'' = Some (known ''ET'' 0 [none_ok] unknownUpdate '''')"
  "findOp ''Tj'' = Some (known ''Tj'' 1 [string_ok] opTjUpdate '''')"
  "findOp ''unknown'' = None"
  by (simp_all add: findOp_find KNOWN_OPERATORS_def known_def)

lemma sample_readable: "\<forall>v\<in>set sample_terms. readable_term v"
  by (simp add: sample_terms_def sample_operators known_def isSimpleOp_def isTextOp_def
      checkAndFixOperator_def setNoneBitsShort_def isBitSet_def)

theorem operators_read_back_witness:
  "\<exists>operators st' ts. parse None 7 (concat (map term_tokens sample_terms)) empty_store =
      Some (Inr (operators, st', [])) \<and>
    content_ok st' operators ts \<and> map (term_of st') ts = sample_terms \<and>
    (\<forall>a\<in>set (flats ts). owner st' a = Some 7)"
proof (rule operators_read_back)
  show "fresh empty_store" by (simp add: fresh_def empty_store_def)
  show "\<forall>v\<in>set sample_terms. readable_term v"
    by (rule sample_readable)
qed

end
