(* ===== verification/Object_Import.thy ===== *)
theory Object_Import
  imports XRef_Writer Document_Writers
begin

text \<open>
  New indirect objects of a document (\<^verbatim>\<open>src/src/kernel/cpdf.cc\<close>: \<^verbatim>\<open>addIndirectProperty\<close>,
  \<^verbatim>\<open>addProperty\<close>, \<^verbatim>\<open>subsReferencies\<close>, \<^verbatim>\<open>createMapping\<close>, \<^verbatim>\<open>registerIndirectProperty\<close>).  An
  object of another document is copied with everything it refers to; a mapping from the references of
  the other document to new ones, kept per document, ends the recursion and makes an object that is
  added again the same object.  The table of references the import works on is what \<open>ref_table\<close> lists;
  what it must promise is the locale \<open>object_pool\<close>.
\<close>

section \<open>The table of references\<close>

text \<open>The operations of \<^verbatim>\<open>XRefWriter\<close> and \<^verbatim>\<open>CPdf\<close> the import calls.\<close>

record 't ref_table =
  waits_for_credentials :: "'t \<Rightarrow> bool"
  read_only :: "'t \<Rightarrow> bool"
  reserve_ref :: "'t \<Rightarrow> ref result \<times> 't"
  change_object :: "'t \<Rightarrow> ref \<Rightarrow> xobj \<Rightarrow> unit result \<times> 't"

definition xw_table :: "xref_writer ref_table" where
  "xw_table =
     \<lparr>waits_for_credentials = (\<lambda>x. needs_credentials (base x)),
      read_only = (\<lambda>x. pdf_mode x = Some ReadOnly),
      reserve_ref = xw_reserveRef,
      change_object = xw_changeObject deep_copy\<rparr>"

section \<open>The mapping of references\<close>

datatype resolve_state = STATE_NEW | STATE_RESOLVING | STATE_RESOLVED

type_synonym ref_mapping = "ref \<Rightarrow> (ref \<times> resolve_state) option"

text \<open>The state of one import: the table, \<^verbatim>\<open>ResolvedRefStorage\<close> of the other document, \<^verbatim>\<open>change\<close>.\<close>

record 't import =
  table :: 't
  container :: ref_mapping
  modified :: bool

definition isRefValid :: "ref \<Rightarrow> bool" where
  "isRefValid r \<longleftrightarrow> ref_num r > 0"

definition set_state :: "ref \<Rightarrow> ref \<Rightarrow> resolve_state \<Rightarrow> 't import \<Rightarrow> 't import" where
  "set_state old new s st = st\<lparr>container := (container st)(old \<mapsto> (new, s))\<rparr>"

text \<open>
  \<^verbatim>\<open>createMapping\<close>: the entry is in the container afterwards; an invalid reference gets none, which
  is the pointer \<^verbatim>\<open>NULL\<close> in the caller.
\<close>

definition createMapping ::
    "'t ref_table \<Rightarrow> ref \<Rightarrow> 't import \<Rightarrow> ref result \<times> 't import" where
  "createMapping T oldRef st =
     (case reserve_ref T (table st) of
        (Inl e, t) \<Rightarrow> (Inl e, st\<lparr>table := t\<rparr>)
      | (Inr new, t) \<Rightarrow>
          (Inr new,
           let st1 = st\<lparr>table := t\<rparr> in
           if isRefValid oldRef \<and> container st oldRef = None
           then set_state oldRef new STATE_NEW st1 else st1))"

text \<open>\<^verbatim>\<open>registerIndirectProperty\<close>.\<close>

definition registerIndirectProperty ::
    "'t ref_table \<Rightarrow> xobj \<Rightarrow> ref \<Rightarrow> 't import \<Rightarrow> ref result \<times> 't import" where
  "registerIndirectProperty T v r st =
     (case change_object T (table st) r v of
        (Inl e, t) \<Rightarrow> (Inl e, st\<lparr>table := t\<rparr>)
      | (Inr _, t) \<Rightarrow> (Inr r, st\<lparr>table := t, modified := True\<rparr>))"

section \<open>Substituting references\<close>

text \<open>
  \<^verbatim>\<open>subsReferencies\<close> changes the references inside a property in place; a property that is itself a
  reference gets its new value from the caller, which goes through children only.  \<open>top_value v w\<close>
  is the property \<open>v\<close> after a call for it, when \<open>w\<close> is what the call computes.
\<close>

definition top_value :: "xobj \<Rightarrow> xobj \<Rightarrow> xobj" where
  "top_value v w = (case v of XRefObj r \<Rightarrow> v | _ \<Rightarrow> w)"

text \<open>
  The source document is \<open>src\<close>, its \<^verbatim>\<open>getIndirectProperty\<close> as a function to values; a property
  without a document has none.  A followed reference adds the property it refers to
  (\<^verbatim>\<open>addProperty\<close>), always with its references followed, as the pointer to it is passed for the flag.
  The fuel bounds the followed references that are nested.
\<close>

type_synonym source = "(ref \<Rightarrow> xobj result) option"

definition map_ref :: "'t ref_table \<Rightarrow> ref \<Rightarrow> 't import \<Rightarrow> unit result \<times> 't import" where
  "map_ref T r st =
     (case container st r of
        Some _ \<Rightarrow> (Inr (), st)
      | None \<Rightarrow>
          (case createMapping T r st of
             (Inl e, st1) \<Rightarrow> (Inl e, st1)
           | (Inr _, st1) \<Rightarrow> (Inr (), st1)))"

function (sequential) subsReferencies ::
    "'t ref_table \<Rightarrow> source \<Rightarrow> nat \<Rightarrow> bool \<Rightarrow> xobj \<Rightarrow> 't import \<Rightarrow> (xobj result \<times> 't import) option"
  and subs_array ::
    "'t ref_table \<Rightarrow> source \<Rightarrow> nat \<Rightarrow> bool \<Rightarrow> xobj list \<Rightarrow> 't import \<Rightarrow> (xobj list result \<times> 't import) option"
  and subs_dict ::
    "'t ref_table \<Rightarrow> source \<Rightarrow> nat \<Rightarrow> bool \<Rightarrow> dict \<Rightarrow> 't import \<Rightarrow> (dict result \<times> 't import) option"
  where
  "subsReferencies T src fuel followRefs (XRefObj r) st =
     (case map_ref T r st of
        (Inl e, st1) \<Rightarrow> Some (Inl e, st1)
      | (Inr _, st1) \<Rightarrow>
          (case container st1 r of
             None \<Rightarrow> Some (Inl UndefinedBehaviour, st1)
           | Some (new, s) \<Rightarrow>
               if followRefs \<and> src \<noteq> None \<and> s = STATE_NEW then
                 (case the src r of
                    Inl e \<Rightarrow> Some (Inl e, st1)
                  | Inr v \<Rightarrow>
                      (case fuel of
                         0 \<Rightarrow> None
                       | Suc n \<Rightarrow>
                           (case subsReferencies T src n True v (set_state r new STATE_RESOLVING st1) of
                              None \<Rightarrow> None
                            | Some (Inl e, st2) \<Rightarrow> Some (Inl e, st2)
                            | Some (Inr w, st2) \<Rightarrow>
                                (case registerIndirectProperty T (top_value v w) new st2 of
                                   (Inl e, st3) \<Rightarrow> Some (Inl e, st3)
                                 | (Inr _, st3) \<Rightarrow>
                                     Some (Inr (XRefObj new), set_state r new STATE_RESOLVED st3)))))
               else Some (Inr (XRefObj new), st1)))"
| "subsReferencies T src fuel followRefs (XArray xs) st =
     map_option (apfst (map_sum id XArray)) (subs_array T src fuel followRefs xs st)"
| "subsReferencies T src fuel followRefs (XDict d) st =
     map_option (apfst (map_sum id XDict)) (subs_dict T src fuel followRefs d st)"
| "subsReferencies T src fuel followRefs (XStream d s) st =
     map_option (apfst (map_sum id (\<lambda>d'. XStream d' s))) (subs_dict T src fuel followRefs d st)"
| "subsReferencies T src fuel followRefs v st = Some (Inr v, st)"
| "subs_array T src fuel followRefs [] st = Some (Inr [], st)"
| "subs_array T src fuel followRefs (x # xs) st =
     (case subsReferencies T src fuel followRefs x st of
        None \<Rightarrow> None
      | Some (Inl e, st1) \<Rightarrow> Some (Inl e, st1)
      | Some (Inr y, st1) \<Rightarrow>
          map_option (apfst (map_sum id (\<lambda>ys. y # ys))) (subs_array T src fuel followRefs xs st1))"
| "subs_dict T src fuel followRefs [] st = Some (Inr [], st)"
| "subs_dict T src fuel followRefs ((k, x) # d) st =
     (case subsReferencies T src fuel followRefs x st of
        None \<Rightarrow> None
      | Some (Inl e, st1) \<Rightarrow> Some (Inl e, st1)
      | Some (Inr y, st1) \<Rightarrow>
          map_option (apfst (map_sum id (\<lambda>d'. (k, y) # d'))) (subs_dict T src fuel followRefs d st1))"
  by pat_completeness auto
termination
  by (relation "measures [
        (\<lambda>p. case p of Inl (_, _, n, _) \<Rightarrow> n | Inr (Inl (_, _, n, _)) \<Rightarrow> n | Inr (Inr (_, _, n, _)) \<Rightarrow> n),
        (\<lambda>p. case p of Inl (_, _, _, _, v, _) \<Rightarrow> size v
           | Inr (Inl (_, _, _, _, vs, _)) \<Rightarrow> size_list size vs
           | Inr (Inr (_, _, _, _, d, _)) \<Rightarrow> size_list (size_prod (\<lambda>_. 0) size) d)]")
     auto

declare subsReferencies.simps [simp del] subs_array.simps [simp del] subs_dict.simps [simp del]

text \<open>\<^verbatim>\<open>addProperty\<close>: a copy of the property is substituted and stored under the reference.\<close>

definition addProperty ::
    "'t ref_table \<Rightarrow> source \<Rightarrow> nat \<Rightarrow> bool \<Rightarrow> xobj \<Rightarrow> ref \<Rightarrow> 't import \<Rightarrow> (ref result \<times> 't import) option" where
  "addProperty T src fuel followRefs v r st =
     (case subsReferencies T src fuel followRefs v st of
        None \<Rightarrow> None
      | Some (Inl e, st1) \<Rightarrow> Some (Inl e, st1)
      | Some (Inr w, st1) \<Rightarrow> Some (registerIndirectProperty T (top_value v w) r st1))"

section \<open>Adding a property\<close>

text \<open>
  A property as the import sees it: the document it belongs to, its reference and its value.  Documents
  have identifiers, and properties without a document share one.
\<close>

datatype origin = SamePdf | OtherPdf nat "ref \<Rightarrow> xobj result" | NoPdf

record property =
  pdf_of :: origin
  indi_ref :: ref
  prop_value :: xobj

definition NO_PDF_ID :: nat where
  "NO_PDF_ID = 0"

definition pdf_source :: "origin \<Rightarrow> source" where
  "pdf_source p = (case p of OtherPdf n f \<Rightarrow> Some f | _ \<Rightarrow> None)"

definition pdf_id :: "origin \<Rightarrow> nat" where
  "pdf_id p = (case p of OtherPdf n f \<Rightarrow> n | _ \<Rightarrow> NO_PDF_ID)"

record 't cpdf =
  xref :: 't
  resolvedRefMapping :: "nat \<Rightarrow> ref_mapping option"
  change :: bool

definition storage_of :: "nat \<Rightarrow> 't cpdf \<Rightarrow> ref_mapping" where
  "storage_of n p = (case resolvedRefMapping p n of None \<Rightarrow> Map.empty | Some m \<Rightarrow> m)"

definition start_import :: "nat \<Rightarrow> 't cpdf \<Rightarrow> 't import" where
  "start_import n p = \<lparr>table = xref p, container = storage_of n p, modified = change p\<rparr>"

definition end_import :: "nat \<Rightarrow> 't import \<Rightarrow> 't cpdf \<Rightarrow> 't cpdf" where
  "end_import n st p =
     p\<lparr>xref := table st, resolvedRefMapping := (resolvedRefMapping p)(n \<mapsto> container st),
       change := modified st\<rparr>"

text \<open>
  The part for a property of another document, on the mapping of that document.  A property with an
  invalid reference has no entry to mark.
\<close>

definition mark_entry :: "ref \<Rightarrow> ref \<Rightarrow> resolve_state \<Rightarrow> 't import \<Rightarrow> 't import" where
  "mark_entry old new s st = (if isRefValid old then set_state old new s st else st)"

definition import_property ::
    "'t ref_table \<Rightarrow> nat \<Rightarrow> property \<Rightarrow> bool \<Rightarrow> 't import \<Rightarrow> (ref result \<times> 't import) option" where
  "import_property T fuel ip followRefs st =
     (let old = indi_ref ip; src = pdf_source (pdf_of ip) in
      case (if isRefValid old then container st old else None) of
        Some (new, STATE_RESOLVING) \<Rightarrow> Some (Inl UndefinedBehaviour, st)
      | Some (new, STATE_RESOLVED) \<Rightarrow> Some (Inr new, st)
      | found \<Rightarrow>
          (case (case found of Some (new, _) \<Rightarrow> (Inr new, st) | None \<Rightarrow> createMapping T old st) of
             (Inl e, st1) \<Rightarrow> Some (Inl e, st1)
           | (Inr new, st1) \<Rightarrow>
               (case addProperty T src fuel followRefs (prop_value ip) new (mark_entry old new STATE_RESOLVING st1) of
                  None \<Rightarrow> None
                | Some (Inl e, st2) \<Rightarrow> Some (Inl e, st2)
                | Some (Inr r, st2) \<Rightarrow>
                    Some (Inr r, mark_entry old new (if followRefs then STATE_RESOLVED else STATE_NEW) st2))))"

definition addIndirectProperty ::
    "'t ref_table \<Rightarrow> nat \<Rightarrow> property \<Rightarrow> bool \<Rightarrow> 't cpdf \<Rightarrow> (ref result \<times> 't cpdf) option" where
  "addIndirectProperty T fuel ip followRefs p =
     (if waits_for_credentials T (xref p) then Some (Inl PermissionException, p)
      else if read_only T (xref p) then Some (Inl ReadOnlyDocumentException, p)
      else if getType (prop_value ip) = objRef then Some (Inl ElementBadTypeException, p)
      else
        let n = pdf_id (pdf_of ip); st = start_import n p in
        case pdf_of ip of
          SamePdf \<Rightarrow>
            (case reserve_ref T (xref p) of
               (Inl e, t) \<Rightarrow> Some (Inl e, p\<lparr>xref := t\<rparr>)
             | (Inr r, t) \<Rightarrow>
                 (case registerIndirectProperty T (prop_value ip) r (st\<lparr>table := t\<rparr>) of
                    (res, st1) \<Rightarrow> Some (res, p\<lparr>xref := table st1, change := modified st1\<rparr>)))
        | _ \<Rightarrow> map_option (\<lambda>(res, st1). (res, end_import n st1 p)) (import_property T fuel ip followRefs st))"

section \<open>The contract of the table\<close>

text \<open>
  What the import relies on: a reserved reference was not taken before and is taken then, a change is
  read back and touches nothing else.
\<close>

locale object_pool =
  fixes T :: "'t ref_table" and read :: "'t \<Rightarrow> ref \<Rightarrow> xobj result"
    and taken :: "'t \<Rightarrow> ref \<Rightarrow> bool" and good :: "'t \<Rightarrow> bool"
  assumes reserve: "good t \<Longrightarrow> reserve_ref T t = (Inr r, t') \<Longrightarrow>
      \<not> taken t r \<and> isRefValid r \<and> taken t' = (taken t)(r := True) \<and> read t' = read t \<and> good t'"
    and change: "good t \<Longrightarrow> change_object T t r v = (Inr u, t') \<Longrightarrow>
      read t' = (read t)(r := Inr v) \<and> taken t' = taken t \<and> good t'"
begin

end

section \<open>What a mapping promises\<close>

fun rename :: "(ref \<Rightarrow> ref) \<Rightarrow> xobj \<Rightarrow> xobj" and rename_list :: "(ref \<Rightarrow> ref) \<Rightarrow> xobj list \<Rightarrow> xobj list"
  and rename_dict :: "(ref \<Rightarrow> ref) \<Rightarrow> dict \<Rightarrow> dict" where
  "rename f (XArray xs) = XArray (rename_list f xs)"
| "rename f (XDict d) = XDict (rename_dict f d)"
| "rename f (XStream d s) = XStream (rename_dict f d) s"
| "rename f (XRefObj r) = XRefObj (f r)"
| "rename f v = v"
| "rename_list f [] = []"
| "rename_list f (v # vs) = rename f v # rename_list f vs"
| "rename_dict f [] = []"
| "rename_dict f ((k, v) # d) = (k, rename f v) # rename_dict f d"

lemma rename_cong:
  "(\<And>r. r \<in> refs_in v \<Longrightarrow> f r = g r) \<Longrightarrow> rename f v = rename g v"
  "(\<And>r. r \<in> refs_in_list vs \<Longrightarrow> f r = g r) \<Longrightarrow> rename_list f vs = rename_list g vs"
  "(\<And>r. r \<in> refs_in_dict d \<Longrightarrow> f r = g r) \<Longrightarrow> rename_dict f d = rename_dict g d"
  by (induction f v and f vs and f d rule: rename_rename_list_rename_dict.induct) auto

definition new_of :: "ref_mapping \<Rightarrow> ref \<Rightarrow> ref" where
  "new_of c r = (case c r of Some (n, _) \<Rightarrow> n | None \<Rightarrow> r)"

text \<open>An object that is itself a reference keeps the reference of the other document.\<close>

definition copied :: "ref_mapping \<Rightarrow> xobj \<Rightarrow> xobj" where
  "copied c v = top_value v (rename (new_of c) v)"

definition settled :: "ref_mapping \<Rightarrow> ref set" where
  "settled c = {r. \<exists>n s. c r = Some (n, s) \<and> s \<noteq> STATE_NEW}"

text \<open>How a mapping grows: targets stay, settled entries stay as they are, none is left resolving.\<close>

definition extends :: "ref_mapping \<Rightarrow> ref_mapping \<Rightarrow> bool" where
  "extends c c' \<longleftrightarrow>
     (\<forall>r n s. c r = Some (n, s) \<longrightarrow> (\<exists>s'. c' r = Some (n, s') \<and> (s \<noteq> STATE_NEW \<longrightarrow> s' = s))) \<and>
     (\<forall>r n. c' r = Some (n, STATE_RESOLVING) \<longrightarrow> c r = Some (n, STATE_RESOLVING))"

lemma extends_refl [simp]: "extends c c"
  by (simp add: extends_def)

lemma extendsD:
  "extends c c' \<Longrightarrow> c r = Some (n, s) \<Longrightarrow> \<exists>s'. c' r = Some (n, s') \<and> (s \<noteq> STATE_NEW \<longrightarrow> s' = s)"
  "extends c c' \<Longrightarrow> c' r = Some (n, STATE_RESOLVING) \<Longrightarrow> c r = Some (n, STATE_RESOLVING)"
  by (simp_all add: extends_def)

lemma extends_trans:
  assumes "extends c c1" "extends c1 c2"
  shows "extends c c2"
  unfolding extends_def
proof (intro conjI allI impI)
  fix r n s assume "c r = Some (n, s)"
  with extendsD(1) [OF assms(1)] obtain s1 where 1: "c1 r = Some (n, s1)" "s \<noteq> STATE_NEW \<longrightarrow> s1 = s" by blast
  from extendsD(1) [OF assms(2) 1(1)] obtain s2 where
    "c2 r = Some (n, s2)" "s1 \<noteq> STATE_NEW \<longrightarrow> s2 = s1" by blast
  with 1(2) show "\<exists>s'. c2 r = Some (n, s') \<and> (s \<noteq> STATE_NEW \<longrightarrow> s' = s)" by auto
next
  fix r n assume "c2 r = Some (n, STATE_RESOLVING)"
  with extendsD(2) [OF assms(2)] extendsD(2) [OF assms(1)] show "c r = Some (n, STATE_RESOLVING)" by blast
qed

lemma extends_new_of: "extends c c' \<Longrightarrow> r \<in> settled c \<Longrightarrow> new_of c' r = new_of c r"
  by (fastforce simp: extends_def settled_def new_of_def)

lemma extends_settled: "extends c c' \<Longrightarrow> settled c \<subseteq> settled c'"
  unfolding extends_def settled_def by blast

lemma copied_cong:
  "(\<And>r. r \<in> refs_in v \<Longrightarrow> new_of c r = new_of c' r) \<Longrightarrow> copied c v = copied c' v"
  unfolding copied_def using rename_cong(1) [of v "new_of c" "new_of c'"] by simp

text \<open>
  The promise, for the source \<open>f\<close>: targets are taken references, each of one source only, and a
  resolved entry is backed by a copy of the object it stands for, whose references are settled.
\<close>

definition mapping_ok ::
    "('t \<Rightarrow> ref \<Rightarrow> xobj result) \<Rightarrow> ('t \<Rightarrow> ref \<Rightarrow> bool) \<Rightarrow> ('t \<Rightarrow> bool) \<Rightarrow> (ref \<Rightarrow> xobj result)
     \<Rightarrow> 't import \<Rightarrow> bool" where
  "mapping_ok read taken good f st \<longleftrightarrow>
     good (table st) \<and>
     (\<forall>r n s. container st r = Some (n, s) \<longrightarrow> taken (table st) n \<and> isRefValid n) \<and>
     (\<forall>r r' n s s'. container st r = Some (n, s) \<longrightarrow> container st r' = Some (n, s') \<longrightarrow> r = r') \<and>
     (\<forall>r n. container st r = Some (n, STATE_RESOLVED) \<longrightarrow>
        (\<exists>v. f r = Inr v \<and> read (table st) n = Inr (copied (container st) v) \<and>
          refs_in v \<subseteq> settled (container st)))"

text \<open>New targets are new references; what was taken stays, unless it is the target of a new entry.\<close>

definition untouched ::
    "('t \<Rightarrow> ref \<Rightarrow> xobj result) \<Rightarrow> ('t \<Rightarrow> ref \<Rightarrow> bool) \<Rightarrow> 't import \<Rightarrow> 't import \<Rightarrow> bool" where
  "untouched read taken st st' \<longleftrightarrow>
     (\<forall>n. taken (table st) n \<longrightarrow> taken (table st') n) \<and>
     (\<forall>r n s. container st' r = Some (n, s) \<longrightarrow> container st r = None \<longrightarrow> \<not> taken (table st) n) \<and>
     (\<forall>n. taken (table st) n \<longrightarrow> (\<forall>r. container st r \<noteq> Some (n, STATE_NEW)) \<longrightarrow>
        read (table st') n = read (table st) n)"

definition import_step ::
    "('t \<Rightarrow> ref \<Rightarrow> xobj result) \<Rightarrow> ('t \<Rightarrow> ref \<Rightarrow> bool) \<Rightarrow> 't import \<Rightarrow> 't import \<Rightarrow> bool" where
  "import_step read taken st st' \<longleftrightarrow>
     extends (container st) (container st') \<and> untouched read taken st st'"

lemma import_step_refl [simp]: "import_step read taken st st"
  by (simp add: import_step_def untouched_def)

lemma untouchedD:
  assumes "untouched read taken st st'"
  shows "taken (table st) n \<Longrightarrow> taken (table st') n"
    "container st' r = Some (n, s) \<Longrightarrow> container st r = None \<Longrightarrow> \<not> taken (table st) n"
    "taken (table st) n \<Longrightarrow> (\<And>r. container st r \<noteq> Some (n, STATE_NEW)) \<Longrightarrow>
       read (table st') n = read (table st) n"
  using assms unfolding untouched_def by blast+

lemma import_step_trans:
  assumes "import_step read taken st st1" "import_step read taken st1 st2"
  shows "import_step read taken st st2"
proof -
  have e: "extends (container st) (container st1)" "extends (container st1) (container st2)"
    and u: "untouched read taken st st1" "untouched read taken st1 st2"
    using assms by (simp_all add: import_step_def)
  have new: "container st1 r \<noteq> Some (n, STATE_NEW)"
    if t: "taken (table st) n" and n: "\<And>r. container st r \<noteq> Some (n, STATE_NEW)" for r n
  proof
    assume 1: "container st1 r = Some (n, STATE_NEW)"
    show False
    proof (cases "container st r")
      case None
      from untouchedD(2) [OF u(1) 1 None] t show False by simp
    next
      case (Some p)
      obtain n' s' where p: "p = (n', s')" by force
      from extendsD(1) [OF e(1) Some [unfolded p]] 1 Some p n show False by auto
    qed
  qed
  have "untouched read taken st st2"
    unfolding untouched_def
  proof (intro conjI allI impI)
    fix n assume "taken (table st) n"
    then show "taken (table st2) n" by (intro untouchedD(1) [OF u(2)] untouchedD(1) [OF u(1)])
  next
    fix r n s assume 2: "container st2 r = Some (n, s)" and 0: "container st r = None"
    show "\<not> taken (table st) n"
    proof (cases "container st1 r")
      case None
      from untouchedD(2) [OF u(2) 2 None] untouchedD(1) [OF u(1)] show ?thesis by blast
    next
      case (Some p)
      obtain n' s' where p: "p = (n', s')" by force
      from extendsD(1) [OF e(2) Some [unfolded p]] 2 have "n' = n" by auto
      with untouchedD(2) [OF u(1) Some [unfolded p] 0] show ?thesis by simp
    qed
  next
    fix n assume t: "taken (table st) n" and n: "\<forall>r. container st r \<noteq> Some (n, STATE_NEW)"
    have "read (table st2) n = read (table st1) n"
      by (rule untouchedD(3) [OF u(2) untouchedD(1) [OF u(1) t]]) (rule new [OF t], use n in blast)
    also have "\<dots> = read (table st) n"
      by (rule untouchedD(3) [OF u(1) t]) (use n in blast)
    finally show "read (table st2) n = read (table st) n" .
  qed
  with extends_trans [OF e] show ?thesis by (simp add: import_step_def)
qed

lemma mapping_okD:
  assumes "mapping_ok read taken good f st"
  shows "good (table st)" "container st r = Some (n, s) \<Longrightarrow> taken (table st) n"
    "container st r = Some (n, s) \<Longrightarrow> isRefValid n"
    "container st r = Some (n, s) \<Longrightarrow> container st r' = Some (n, s') \<Longrightarrow> r = r'"
    "container st r = Some (n, STATE_RESOLVED) \<Longrightarrow>
      \<exists>v. f r = Inr v \<and> read (table st) n = Inr (copied (container st) v) \<and> refs_in v \<subseteq> settled (container st)"
  using assms unfolding mapping_ok_def by blast+

text \<open>A change of state of one entry.\<close>

lemma set_state_simps [simp]:
  "table (set_state r n s st) = table st"
  "container (set_state r n s st) = (container st)(r \<mapsto> (n, s))"
  by (simp_all add: set_state_def)

lemma new_of_set_state: "c r = Some (n, s) \<Longrightarrow> new_of (c(r \<mapsto> (n, s'))) = new_of c"
  by (auto simp: new_of_def fun_eq_iff)

lemma settled_upd: "s' \<noteq> STATE_NEW \<Longrightarrow> settled (c(r \<mapsto> (n, s'))) = insert r (settled c)"
  by (auto simp: settled_def)

lemma mapping_ok_resolving:
  assumes ok: "mapping_ok read taken good f st" and r: "container st r = Some (n, STATE_NEW)"
  shows "mapping_ok read taken good f (set_state r n STATE_RESOLVING st)"
  unfolding mapping_ok_def set_state_simps
proof (intro conjI allI impI)
  show "good (table st)" by (rule mapping_okD(1) [OF ok])
next
  fix q m s assume "((container st)(r \<mapsto> (n, STATE_RESOLVING))) q = Some (m, s)"
  then obtain s' where "container st q = Some (m, s')" using r by (cases "q = r") auto
  then show "taken (table st) m" "isRefValid m" using mapping_okD(2,3) [OF ok] by blast+
next
  fix q q' m s s'
  assume "((container st)(r \<mapsto> (n, STATE_RESOLVING))) q = Some (m, s)"
    "((container st)(r \<mapsto> (n, STATE_RESOLVING))) q' = Some (m, s')"
  then obtain s1 s2 where "container st q = Some (m, s1)" "container st q' = Some (m, s2)"
    using r by (metis fun_upd_apply option.inject prod.inject)
  then show "q = q'" by (rule mapping_okD(4) [OF ok])
next
  fix q m assume "((container st)(r \<mapsto> (n, STATE_RESOLVING))) q = Some (m, STATE_RESOLVED)"
  then have q: "container st q = Some (m, STATE_RESOLVED)" by (auto split: if_splits)
  from mapping_okD(5) [OF ok q] obtain v where
    v: "f q = Inr v" "read (table st) m = Inr (copied (container st) v)" "refs_in v \<subseteq> settled (container st)" by blast
  have "copied ((container st)(r \<mapsto> (n, STATE_RESOLVING))) v = copied (container st) v"
    by (rule copied_cong) (simp add: new_of_set_state [of "container st", OF r])
  with v show "\<exists>v. f q = Inr v \<and>
      read (table st) m = Inr (copied ((container st)(r \<mapsto> (n, STATE_RESOLVING))) v) \<and>
      refs_in v \<subseteq> settled ((container st)(r \<mapsto> (n, STATE_RESOLVING)))"
    by (intro exI [of _ v]) (auto simp: settled_upd)
qed

context object_pool
begin

lemma createMapping_ok:
  assumes c: "createMapping T r st = (Inr n, st1)" and ok: "mapping_ok read taken good f st"
    and none: "isRefValid r \<Longrightarrow> container st r = None"
  shows "mapping_ok read taken good f st1" "import_step read taken st st1"
    "isRefValid r \<Longrightarrow> container st1 = (container st)(r \<mapsto> (n, STATE_NEW))"
    "\<not> isRefValid r \<Longrightarrow> container st1 = container st"
    "\<not> taken (table st) n" "taken (table st1) n" "read (table st1) = read (table st)"
proof -
  from c obtain t where r: "reserve_ref T (table st) = (Inr n, t)"
    and st1: "st1 = (let st1 = st\<lparr>table := t\<rparr> in
      if isRefValid r \<and> container st r = None then set_state r n STATE_NEW st1 else st1)"
    by (auto simp: createMapping_def split: prod.splits sum.splits)
  note t = reserve [OF mapping_okD(1) [OF ok] r]
  show cont: "isRefValid r \<Longrightarrow> container st1 = (container st)(r \<mapsto> (n, STATE_NEW))"
    "\<not> isRefValid r \<Longrightarrow> container st1 = container st"
    using none st1 by (simp_all add: Let_def)
  have tab: "table st1 = t" using st1 by (simp add: Let_def)
  show "\<not> taken (table st) n" "taken (table st1) n" "read (table st1) = read (table st)"
    using t tab by simp_all
  have sub: "container st1 q = Some (m, s) \<Longrightarrow> container st q = Some (m, s) \<or> (q = r \<and> m = n \<and> s = STATE_NEW)"
    for q m s using cont by (cases "isRefValid r") (auto split: if_splits)
  have ext: "container st q = Some p \<Longrightarrow> container st1 q = Some p" for q p
    using cont none by (cases "isRefValid r") auto
  have old: "container st q = Some (m, s) \<Longrightarrow> m \<noteq> n" for q m s
    using mapping_okD(2) [OF ok] t by blast
  have nw: "new_of (container st1) q = new_of (container st) q" if "q \<in> settled (container st)" for q
    using that ext by (fastforce simp: settled_def new_of_def)
  show "mapping_ok read taken good f st1"
    unfolding mapping_ok_def
  proof (intro conjI allI impI)
    show "good (table st1)" using t tab by simp
  next
    fix q m s assume "container st1 q = Some (m, s)"
    with sub have "container st q = Some (m, s) \<or> m = n" by blast
    then show "taken (table st1) m" "isRefValid m"
      using mapping_okD(2,3) [OF ok] t tab by auto
  next
    fix q q' m s s' assume "container st1 q = Some (m, s)" "container st1 q' = Some (m, s')"
    with sub old mapping_okD(4) [OF ok] show "q = q'" by blast
  next
    fix q m assume "container st1 q = Some (m, STATE_RESOLVED)"
    with sub have "container st q = Some (m, STATE_RESOLVED)" by blast
    from mapping_okD(5) [OF ok this] obtain v where
      v: "f q = Inr v" "read (table st) m = Inr (copied (container st) v)"
        "refs_in v \<subseteq> settled (container st)" by blast
    have "copied (container st1) v = copied (container st) v"
      by (rule copied_cong) (use nw v(3) in blast)
    moreover have "settled (container st) \<subseteq> settled (container st1)"
      using ext by (auto simp: settled_def)
    ultimately show "\<exists>v. f q = Inr v \<and> read (table st1) m = Inr (copied (container st1) v) \<and>
        refs_in v \<subseteq> settled (container st1)"
      using v t tab by (intro exI [of _ v]) auto
  qed
  show "import_step read taken st st1"
    unfolding import_step_def extends_def untouched_def
    using ext sub t tab by (auto dest: sub)
qed

lemma map_ref_ok:
  assumes m: "map_ref T r st = (Inr u, st1)" and ok: "mapping_ok read taken good f st"
  shows "mapping_ok read taken good f st1 \<and> import_step read taken st st1"
proof (cases "container st r")
  case None
  with m obtain n where "createMapping T r st = (Inr n, st1)"
    by (auto simp: map_ref_def split: prod.splits sum.splits)
  with createMapping_ok(1,2) [OF this ok None] show ?thesis by blast
next
  case (Some p)
  with m ok show ?thesis by (simp add: map_ref_def)
qed

lemma registered:
  assumes "registerIndirectProperty T v n st = (Inr n', st1)" "good (table st)"
  shows "n' = n" "container st1 = container st" "read (table st1) = (read (table st))(n := Inr v)"
    "taken (table st1) = taken (table st)" "good (table st1)"
proof -
  from assms(1) obtain u t where c: "change_object T (table st) n v = (Inr u, t)"
    and s: "n' = n" "st1 = st\<lparr>table := t, modified := True\<rparr>"
    by (auto simp: registerIndirectProperty_def split: prod.splits sum.splits)
  note c = change [OF assms(2) c]
  show "n' = n" "container st1 = container st" "read (table st1) = (read (table st))(n := Inr v)"
    "taken (table st1) = taken (table st)" "good (table st1)"
    using s c by simp_all
qed

end

lemma subs_ref_Inr:
  assumes "subsReferencies T (Some f) fuel True (XRefObj r) st = Some (Inr w, st')"
  obtains (mapped) st1 n s where "map_ref T r st = (Inr (), st1)" "container st1 r = Some (n, s)"
      "s \<noteq> STATE_NEW" "w = XRefObj n" "st' = st1"
  | (followed) st1 n v m w' st2 n' st3 where "map_ref T r st = (Inr (), st1)"
      "container st1 r = Some (n, STATE_NEW)" "f r = Inr v" "fuel = Suc m"
      "subsReferencies T (Some f) m True v (set_state r n STATE_RESOLVING st1) = Some (Inr w', st2)"
      "registerIndirectProperty T (top_value v w') n st2 = (Inr n', st3)"
      "w = XRefObj n" "st' = set_state r n STATE_RESOLVED st3"
proof -
  from assms obtain st1 where m: "map_ref T r st = (Inr (), st1)"
    by (auto simp: subsReferencies.simps(1) split: prod.splits sum.splits)
  note a = assms [unfolded subsReferencies.simps(1) m]
  from a obtain n s where c: "container st1 r = Some (n, s)"
    by (auto split: option.splits)
  show ?thesis
  proof (cases "s = STATE_NEW")
    case False
    with a c have "w = XRefObj n" "st' = st1" by auto
    with mapped m c False show ?thesis by blast
  next
    case True
    from a c True obtain v where v: "f r = Inr v" by (auto split: sum.splits)
    from a c True v obtain k where k: "fuel = Suc k" by (auto split: nat.splits)
    from a c True v k obtain w' st2 where
      s: "subsReferencies T (Some f) k True v (set_state r n STATE_RESOLVING st1) = Some (Inr w', st2)"
      by (auto split: option.splits sum.splits)
    from a c True v k s obtain n' st3 where
      g: "registerIndirectProperty T (top_value v w') n st2 = (Inr n', st3)"
      by (auto split: prod.splits sum.splits)
    from a c True v k s g have "w = XRefObj n" "st' = set_state r n STATE_RESOLVED st3" by auto
    with followed m c True v k s g show ?thesis by blast
  qed
qed

context object_pool
begin

lemma followed_ok:
  assumes ok1: "mapping_ok read taken good f st1" and n: "container st1 r = Some (n, STATE_NEW)"
    and v: "f r = Inr v"
    and sub: "mapping_ok read taken good f st2"
      "import_step read taken (set_state r n STATE_RESOLVING st1) st2"
      "w = rename (new_of (container st2)) v" "refs_in v \<subseteq> settled (container st2)"
    and g: "registerIndirectProperty T (top_value v w) n st2 = (Inr n', st3)"
  shows "mapping_ok read taken good f (set_state r n STATE_RESOLVED st3)"
    "import_step read taken st1 (set_state r n STATE_RESOLVED st3)"
proof -
  let ?st = "set_state r n STATE_RESOLVED st3"
  note reg = registered [OF g mapping_okD(1) [OF sub(1)]]
  have e: "extends ((container st1)(r \<mapsto> (n, STATE_RESOLVING))) (container st2)"
    and u: "untouched read taken (set_state r n STATE_RESOLVING st1) st2"
    using sub(2) by (simp_all add: import_step_def)
  have c2: "container st2 r = Some (n, STATE_RESOLVING)"
    using extendsD(1) [OF e, of r n STATE_RESOLVING] by simp
  have nw: "new_of (container ?st) = new_of (container st2)"
    using reg(2) by (simp add: new_of_set_state [of "container st2", OF c2])
  have se: "settled (container ?st) = insert r (settled (container st2))"
    using reg(2) by (simp add: settled_upd)
  have rs: "r \<in> settled (container st2)" using c2 by (auto simp: settled_def)
  have before: "\<exists>s'. container st2 q = Some (m, s') \<and> (q \<noteq> r \<longrightarrow> s' = s)"
    if "container ?st q = Some (m, s)" for q m s
    using that c2 reg(2) by (auto split: if_splits)
  have cp: "copied (container ?st) x = copied (container st2) x" for x
    by (rule copied_cong) (simp only: nw)
  show "mapping_ok read taken good f ?st"
    unfolding mapping_ok_def
  proof (intro conjI allI impI)
    show "good (table ?st)" using reg(5) by simp
  next
    fix q m s assume "container ?st q = Some (m, s)"
    with before obtain s' where "container st2 q = Some (m, s')" by blast
    then show "taken (table ?st) m" "isRefValid m"
      using mapping_okD(2,3) [OF sub(1)] reg(4) by auto
  next
    fix q q' m s s' assume "container ?st q = Some (m, s)" "container ?st q' = Some (m, s')"
    with before obtain s1 s2 where "container st2 q = Some (m, s1)" "container st2 q' = Some (m, s2)" by blast
    then show "q = q'" by (rule mapping_okD(4) [OF sub(1)])
  next
    fix q m assume q: "container ?st q = Some (m, STATE_RESOLVED)"
    show "\<exists>v. f q = Inr v \<and> read (table ?st) m = Inr (copied (container ?st) v) \<and>
        refs_in v \<subseteq> settled (container ?st)"
    proof (cases "q = r")
      case True
      then have "m = n" using q by simp
      then have "read (table ?st) m = Inr (top_value v w)" using reg(3) by simp
      also have "top_value v w = copied (container ?st) v" unfolding cp by (simp only: copied_def sub(3))
      finally show ?thesis using True v sub(4) se by auto
    next
      case False
      with before [OF q] have c: "container st2 q = Some (m, STATE_RESOLVED)" by blast
      from mapping_okD(5) [OF sub(1) c] obtain x where
        x: "f q = Inr x" "read (table st2) m = Inr (copied (container st2) x)" "refs_in x \<subseteq> settled (container st2)"
        by blast
      have "m \<noteq> n" using mapping_okD(4) [OF sub(1) c] c2 False by blast
      with x reg(3) se show ?thesis unfolding cp by auto
    qed
  qed
  have "extends (container st1) (container ?st)"
    unfolding extends_def
  proof (intro conjI allI impI)
    fix q m s assume q: "container st1 q = Some (m, s)"
    show "\<exists>s'. container ?st q = Some (m, s') \<and> (s \<noteq> STATE_NEW \<longrightarrow> s' = s)"
    proof (cases "q = r")
      case True
      with q n show ?thesis by simp
    next
      case False
      with extendsD(1) [OF e, of q m s] q reg(2) show ?thesis by simp
    qed
  next
    fix q m assume "container ?st q = Some (m, STATE_RESOLVING)"
    then have "q \<noteq> r" "container st2 q = Some (m, STATE_RESOLVING)" using reg(2) by (auto split: if_splits)
    with extendsD(2) [OF e this(2)] show "container st1 q = Some (m, STATE_RESOLVING)" by simp
  qed
  moreover have "untouched read taken st1 ?st"
    unfolding untouched_def
  proof (intro conjI allI impI)
    fix m assume "taken (table st1) m"
    with untouchedD(1) [OF u, of m] reg(4) show "taken (table ?st) m" by simp
  next
    fix q m s assume a: "container ?st q = Some (m, s)" "container st1 q = None"
    then have "q \<noteq> r" using n by auto
    moreover from before [OF a(1)] obtain s' where "container st2 q = Some (m, s')" by blast
    ultimately show "\<not> taken (table st1) m" using untouchedD(2) [OF u, of q m s'] a(2) by simp
  next
    fix m assume a: "taken (table st1) m" "\<forall>q. container st1 q \<noteq> Some (m, STATE_NEW)"
    then have "m \<noteq> n" using n by blast
    then have "read (table ?st) m = read (table st2) m" using reg(3) by simp
    also have "\<dots> = read (table (set_state r n STATE_RESOLVING st1)) m"
      by (rule untouchedD(3) [OF u]) (use a in \<open>auto split: if_splits\<close>)
    finally show "read (table ?st) m = read (table st1) m" by simp
  qed
  ultimately show "import_step read taken st1 ?st" by (simp add: import_step_def)
qed

end

lemma map_sum_Inr_iff: "map_sum id h a = Inr w \<longleftrightarrow> (\<exists>x. a = Inr x \<and> w = h x)"
  by (cases a) auto

lemma subs_array_Inr:
  assumes "subs_array T src fuel fo (x # xs) st = Some (Inr ws, st')"
  shows "\<exists>y st1 ys. subsReferencies T src fuel fo x st = Some (Inr y, st1) \<and>
    subs_array T src fuel fo xs st1 = Some (Inr ys, st') \<and> ws = y # ys"
proof -
  from assms obtain y st1 where x: "subsReferencies T src fuel fo x st = Some (Inr y, st1)"
    by (auto simp: subs_array.simps split: option.splits sum.splits prod.splits)
  with assms obtain res where r: "subs_array T src fuel fo xs st1 = Some (res, st')"
    "map_sum id (\<lambda>ys. y # ys) res = Inr ws"
    by (auto simp: subs_array.simps)
  with x show ?thesis by (cases res) auto
qed

lemma subs_dict_Inr:
  assumes "subs_dict T src fuel fo ((k, x) # d) st = Some (Inr ws, st')"
  shows "\<exists>y st1 d'. subsReferencies T src fuel fo x st = Some (Inr y, st1) \<and>
    subs_dict T src fuel fo d st1 = Some (Inr d', st') \<and> ws = (k, y) # d'"
proof -
  from assms obtain y st1 where x: "subsReferencies T src fuel fo x st = Some (Inr y, st1)"
    by (auto simp: subs_dict.simps split: option.splits sum.splits prod.splits)
  with assms obtain res where r: "subs_dict T src fuel fo d st1 = Some (res, st')"
    "map_sum id (\<lambda>d'. (k, y) # d') res = Inr ws"
    by (auto simp: subs_dict.simps)
  with x show ?thesis by (cases res) auto
qed

context object_pool
begin

abbreviation sound :: "(ref \<Rightarrow> xobj result) \<Rightarrow> 't import \<Rightarrow> 't import \<Rightarrow> bool" where
  "sound f st st' \<equiv> mapping_ok read taken good f st' \<and> import_step read taken st st'"

lemma import_step_new_of:
  "import_step read taken st st' \<Longrightarrow> r \<in> settled (container st) \<Longrightarrow>
     new_of (container st') r = new_of (container st) r"
  by (simp add: import_step_def extends_new_of)

lemma import_step_settled:
  "import_step read taken st st' \<Longrightarrow> settled (container st) \<subseteq> settled (container st')"
  by (simp add: import_step_def extends_settled)

lemma sound_trans: "sound f st st1 \<Longrightarrow> sound f st1 st2 \<Longrightarrow> sound f st st2"
  using import_step_trans by blast

lemma rename_later:
  assumes "import_step read taken st st'" "refs_in v \<subseteq> settled (container st)"
  shows "rename (new_of (container st)) v = rename (new_of (container st')) v"
    "refs_in v \<subseteq> settled (container st')"
proof -
  show "rename (new_of (container st)) v = rename (new_of (container st')) v"
    by (rule rename_cong(1)) (use assms import_step_new_of [of st st'] in auto)
  show "refs_in v \<subseteq> settled (container st')"
    using assms import_step_settled [of st st'] by blast
qed

lemma subs_sound:
  "subsReferencies U src fuel follow v st = Some (Inr w, st') \<Longrightarrow> U = T \<Longrightarrow> src = Some f \<Longrightarrow> follow \<Longrightarrow>
     mapping_ok read taken good f st \<Longrightarrow>
     sound f st st' \<and> w = rename (new_of (container st')) v \<and> refs_in v \<subseteq> settled (container st')"
  "subs_array U src fuel follow vs st = Some (Inr ws, st') \<Longrightarrow> U = T \<Longrightarrow> src = Some f \<Longrightarrow> follow \<Longrightarrow>
     mapping_ok read taken good f st \<Longrightarrow>
     sound f st st' \<and> ws = rename_list (new_of (container st')) vs \<and> refs_in_list vs \<subseteq> settled (container st')"
  "subs_dict U src fuel follow d st = Some (Inr d', st') \<Longrightarrow> U = T \<Longrightarrow> src = Some f \<Longrightarrow> follow \<Longrightarrow>
     mapping_ok read taken good f st \<Longrightarrow>
     sound f st st' \<and> d' = rename_dict (new_of (container st')) d \<and> refs_in_dict d \<subseteq> settled (container st')"
proof (induction U src fuel follow v st and U src fuel follow vs st and U src fuel follow d st
    arbitrary: w st' and ws st' and d' st'
    rule: subsReferencies_subs_array_subs_dict.induct)
  case (1 U src fuel follow r st)
  have eq: "U = T" "src = Some f" "follow" using "1.prems" by simp_all
  from "1.prems"(1) [unfolded eq(1,2)] eq(3)
  have "subsReferencies T (Some f) fuel True (XRefObj r) st = Some (Inr w, st')" by simp
  then show ?case
  proof (cases rule: subs_ref_Inr)
    case (mapped st1 n s)
    with map_ref_ok [OF mapped(1) "1.prems"(5)] show ?thesis
      by (auto simp: new_of_def settled_def)
  next
    case (followed st1 n v m w' st2 n' st3)
    note m = map_ref_ok [OF followed(1) "1.prems"(5)]
    let ?st = "set_state r n STATE_RESOLVING st1"
    have ok: "mapping_ok read taken good f ?st"
      using m followed(2) by (intro mapping_ok_resolving) simp_all
    have "sound f ?st st2 \<and> w' = rename (new_of (container st2)) v \<and> refs_in v \<subseteq> settled (container st2)"
      using "1.IH" [of "Inr ()" st1 "()" "(n, STATE_NEW)" n STATE_NEW v m w' st2] followed eq ok by simp
    then have sub: "mapping_ok read taken good f st2" "import_step read taken ?st st2"
      "w' = rename (new_of (container st2)) v" "refs_in v \<subseteq> settled (container st2)" by simp_all
    have "mapping_ok read taken good f st1" using m by simp
    note fo = followed_ok [OF this followed(2,3) sub followed(6)]
    have "container st' r = Some (n, STATE_RESOLVED)" using followed(8) by simp
    then have "new_of (container st') r = n" "r \<in> settled (container st')"
      by (auto simp: new_of_def settled_def)
    moreover have "import_step read taken st st'"
      unfolding followed(8) by (rule import_step_trans [OF conjunct2 [OF m] fo(2)])
    ultimately show ?thesis using fo(1) [folded followed(8)] followed(7) by simp
  qed
next
  case (7 U src fuel follow x xs st)
  from subs_array_Inr [OF "7.prems"(1)] obtain y st1 ys where
    x: "subsReferencies U src fuel follow x st = Some (Inr y, st1)"
      "subs_array U src fuel follow xs st1 = Some (Inr ys, st')" "ws = y # ys" by blast
  note a = "7.IH"(1) [OF x(1) "7.prems"(2-5)]
  note b = "7.IH"(2) [OF x(1) refl refl x(2) "7.prems"(2-4) conjunct1 [OF conjunct1 [OF a]]]
  have st: "import_step read taken st1 st'" and rx: "refs_in x \<subseteq> settled (container st1)"
    using a b by simp_all
  have "sound f st st'" by (rule sound_trans [of f st1 st st']) (use a b in simp_all)
  with x(3) a b rename_later [OF st rx] show ?case by simp
next
  case (9 U src fuel follow k x d st)
  from subs_dict_Inr [OF "9.prems"(1)] obtain y st1 d1 where
    x: "subsReferencies U src fuel follow x st = Some (Inr y, st1)"
      "subs_dict U src fuel follow d st1 = Some (Inr d1, st')" "d' = (k, y) # d1" by blast
  note a = "9.IH"(1) [OF x(1) "9.prems"(2-5)]
  note b = "9.IH"(2) [OF x(1) refl refl x(2) "9.prems"(2-4) conjunct1 [OF conjunct1 [OF a]]]
  have st: "import_step read taken st1 st'" and rx: "refs_in x \<subseteq> settled (container st1)"
    using a b by simp_all
  have "sound f st st'" by (rule sound_trans [of f st1 st st']) (use a b in simp_all)
  with x(3) a b rename_later [OF st rx] show ?case by simp
qed (auto simp: subsReferencies.simps subs_array.simps subs_dict.simps map_sum_Inr_iff)

end

section \<open>The import ends\<close>

lemma map_ref_settled:
  assumes "map_ref T r st = (res, st1)"
  shows "settled (container st1) = settled (container st)"
    "container st r = Some p \<Longrightarrow> container st1 r = Some p"
    "container st1 r = Some (n, s) \<Longrightarrow> s \<noteq> STATE_NEW \<Longrightarrow> container st r = Some (n, s)"
proof -
  have *: "container st1 = container st \<or> (container st r = None \<and> (\<exists>n. container st1 = (container st)(r \<mapsto> (n, STATE_NEW))))"
    using assms by (auto simp: map_ref_def createMapping_def Let_def split: option.splits prod.splits sum.splits if_splits)
  then show "settled (container st1) = settled (container st)"
    by (auto simp: settled_def split: if_splits)
  from * show "container st r = Some p \<Longrightarrow> container st1 r = Some p"
    "container st1 r = Some (n, s) \<Longrightarrow> s \<noteq> STATE_NEW \<Longrightarrow> container st r = Some (n, s)" by auto
qed

lemma register_container:
  "registerIndirectProperty T v n st = (res, st') \<Longrightarrow> container st' = container st"
  by (auto simp: registerIndirectProperty_def split: prod.splits sum.splits)

lemma settled_grows:
  "subsReferencies T src fuel follow v st = Some (Inr w, st') \<Longrightarrow>
     settled (container st) \<subseteq> settled (container st')"
  "subs_array T src fuel follow vs st = Some (Inr ws, st') \<Longrightarrow>
     settled (container st) \<subseteq> settled (container st')"
  "subs_dict T src fuel follow d st = Some (Inr d', st') \<Longrightarrow>
     settled (container st) \<subseteq> settled (container st')"
proof (induction T src fuel follow v st and T src fuel follow vs st and T src fuel follow d st
    arbitrary: w st' and ws st' and d' st'
    rule: subsReferencies_subs_array_subs_dict.induct)
  case (1 T src fuel follow r st)
  from "1.prems" obtain st1 where m: "map_ref T r st = (Inr (), st1)"
    by (auto simp: subsReferencies.simps(1) split: prod.splits sum.splits)
  note a = "1.prems" [unfolded subsReferencies.simps(1) m]
  from a obtain n s where c: "container st1 r = Some (n, s)" by (auto split: option.splits)
  show ?case
  proof (cases "follow \<and> src \<noteq> None \<and> s = STATE_NEW")
    case False
    with a c have "st' = st1" by (auto split: if_splits)
    with map_ref_settled(1) [OF m] show ?thesis by simp
  next
    case True
    with a c obtain v k w' st2 where k: "the src r = Inr v" "fuel = Suc k"
      "subsReferencies T src k True v (set_state r n STATE_RESOLVING st1) = Some (Inr w', st2)"
      by (auto split: option.splits sum.splits nat.splits)
    with a c True obtain n' st3 where
      g: "registerIndirectProperty T (top_value v w') n st2 = (Inr n', st3)" "st' = set_state r n STATE_RESOLVED st3"
      by (auto split: prod.splits sum.splits)
    have "settled (container (set_state r n STATE_RESOLVING st1)) \<subseteq> settled (container st2)"
      using "1.IH" [of "Inr ()" st1 "()" "(n, s)" n s v k w' st2] m c True k by (simp del: fun_upd_apply)
    moreover have "settled (container st) \<subseteq> settled (container (set_state r n STATE_RESOLVING st1))"
      using map_ref_settled(1) [OF m] by (auto simp: settled_upd)
    moreover have "settled (container st2) \<subseteq> settled (container st')"
      using g(2) register_container [OF g(1)] by (auto simp: settled_upd)
    ultimately show ?thesis by blast
  qed
next
  case (7 T src fuel follow x xs st)
  from subs_array_Inr [OF "7.prems"] obtain y st1 ys where
    x: "subsReferencies T src fuel follow x st = Some (Inr y, st1)"
      "subs_array T src fuel follow xs st1 = Some (Inr ys, st')" by blast
  from "7.IH"(1) [OF x(1)] "7.IH"(2) [OF x(1) refl refl x(2)] show ?case by blast
next
  case (9 T src fuel follow k x d st)
  from subs_dict_Inr [OF "9.prems"] obtain y st1 d1 where
    x: "subsReferencies T src fuel follow x st = Some (Inr y, st1)"
      "subs_dict T src fuel follow d st1 = Some (Inr d1, st')" by blast
  from "9.IH"(1) [OF x(1)] "9.IH"(2) [OF x(1) refl refl x(2)] show ?case by blast
qed (auto simp: subsReferencies.simps subs_array.simps subs_dict.simps map_sum_Inr_iff)

text \<open>
  The references of a finite part of the source that is closed under following them: as much fuel is
  enough as references of it are not settled.
\<close>

definition closed_refs :: "(ref \<Rightarrow> xobj result) \<Rightarrow> ref set \<Rightarrow> bool" where
  "closed_refs f S \<longleftrightarrow> finite S \<and> (\<forall>r\<in>S. \<forall>v. f r = Inr v \<longrightarrow> refs_in v \<subseteq> S)"

definition enough :: "ref set \<Rightarrow> nat \<Rightarrow> 't import \<Rightarrow> bool" where
  "enough S fuel st \<longleftrightarrow> card (S - settled (container st)) \<le> fuel"

lemma enough_later:
  assumes "finite S" "enough S fuel st" "settled (container st) \<subseteq> settled (container st')"
  shows "enough S fuel st'"
proof -
  have "card (S - settled (container st')) \<le> card (S - settled (container st))"
    by (rule card_mono) (use assms in auto)
  with assms(2) show ?thesis by (simp add: enough_def)
qed

lemma subs_returns:
  "src = Some f \<Longrightarrow> closed_refs f S \<Longrightarrow> refs_in v \<subseteq> S \<Longrightarrow> enough S fuel st \<Longrightarrow>
     subsReferencies T src fuel follow v st \<noteq> None"
  "src = Some f \<Longrightarrow> closed_refs f S \<Longrightarrow> refs_in_list vs \<subseteq> S \<Longrightarrow> enough S fuel st \<Longrightarrow>
     subs_array T src fuel follow vs st \<noteq> None"
  "src = Some f \<Longrightarrow> closed_refs f S \<Longrightarrow> refs_in_dict d \<subseteq> S \<Longrightarrow> enough S fuel st \<Longrightarrow>
     subs_dict T src fuel follow d st \<noteq> None"
proof (induction T src fuel follow v st and T src fuel follow vs st and T src fuel follow d st
    rule: subsReferencies_subs_array_subs_dict.induct)
  case (1 T src fuel follow r st)
  have r: "r \<in> S" "finite S" using "1.prems"(2,3) by (auto simp: closed_refs_def)
  obtain res st1 where m: "map_ref T r st = (res, st1)" by force
  show ?case
  proof (cases "\<exists>n v. res = Inr () \<and> container st1 r = Some (n, STATE_NEW) \<and> follow \<and> f r = Inr v")
    case False
    with m "1.prems"(1) show ?thesis
      by (auto simp: subsReferencies.simps(1) split: sum.splits option.splits)
  next
    case True
    then obtain n v where c: "res = Inr ()" "container st1 r = Some (n, STATE_NEW)" "follow" "f r = Inr v" by blast
    let ?st = "set_state r n STATE_RESOLVING st1"
    have "r \<notin> settled (container st1)" using c(2) by (auto simp: settled_def)
    then have rn: "r \<notin> settled (container st)" using map_ref_settled(1) [OF m] by simp
    have e: "S - settled (container ?st) = (S - settled (container st)) - {r}"
      using map_ref_settled(1) [OF m] by (auto simp: settled_upd)
    have "0 < card (S - settled (container st))" using r rn by (auto simp: card_gt_0_iff)
    then obtain k where k: "fuel = Suc k" using "1.prems"(4) by (cases fuel) (auto simp: enough_def)
    have "enough S k ?st"
      using "1.prems"(4) k e r rn by (simp add: enough_def card_Diff_singleton)
    moreover have "refs_in v \<subseteq> S" using "1.prems"(2) r(1) c(4) by (auto simp: closed_refs_def)
    ultimately have "subsReferencies T src k True v ?st \<noteq> None"
      using "1.IH" [of "Inr ()" st1 "()" "(n, STATE_NEW)" n STATE_NEW v k] m c k "1.prems"(1,2) by simp
    then show ?thesis using m c k "1.prems"(1)
      by (auto simp: subsReferencies.simps(1) split: sum.splits option.splits prod.splits)
  qed
next
  case (7 T src fuel follow x xs st)
  have fin: "finite S" using "7.prems"(2) by (simp add: closed_refs_def)
  have "subsReferencies T src fuel follow x st \<noteq> None" using "7.IH"(1) "7.prems" by simp
  then obtain res st1 where x: "subsReferencies T src fuel follow x st = Some (res, st1)" by auto
  show ?case
  proof (cases res)
    case (Inr y)
    note x = x [unfolded Inr]
    have "subs_array T src fuel follow xs st1 \<noteq> None"
      using "7.IH"(2) [OF x refl refl "7.prems"(1,2)] "7.prems"(3)
        enough_later [OF fin "7.prems"(4) settled_grows(1) [OF x]] by simp
    with x show ?thesis by (simp add: subs_array.simps del: not_None_eq)
  qed (simp add: subs_array.simps x)
next
  case (9 T src fuel follow k x d st)
  have fin: "finite S" using "9.prems"(2) by (simp add: closed_refs_def)
  have "subsReferencies T src fuel follow x st \<noteq> None" using "9.IH"(1) "9.prems" by simp
  then obtain res st1 where x: "subsReferencies T src fuel follow x st = Some (res, st1)" by auto
  show ?case
  proof (cases res)
    case (Inr y)
    note x = x [unfolded Inr]
    have "subs_dict T src fuel follow d st1 \<noteq> None"
      using "9.IH"(2) [OF x refl refl "9.prems"(1,2)] "9.prems"(3)
        enough_later [OF fin "9.prems"(4) settled_grows(1) [OF x]] by simp
    with x show ?thesis by (simp add: subs_dict.simps del: not_None_eq)
  qed (simp add: subs_dict.simps x)
qed (simp_all add: subsReferencies.simps subs_array.simps subs_dict.simps del: not_None_eq)

lemma subs_without_source:
  "src = None \<Longrightarrow> subsReferencies T src fuel follow v st \<noteq> None"
  "src = None \<Longrightarrow> subs_array T src fuel follow vs st \<noteq> None"
  "src = None \<Longrightarrow> subs_dict T src fuel follow d st \<noteq> None"
  by (induction T src fuel follow v st and T src fuel follow vs st and T src fuel follow d st
      rule: subsReferencies_subs_array_subs_dict.induct)
    (auto simp: subsReferencies.simps subs_array.simps subs_dict.simps split: sum.splits option.splits prod.splits, blast+)

section \<open>One import\<close>

definition no_resolving :: "ref_mapping \<Rightarrow> bool" where
  "no_resolving c \<longleftrightarrow> (\<forall>r n. c r \<noteq> Some (n, STATE_RESOLVING))"

text \<open>What an import has done: the copy is there, and everything it refers to is settled.\<close>

definition imported ::
    "('t \<Rightarrow> ref \<Rightarrow> xobj result) \<Rightarrow> ('t \<Rightarrow> ref \<Rightarrow> bool) \<Rightarrow> ('t \<Rightarrow> bool) \<Rightarrow> (ref \<Rightarrow> xobj result)
     \<Rightarrow> xobj \<Rightarrow> 't import \<Rightarrow> ref \<Rightarrow> 't import \<Rightarrow> bool" where
  "imported read taken good f v st n st' \<longleftrightarrow>
     mapping_ok read taken good f st' \<and> import_step read taken st st' \<and>
     read (table st') n = Inr (copied (container st') v) \<and> refs_in v \<subseteq> settled (container st')"

context object_pool
begin

lemma unmapped_ok:
  assumes step: "import_step read taken st1 st2" and ok: "mapping_ok read taken good f st2"
    and n: "taken (table st1) n" "\<And>q s. container st1 q \<noteq> Some (n, s)"
    and g: "registerIndirectProperty T v n st2 = (Inr n', st3)"
  shows "mapping_ok read taken good f st3"
    "\<And>m. m \<noteq> n \<Longrightarrow> read (table st3) m = read (table st2) m" "read (table st3) n = Inr v"
    "container st3 = container st2" "taken (table st3) = taken (table st2)"
proof -
  note reg = registered [OF g mapping_okD(1) [OF ok]]
  show "\<And>m. m \<noteq> n \<Longrightarrow> read (table st3) m = read (table st2) m" "read (table st3) n = Inr v"
    "container st3 = container st2" "taken (table st3) = taken (table st2)" using reg by simp_all
  have free: "container st2 q \<noteq> Some (n, s)" for q s
  proof
    assume q: "container st2 q = Some (n, s)"
    have u: "untouched read taken st1 st2" and e: "extends (container st1) (container st2)"
      using step by (simp_all add: import_step_def)
    show False
    proof (cases "container st1 q")
      case None
      from untouchedD(2) [OF u q None] n(1) show False by simp
    next
      case (Some p)
      obtain m s' where p: "p = (m, s')" by force
      from extendsD(1) [OF e Some [unfolded p]] q Some p n(2) show False by auto
    qed
  qed
  show "mapping_ok read taken good f st3"
    unfolding mapping_ok_def
  proof (intro conjI allI impI)
    show "good (table st3)" by (rule reg(5))
  next
    fix q m s assume "container st3 q = Some (m, s)"
    then show "taken (table st3) m" "isRefValid m"
      using mapping_okD(2,3) [OF ok] reg(2,4) by auto
  next
    fix q q' m s s' assume "container st3 q = Some (m, s)" "container st3 q' = Some (m, s')"
    then show "q = q'" using mapping_okD(4) [OF ok] reg(2) by simp
  next
    fix q m assume "container st3 q = Some (m, STATE_RESOLVED)"
    then have q: "container st2 q = Some (m, STATE_RESOLVED)" using reg(2) by simp
    with free have "m \<noteq> n" by blast
    with mapping_okD(5) [OF ok q] show "\<exists>v. f q = Inr v \<and>
        read (table st3) m = Inr (copied (container st3) v) \<and> refs_in v \<subseteq> settled (container st3)"
      using reg(2,3) by simp
  qed
qed

lemma add_mapped:
  assumes ok: "mapping_ok read taken good f st1" and n: "container st1 r = Some (n, STATE_NEW)"
    and v: "f r = Inr v"
    and a: "addProperty T (Some f) fuel True v n (set_state r n STATE_RESOLVING st1) = Some (Inr n', st2)"
  shows "n' = n" "sound f st1 (set_state r n STATE_RESOLVED st2)"
    "refs_in v \<subseteq> settled (container (set_state r n STATE_RESOLVED st2))"
proof -
  let ?st = "set_state r n STATE_RESOLVING st1"
  from a obtain w st' where s: "subsReferencies T (Some f) fuel True v ?st = Some (Inr w, st')"
    and g: "registerIndirectProperty T (top_value v w) n st' = (Inr n', st2)"
    by (auto simp: addProperty_def split: option.splits sum.splits prod.splits)
  have sub: "mapping_ok read taken good f st'" "import_step read taken ?st st'"
    "w = rename (new_of (container st')) v" "refs_in v \<subseteq> settled (container st')"
    using subs_sound(1) [OF s refl refl TrueI mapping_ok_resolving [OF ok n]] by simp_all
  note reg = registered [OF g mapping_okD(1) [OF sub(1)]]
  show "n' = n" by (rule reg(1))
  show "sound f st1 (set_state r n STATE_RESOLVED st2)"
    using followed_ok [OF ok n v sub g] by simp
  show "refs_in v \<subseteq> settled (container (set_state r n STATE_RESOLVED st2))"
    using sub(4) reg(2) by (auto simp: settled_upd)
qed

lemma no_resolving_step:
  "import_step read taken st st' \<Longrightarrow> no_resolving (container st) \<Longrightarrow> no_resolving (container st')"
  unfolding import_step_def no_resolving_def extends_def by blast

lemma import_sound:
  assumes run: "import_property T fuel ip True st = Some (Inr n', st')"
    and ok: "mapping_ok read taken good f st" and src: "pdf_source (pdf_of ip) = Some f"
    and v: "isRefValid (indi_ref ip) \<Longrightarrow> f (indi_ref ip) = Inr (prop_value ip)"
    and nr: "no_resolving (container st)"
  shows "imported read taken good f (prop_value ip) st n' st' \<and>
    (isRefValid (indi_ref ip) \<longrightarrow> container st' (indi_ref ip) = Some (n', STATE_RESOLVED))"
proof -
  let ?r = "indi_ref ip" and ?v = "prop_value ip"
  define found where "found = (if isRefValid ?r then container st ?r else None)"
  show ?thesis
  proof (cases "\<exists>n. found = Some (n, STATE_RESOLVED)")
    case True
    then obtain n where n: "isRefValid ?r" "container st ?r = Some (n, STATE_RESOLVED)"
      by (auto simp: found_def split: if_splits)
    with run have "st' = st" "n' = n" by (auto simp: import_property_def)
    with mapping_okD(5) [OF ok n(2)] v [OF n(1)] ok n show ?thesis by (auto simp: imported_def)
  next
    case False
    have f: "found = None \<or> (\<exists>n. found = Some (n, STATE_NEW))"
    proof (cases found)
      case (Some p)
      obtain n s where p: "p = (n, s)" by force
      with False nr Some show ?thesis
        by (cases s) (auto simp: found_def no_resolving_def split: if_splits)
    qed simp
    from f run src obtain n st1 st2 where
      c: "(case found of Some (n, _) \<Rightarrow> (Inr n, st) | None \<Rightarrow> createMapping T ?r st) = (Inr n, st1)"
      and a: "addProperty T (Some f) fuel True ?v n (mark_entry ?r n STATE_RESOLVING st1) = Some (Inr n', st2)"
      and st': "st' = mark_entry ?r n STATE_RESOLVED st2"
      unfolding import_property_def found_def [symmetric] Let_def
      by (auto split: option.splits sum.splits prod.splits if_splits)
    show ?thesis
    proof (cases "isRefValid ?r")
      case True
      have m: "container st1 ?r = Some (n, STATE_NEW) \<and> sound f st st1"
      proof (cases found)
        case None
        with True have none: "container st ?r = None" by (simp add: found_def)
        from c None have "createMapping T ?r st = (Inr n, st1)" by simp
        from createMapping_ok [OF this ok none] True show ?thesis by simp
      next
        case (Some p)
        with f c True ok show ?thesis by (auto simp: found_def)
      qed
      have "mapping_ok read taken good f st1" "container st1 ?r = Some (n, STATE_NEW)" using m by simp_all
      note add = add_mapped [OF this v [OF True], of fuel n' st2]
      have a': "addProperty T (Some f) fuel True ?v n (set_state ?r n STATE_RESOLVING st1) = Some (Inr n', st2)"
        using a True by (simp add: mark_entry_def)
      have st: "st' = set_state ?r n STATE_RESOLVED st2" using st' True by (simp add: mark_entry_def)
      note add = add [OF a', folded st]
      have "sound f st st'" using sound_trans [of f st1 st st'] m add(2) by blast
      moreover have own: "container st' ?r = Some (n', STATE_RESOLVED)" using st add(1) by simp
      have "read (table st') n' = Inr (copied (container st') ?v)"
        using mapping_okD(5) [OF conjunct1 [OF add(2)] own] v [OF True] by auto
      ultimately show ?thesis using add(3) own by (simp add: imported_def)
    next
      case False
      then have c: "createMapping T ?r st = (Inr n, st1)" using c by (simp add: found_def)
      note cm = createMapping_ok [OF c ok] False
      have cm: "mapping_ok read taken good f st1" "import_step read taken st st1"
        "container st1 = container st" "\<not> taken (table st) n" "taken (table st1) n"
        using cm by blast+
      from a False obtain w st3 where s: "subsReferencies T (Some f) fuel True ?v st1 = Some (Inr w, st3)"
        and g: "registerIndirectProperty T (top_value ?v w) n st3 = (Inr n', st2)"
        by (auto simp: addProperty_def mark_entry_def split: option.splits sum.splits prod.splits)
      have sub: "mapping_ok read taken good f st3" "import_step read taken st1 st3"
        "w = rename (new_of (container st3)) ?v" "refs_in ?v \<subseteq> settled (container st3)"
        using subs_sound(1) [OF s refl refl TrueI cm(1)] by simp_all
      have "container st1 q \<noteq> Some (n, s)" for q s
        using mapping_okD(2) [OF ok] cm(3,4) by metis
      note un = unmapped_ok [OF sub(2,1) cm(5) this g]
      have n': "n' = n" by (rule registered(1) [OF g mapping_okD(1) [OF sub(1)]])
      have st: "st' = st2" using st' False by (simp add: mark_entry_def)
      have "import_step read taken st st3" by (rule import_step_trans [OF cm(2) sub(2)])
      then have "import_step read taken st st'"
        unfolding st import_step_def untouched_def un(4,5) using un(2) cm(4) by (metis (no_types, lifting))
      moreover have "read (table st') n' = Inr (copied (container st') ?v)"
        unfolding st n' un(3,4) copied_def sub(3) ..
      ultimately show ?thesis unfolding imported_def using un(1,4) sub(4) st False by simp
    qed
  qed
qed

end

section \<open>The table of an open document\<close>

definition xw_read :: "xref_writer \<Rightarrow> ref \<Rightarrow> xobj result" where
  "xw_read x r = fst (xw_fetch deep_copy x r)"

definition xw_taken :: "xref_writer \<Rightarrow> ref \<Rightarrow> bool" where
  "xw_taken x r \<longleftrightarrow> xw_knowsRef x r = Inr RESERVED_REF \<or> xw_knowsRef x r = Inr INITIALIZED_REF"

definition xw_good :: "xref_writer \<Rightarrow> bool" where
  "xw_good x \<longleftrightarrow> ok (base x) \<and> isLatestRevision x \<and> cxref_inv (base x) \<and> \<not> needs_credentials (base x)"

lemma knows_taken:
  "isLatestRevision x \<Longrightarrow> \<not> needs_credentials (base x) \<Longrightarrow> cxref_inv (base x) \<Longrightarrow>
     xw_taken x r \<longleftrightarrow> storage_get (newStorage (base x)) r \<noteq> None \<or>
       xref_knowsRef (base x) r = Inr RESERVED_REF \<or> xref_knowsRef (base x) r = Inr INITIALIZED_REF"
  by (auto simp: xw_taken_def xw_knowsRef_def cxref_knowsRef_def cxref_inv_def
      split: option.splits ref_state.splits)

lemma xref_knowsRef_cong: "tab x = tab y \<Longrightarrow> xref_knowsRef x r = xref_knowsRef y r"
  by (simp add: xref_knowsRef_def)

interpretation xw: object_pool xw_table xw_read xw_taken xw_good
proof unfold_locales
  fix x x' r
  assume g: "xw_good x" and run: "reserve_ref xw_table x = (Inr r, x')"
  from g have latest: "isLatestRevision x" and cred: "\<not> needs_credentials (base x)"
    and inv: "cxref_inv (base x)" and okx: "ok (base x)" by (simp_all add: xw_good_def)
  from run obtain b where c: "cxref_reserveRef (base x) = (Inr r, b)" and x': "x' = x\<lparr>base := b\<rparr>"
    by (auto simp: xw_table_def xw_reserveRef_def split: if_splits option.splits prod.splits)
  from c have b: "b = (base x)\<lparr>newStorage := storage_set (newStorage (base x)) r RESERVED_REF\<rparr>"
    and u: "find_unused_ref (base x) = Some r" by (simp_all add: reserveRef_Inr_iff)
  from find_unused_ref_spec [OF u] obtain j where j: "1 \<le> j" "ref_num r = int j"
    "\<not> storage_contains (newStorage (base x)) r"
    "j < length (entries (tab (base x))) \<Longrightarrow> \<not> used_entry (entries (tab (base x)) ! j)" by blast
  have none: "storage_get (newStorage (base x)) r = None" using j(3) by (simp add: storage_contains_def)
  have "xref_knowsRef (base x) r \<noteq> Inr RESERVED_REF \<and> xref_knowsRef (base x) r \<noteq> Inr INITIALIZED_REF"
    using j(1,2,4) by (auto simp: xref_knowsRef_def Let_def used_entry_def split: entry_type.splits)
  with none have 1: "\<not> xw_taken x r" by (simp add: knows_taken [OF latest cred inv])
  have 2: "isRefValid r" using j(1,2) by (simp add: isRefValid_def)
  have latest': "isLatestRevision x'" using latest by (simp add: x' isLatestRevision_def)
  have inv': "cxref_inv (base x')" using cxref_inv_reserveRef [OF inv] c by (simp add: x')
  have cred': "\<not> needs_credentials (base x')" using cred by (simp add: x' b)
  have ns: "newStorage (base x') = storage_set (newStorage (base x)) r RESERVED_REF"
    by (simp add: x' b)
  have "xref_knowsRef (base x') q = xref_knowsRef (base x) q" for q
    by (rule xref_knowsRef_cong) (simp add: x' b)
  then have 3: "xw_taken x' = (xw_taken x)(r := True)"
    by (auto simp: fun_eq_iff knows_taken [OF latest cred inv] knows_taken [OF latest' cred' inv'] ns)
  have eqs: "changedStorage (base x') = changedStorage (base x)" "tab (base x') = tab (base x)"
    "ok (base x') = ok (base x)" "needs_credentials (base x') = needs_credentials (base x)"
    "internal_fetch (base x') = internal_fetch (base x)" by (simp_all add: x' b)
  have 4: "xw_read x' = xw_read x"
  proof
    fix q
    have f: "fst (xref_fetch (base x') q) = fst (xref_fetch (base x) q)"
      "ok (snd (xref_fetch (base x') q)) = ok (snd (xref_fetch (base x) q))"
      using xref_fetch_cong [OF eqs(2,3), of q] by simp_all
    show "xw_read x' q = xw_read x q"
      unfolding xw_read_def xw_fetch_latest [OF latest] xw_fetch_latest [OF latest'] fst_cxref_fetch eqs f ..
  qed
  have "xw_good x'" using latest' inv' cred' okx by (simp add: xw_good_def x' b)
  with 1 2 3 4 show "\<not> xw_taken x r \<and> isRefValid r \<and> xw_taken x' = (xw_taken x)(r := True) \<and>
    xw_read x' = xw_read x \<and> xw_good x'" by simp
next
  fix x x' r v u
  assume g: "xw_good x" and run: "change_object xw_table x r v = (Inr u, x')"
  from g have latest: "isLatestRevision x" and cred: "\<not> needs_credentials (base x)"
    and inv: "cxref_inv (base x)" and okx: "ok (base x)" by (simp_all add: xw_good_def)
  from run have "xw_changeObject deep_copy x r v = (Inr (), x')" by (simp add: xw_table_def)
  then obtain x1 old b where p: "paranoidCheck deep_copy x r v = (Inr True, x1)"
    and c: "cxref_changeObject deep_copy (base x1) r v = (Inr old, b)" and x': "x' = x1\<lparr>base := b\<rparr>"
    by (rule xw_changeObject_Inr)
  have x1: "x1 = x" using paranoidCheck_state [OF okx latest p] .
  note c = c [unfolded x1] and x' = x' [unfolded x1]
  have latest': "isLatestRevision x'" using latest by (simp add: x' isLatestRevision_def)
  have b: "base x' = b" by (simp add: x')
  have inv': "cxref_inv b" using cx.change_inv [OF inv, of r v] c by simp
  from c have st: "b = (base x)\<lparr>changedStorage := storage_set (changedStorage (base x)) r v,
      newStorage := (if storage_contains (newStorage (base x)) r
        then storage_set (newStorage (base x)) r INITIALIZED_REF else newStorage (base x))\<rparr>"
    by (cases rule: cxref_changeObject_cases) (auto simp: deep_copy_def)
  have cred': "\<not> needs_credentials b" using cred by (simp add: st)
  have ns: "newStorage b = (if storage_contains (newStorage (base x)) r
      then storage_set (newStorage (base x)) r INITIALIZED_REF else newStorage (base x))" by (simp add: st)
  have "xw_read x' q = ((xw_read x)(r := Inr v)) q" for q
    using cx.change_read [OF c] cx.change_frame [OF c, of q]
    by (simp add: xw_read_def xw_fetch_latest [OF latest] xw_fetch_latest [OF latest'] b)
  then have "xw_read x' = (xw_read x)(r := Inr v)" by blast
  moreover have "xref_knowsRef b q = xref_knowsRef (base x) q" for q
    by (rule xref_knowsRef_cong) (simp add: st)
  then have "xw_taken x' q = xw_taken x q" for q
    using knows_taken [OF latest cred inv, of q] knows_taken [of x' q] latest' inv' cred' ns
    by (auto simp: b storage_contains_def split: if_splits)
  moreover have "xw_good x'" using latest' inv' cred' okx by (simp add: xw_good_def b) (simp add: st)
  ultimately show "xw_read x' = (xw_read x)(r := Inr v) \<and> xw_taken x' = xw_taken x \<and> xw_good x'"
    by (simp add: fun_eq_iff)
qed

section \<open>Claims\<close>

definition source_edges :: "(ref \<Rightarrow> xobj result) \<Rightarrow> (ref \<times> ref) set" where
  "source_edges f = {(q, q'). \<exists>v. f q = Inr v \<and> q' \<in> refs_in v}"

definition reachable_from :: "(ref \<Rightarrow> xobj result) \<Rightarrow> ref set \<Rightarrow> ref set" where
  "reachable_from f rs = (source_edges f)\<^sup>* `` rs"

lemma import_simps [simp]:
  "table (start_import n p) = xref p" "container (start_import n p) = storage_of n p"
  "xref (end_import n st p) = table st" "storage_of n (end_import n st p) = container st"
  "modified (start_import n p) = change p" "change (end_import n st p) = modified st"
  by (simp_all add: start_import_def end_import_def storage_of_def)

lemma mapping_ok_end:
  "mapping_ok read taken good f (start_import n (end_import n st p)) = mapping_ok read taken good f st"
  by (simp add: mapping_ok_def)

lemma added_other:
  assumes "addIndirectProperty T fuel ip followRefs p = Some (Inr new, p')" "pdf_of ip = OtherPdf n f"
  obtains st' where "import_property T fuel ip followRefs (start_import n p) = Some (Inr new, st')"
    "p' = end_import n st' p" "getType (prop_value ip) \<noteq> objRef"
  using assms by (auto simp: addIndirectProperty_def pdf_id_def split: if_splits)

lemma resolved_reachable:
  assumes ok: "mapping_ok read taken good f st" and nr: "no_resolving (container st)"
    and rs: "rs \<subseteq> settled (container st)" and q: "q \<in> reachable_from f rs"
  shows "\<exists>m v. container st q = Some (m, STATE_RESOLVED) \<and> f q = Inr v \<and>
    read (table st) m = Inr (copied (container st) v)"
proof -
  have entry: "\<exists>m v. container st q = Some (m, STATE_RESOLVED) \<and> f q = Inr v \<and>
      read (table st) m = Inr (copied (container st) v) \<and> refs_in v \<subseteq> settled (container st)"
    if "q \<in> settled (container st)" for q
  proof -
    from that obtain m s where m: "container st q = Some (m, s)" "s \<noteq> STATE_NEW" by (auto simp: settled_def)
    with nr have "s = STATE_RESOLVED" by (cases s) (auto simp: no_resolving_def)
    with m mapping_okD(5) [OF ok, of q m] show ?thesis by blast
  qed
  from q obtain r where r: "r \<in> rs" "(r, q) \<in> (source_edges f)\<^sup>*" by (auto simp: reachable_from_def)
  from r(2) have "q \<in> settled (container st)"
  proof (induction rule: rtrancl_induct)
    case base
    show ?case using r(1) rs by blast
  next
    case (step y z)
    from step(2) obtain v where v: "f y = Inr v" "z \<in> refs_in v" by (auto simp: source_edges_def)
    from entry [OF step(3)] v show ?case by auto
  qed
  with entry show ?thesis by blast
qed


text \<open>
  Claim C34: adding an object of another document ends, whatever cycles its references make: as much fuel
  as a closed part of the other document has references is enough.
\<close>

theorem import_returns:
  assumes "pdf_of ip = OtherPdf n f" "closed_refs f S" "refs_in (prop_value ip) \<subseteq> S" "card S \<le> fuel"
  shows "addIndirectProperty xw_table fuel ip followRefs p \<noteq> None"
proof -
  have src: "pdf_source (pdf_of ip) = Some f" by (simp add: pdf_source_def assms(1))
  have fin: "finite S" using assms(2) by (simp add: closed_refs_def)
  have e: "enough S fuel st" for st :: "xref_writer import"
    using card_mono [OF fin, of "S - settled (container st)"] assms(4) by (auto simp: enough_def)
  have add: "\<exists>res st'. addProperty xw_table (Some f) fuel followRefs (prop_value ip) new st = Some (res, st')"
    for new st
  proof -
    obtain res st1 where "subsReferencies xw_table (Some f) fuel followRefs (prop_value ip) st = Some (res, st1)"
      using subs_returns(1) [OF refl assms(2,3) e, of xw_table followRefs st] by (metis not_None_eq surj_pair)
    then show ?thesis
      by (cases res; cases "registerIndirectProperty xw_table (top_value (prop_value ip) (projr res)) new st1")
        (simp_all add: addProperty_def)
  qed
  have "\<exists>res st'. import_property xw_table fuel ip followRefs st = Some (res, st')" for st
  proof -
    define found where "found = (if isRefValid (indi_ref ip) then container st (indi_ref ip) else None)"
    obtain res st1 where c: "(case found of Some (new, _) \<Rightarrow> (Inr new, st)
      | None \<Rightarrow> createMapping xw_table (indi_ref ip) st) = (res, st1)" by force
    show ?thesis
    proof (cases "\<exists>new s. found = Some (new, s) \<and> s \<noteq> STATE_NEW")
      case True
      then obtain new s where "found = Some (new, s)" "s \<noteq> STATE_NEW" by blast
      then show ?thesis
        by (cases s) (simp_all add: import_property_def Let_def found_def [symmetric])
    next
      case False
      then have "found = None \<or> (\<exists>new. found = Some (new, STATE_NEW))"
        by (metis not_None_eq surj_pair)
      then have i: "import_property xw_table fuel ip followRefs st = (case (res, st1) of
          (Inl e, st1) \<Rightarrow> Some (Inl e, st1)
        | (Inr new, st1) \<Rightarrow>
            (case addProperty xw_table (Some f) fuel followRefs (prop_value ip) new
                (mark_entry (indi_ref ip) new STATE_RESOLVING st1) of
               None \<Rightarrow> None
             | Some (Inl e, st2) \<Rightarrow> Some (Inl e, st2)
             | Some (Inr r, st2) \<Rightarrow>
                 Some (Inr r, mark_entry (indi_ref ip) new (if followRefs then STATE_RESOLVED else STATE_NEW) st2)))"
        using c unfolding import_property_def Let_def found_def [symmetric] src by auto
      show ?thesis
      proof (cases res)
        case (Inr new)
        obtain r2 st2 where "addProperty xw_table (Some f) fuel followRefs (prop_value ip) new
            (mark_entry (indi_ref ip) new STATE_RESOLVING st1) = Some (r2, st2)" using add by blast
        with i Inr show ?thesis by (cases r2) simp_all
      qed (use i in simp)
    qed
  qed
  then have "import_property xw_table fuel ip followRefs st \<noteq> None" for st by (metis option.distinct(1))
  then show ?thesis
    by (simp add: addIndirectProperty_def assms(1) Let_def del: not_None_eq)
qed

section \<open>A small import\<close>

text \<open>Two objects of another document that refer to each other, and a document without imports.\<close>

definition sample_source :: "ref \<Rightarrow> xobj result" where
  "sample_source r =
     (if r = Ref 1 0 then Inr (XDict [(''Next'', XRefObj (Ref 2 0))])
      else if r = Ref 2 0 then Inr (XArray [XRefObj (Ref 1 0), XInt 5])
      else Inr XNull)"

definition sample_property :: property where
  "sample_property =
     \<lparr>pdf_of = OtherPdf 3 sample_source, indi_ref = Ref 1 0,
      prop_value = XDict [(''Next'', XRefObj (Ref 2 0))]\<rparr>"

definition sample_pdf :: "xref_writer cpdf" where
  "sample_pdf = \<lparr>xref = sample_xw, resolvedRefMapping = Map.empty, change = False\<rparr>"

definition news_xw :: "(ref, ref_state) storage \<Rightarrow> (ref, xobj) storage \<Rightarrow> xref_writer" where
  "news_xw news changes =
     sample_xw\<lparr>base := sample_cxref\<lparr>newStorage := news, changedStorage := changes\<rparr>\<rparr>"

lemma sample_xw_news: "sample_xw = news_xw [] []"
  by (simp add: news_xw_def sample_xw_def sample_cxref_def)

lemma reserve_news:
  "find_unused_ref (sample_cxref\<lparr>newStorage := news, changedStorage := ch\<rparr>) = Some r \<Longrightarrow>
     xw_reserveRef (news_xw news ch) = (Inr r, news_xw (storage_set news r RESERVED_REF) ch)"
  by (simp add: xw_reserveRef_def news_xw_def sample_xw_def sample_cxref_def revision_error_def
      isLatestRevision_def cxref_reserveRef_def storage_put_def)

lemma find_news:
  "find_unused_ref (sample_cxref\<lparr>newStorage := [], changedStorage := ch\<rparr>) = Some (Ref 2 1)"
  "find_unused_ref (sample_cxref\<lparr>newStorage := [(Ref 2 1, RESERVED_REF)], changedStorage := ch\<rparr>) = Some (Ref 4 0)"
  by (simp_all add: find_unused_ref_def sample_cxref_def sample_tab_def xref_getNumObjects_def
      used_entry_def scan_free.simps scan_new.simps MAXOBJNUM_def MAXOBJGEN_def storage_contains_def)

lemma change_news:
  "storage_get news r = Some RESERVED_REF \<Longrightarrow>
     xw_changeObject deep_copy (news_xw news ch) r v =
       (Inr (), news_xw (storage_set news r INITIALIZED_REF) (storage_set ch r v))"
  by (simp add: xw_changeObject_def news_xw_def sample_xw_def sample_cxref_def revision_error_def
      isLatestRevision_def cxref_changeObject_def storage_put_def paranoidCheck_def xw_knowsRef_def
      cxref_knowsRef_def deep_copy_def Let_def storage_contains_def)

lemma sample_table:
  "reserve_ref xw_table (news_xw [] ch) = (Inr (Ref 2 1), news_xw [(Ref 2 1, RESERVED_REF)] ch)"
  "reserve_ref xw_table (news_xw [(Ref 2 1, RESERVED_REF)] ch) =
     (Inr (Ref 4 0), news_xw [(Ref 2 1, RESERVED_REF), (Ref 4 0, RESERVED_REF)] ch)"
  "change_object xw_table (news_xw [(Ref 2 1, RESERVED_REF), (Ref 4 0, RESERVED_REF)] ch) (Ref 4 0) v =
     (Inr (), news_xw [(Ref 2 1, RESERVED_REF), (Ref 4 0, INITIALIZED_REF)] (storage_set ch (Ref 4 0) v))"
  "change_object xw_table (news_xw [(Ref 2 1, RESERVED_REF), (Ref 4 0, INITIALIZED_REF)] ch) (Ref 2 1) v =
     (Inr (), news_xw [(Ref 2 1, INITIALIZED_REF), (Ref 4 0, INITIALIZED_REF)] (storage_set ch (Ref 2 1) v))"
  "waits_for_credentials xw_table (news_xw news ch) = False" "read_only xw_table (news_xw news ch) = False"
proof -
  have less: "Ref 2 1 < Ref 4 0" "\<not> Ref 4 0 < Ref 2 1" by (simp_all add: less_ref_def ref_less_def)
  show "reserve_ref xw_table (news_xw [] ch) = (Inr (Ref 2 1), news_xw [(Ref 2 1, RESERVED_REF)] ch)"
    using reserve_news [OF find_news(1), of ch] by (simp add: xw_table_def)
  show "reserve_ref xw_table (news_xw [(Ref 2 1, RESERVED_REF)] ch) =
     (Inr (Ref 4 0), news_xw [(Ref 2 1, RESERVED_REF), (Ref 4 0, RESERVED_REF)] ch)"
    using reserve_news [OF find_news(2), of ch] less by (simp add: xw_table_def)
  show "change_object xw_table (news_xw [(Ref 2 1, RESERVED_REF), (Ref 4 0, RESERVED_REF)] ch) (Ref 4 0) v =
     (Inr (), news_xw [(Ref 2 1, RESERVED_REF), (Ref 4 0, INITIALIZED_REF)] (storage_set ch (Ref 4 0) v))"
    using change_news [of "[(Ref 2 1, RESERVED_REF), (Ref 4 0, RESERVED_REF)]" "Ref 4 0" ch v] less
    by (simp add: xw_table_def)
  show "change_object xw_table (news_xw [(Ref 2 1, RESERVED_REF), (Ref 4 0, INITIALIZED_REF)] ch) (Ref 2 1) v =
     (Inr (), news_xw [(Ref 2 1, INITIALIZED_REF), (Ref 4 0, INITIALIZED_REF)] (storage_set ch (Ref 2 1) v))"
    using change_news [of "[(Ref 2 1, RESERVED_REF), (Ref 4 0, INITIALIZED_REF)]" "Ref 2 1" ch v] less
    by (simp add: xw_table_def)
  show "waits_for_credentials xw_table (news_xw news ch) = False" "read_only xw_table (news_xw news ch) = False"
    by (simp_all add: xw_table_def news_xw_def sample_xw_def sample_cxref_def)
qed

lemma sample_runs:
  "\<exists>p'. addIndirectProperty xw_table 2 sample_property True sample_pdf = Some (Inr (Ref 2 1), p')"
  by (simp add: addIndirectProperty_def sample_property_def sample_pdf_def sample_xw_news sample_table
      import_property_def pdf_source_def pdf_id_def start_import_def storage_of_def createMapping_def isRefValid_def
      addProperty_def subsReferencies.simps subs_array.simps subs_dict.simps map_ref_def mark_entry_def
      set_state_def sample_source_def registerIndirectProperty_def Let_def)

lemma sample_start:
  "mapping_ok xw_read xw_taken xw_good f (start_import n sample_pdf)" "no_resolving (storage_of n sample_pdf)"
proof -
  have "xw_good sample_xw"
    by (simp add: xw_good_def sample_xw_def sample_cxref_def isLatestRevision_def cxref_inv_def storage_ok_def)
  then show "mapping_ok xw_read xw_taken xw_good f (start_import n sample_pdf)"
    by (simp add: mapping_ok_def sample_pdf_def storage_of_def)
  show "no_resolving (storage_of n sample_pdf)"
    by (simp add: no_resolving_def sample_pdf_def storage_of_def)
qed


theorem import_returns_witness:
  "addIndirectProperty xw_table 2 sample_property True sample_pdf \<noteq> None"
proof -
  have "pdf_of sample_property = OtherPdf 3 sample_source" by (simp add: sample_property_def)
  moreover have "closed_refs sample_source {Ref 1 0, Ref 2 0}"
    by (auto simp: closed_refs_def sample_source_def)
  moreover have "refs_in (prop_value sample_property) \<subseteq> {Ref 1 0, Ref 2 0}"
    by (simp add: sample_property_def)
  moreover have "card {Ref 1 0, Ref 2 0} \<le> 2" by (simp add: card_insert_if)
  ultimately show ?thesis by (rule import_returns)
qed

section \<open>Divergences\<close>

text \<open>
  An indirect object whose value is a reference is stored with the reference of the other document, as
  \<^verbatim>\<open>addProperty\<close> drops the result of \<^verbatim>\<open>subsReferencies\<close>.
\<close>

lemma reference_object_kept:
  assumes "addProperty T src fuel followRefs (XRefObj q) r st = Some (Inr r', st')"
  shows "\<exists>st1. registerIndirectProperty T (XRefObj q) r st1 = (Inr r', st')"
  using assms by (auto simp: addProperty_def top_value_def split: option.splits sum.splits prod.splits)

text \<open>A reference with the number 0, which stands for no object, makes the import use a null pointer.\<close>

lemma invalid_reference_crashes:
  assumes "\<not> isRefValid q" "container st q = None" "reserve_ref T (table st) = (Inr n, t)"
  shows "\<exists>st'. subsReferencies T src fuel followRefs (XRefObj q) st = Some (Inl UndefinedBehaviour, st')"
  using assms by (simp add: subsReferencies.simps map_ref_def createMapping_def Let_def)

text \<open>
  A member of an indirect object has the reference of that object.  Adding it on its own makes the
  mapping take it for the whole object: adding the object later returns the copy of the member.
\<close>

lemma child_taken_for_parent:
  assumes "import_property T fuel ip True st = Some (Inr new, st')" "isRefValid (indi_ref ip)"
    "\<And>v r st1 st2 r'. registerIndirectProperty T v r st1 = (Inr r', st2) \<Longrightarrow> r' = r"
    "container st (indi_ref ip) = None"
  shows "import_property T fuel' (ip\<lparr>prop_value := v\<rparr>) followRefs st' = Some (Inr new, st')"
proof -
  from assms(1,2,4) obtain n st1 st2 where
    a: "addProperty T (pdf_source (pdf_of ip)) fuel True (prop_value ip) n st1 = Some (Inr new, st2)"
    and st': "st' = set_state (indi_ref ip) n STATE_RESOLVED st2"
    unfolding import_property_def Let_def mark_entry_def
    by (auto split: option.splits sum.splits prod.splits)
  from a assms(3) have "new = n"
    by (auto simp: addProperty_def split: option.splits sum.splits prod.splits)
  with st' assms(2) show ?thesis by (simp add: import_property_def Let_def)
qed

text \<open>
  An exception while the references are followed leaves the entries on the way resolving, so a second
  attempt to add the same object fails an assertion.
\<close>

definition broken_source :: "ref \<Rightarrow> xobj result" where
  "broken_source r = (if r = Ref 1 0 then Inr (XDict [(''Next'', XRefObj (Ref 2 0))]) else Inl MalformedFormatExeption)"

lemma interrupted_import:
  "\<exists>p'. addIndirectProperty xw_table 2 (sample_property\<lparr>pdf_of := OtherPdf 3 broken_source\<rparr>) True sample_pdf =
       Some (Inl MalformedFormatExeption, p') \<and>
     addIndirectProperty xw_table 2 (sample_property\<lparr>pdf_of := OtherPdf 3 broken_source\<rparr>) True p' =
       Some (Inl UndefinedBehaviour, p')"
proof -
  let ?ip = "sample_property\<lparr>pdf_of := OtherPdf 3 broken_source\<rparr>"
  have "\<exists>p'. addIndirectProperty xw_table 2 ?ip True sample_pdf = Some (Inl MalformedFormatExeption, p') \<and>
      (\<exists>m. storage_of 3 p' (Ref 1 0) = Some (m, STATE_RESOLVING)) \<and>
      (\<exists>news ch. xref p' = news_xw news ch)"
    by (simp add: addIndirectProperty_def sample_property_def sample_pdf_def sample_xw_news sample_table
        import_property_def pdf_source_def pdf_id_def start_import_def end_import_def storage_of_def
        createMapping_def isRefValid_def addProperty_def subsReferencies.simps subs_dict.simps map_ref_def
        mark_entry_def set_state_def broken_source_def Let_def) blast
  then obtain p' m news ch where
    p': "addIndirectProperty xw_table 2 ?ip True sample_pdf = Some (Inl MalformedFormatExeption, p')"
      "storage_of 3 p' (Ref 1 0) = Some (m, STATE_RESOLVING)" "xref p' = news_xw news ch" by blast
  have "import_property xw_table 2 ?ip True (start_import 3 p') = Some (Inl UndefinedBehaviour, start_import 3 p')"
    using p'(2) by (simp add: import_property_def sample_property_def isRefValid_def)
  moreover have "end_import 3 (start_import 3 p') p' = p'"
    using p'(2) by (auto simp: end_import_def start_import_def storage_of_def fun_upd_idem_iff split: option.splits)
  ultimately have "addIndirectProperty xw_table 2 ?ip True p' = Some (Inl UndefinedBehaviour, p')"
    by (simp add: addIndirectProperty_def p'(3) sample_table pdf_id_def Let_def)
      (simp add: sample_property_def)
  with p'(1) show ?thesis by blast
qed

end
