(* ===== verification/Property_Tree.thy ===== *)
theory Property_Tree
  imports Object_Import
begin

text \<open>
  The property tree (\<^verbatim>\<open>iproperty.cc\<close>, \<^verbatim>\<open>cobjectsimpleI.h\<close>, \<^verbatim>\<open>carray.cc\<close>,
  \<^verbatim>\<open>cdict.cc\<close>, \<^verbatim>\<open>cstream.cc\<close>, \<^verbatim>\<open>cobject.cc\<close>, \<^verbatim>\<open>cobject2xpdf.cc\<close> and the part of
  \<^verbatim>\<open>cpdf.cc\<close> that keeps the instances of indirect objects, all under \<^verbatim>\<open>src/src/kernel\<close>).  Every
  object of a document is an instance of a class derived from \<^verbatim>\<open>IProperty\<close> at an address; containers
  hold the addresses of their members.  A change of an instance is dispatched to the indirect object it
  is in, which is converted to an object of xpdf and stored in the table.  An assertion alone that
  fails is \<open>UndefinedBehaviour\<close>; one with a throw behind it is the throw.
\<close>

section \<open>Instances\<close>

datatype property_mode = mdUnknown | mdNormal | mdHidden | mdReadOnly | mdAdvanced

text \<open>
  What the classes hold: \<^verbatim>\<open>CObjectSimple\<close> a value, \<^verbatim>\<open>CArray\<close> and \<^verbatim>\<open>CDict\<close> pointers,
  \<^verbatim>\<open>CStream\<close> a \<^verbatim>\<open>CDict\<close> (a member with an address of its own) and the raw bytes.
\<close>

datatype held =
    Simple xobj
  | Members "nat list"
  | Entries "(string \<times> nat) list"
  | Streamed nat string

record node =
  held :: held
  ref_of :: ref
  in_pdf :: bool
  wantDispatch :: bool
  mode_of :: property_mode

text \<open>The memory: the instances by address and the next free address.\<close>

record memory =
  cells :: "nat \<Rightarrow> node option"
  limit :: nat

definition no_ref :: ref where
  "no_ref = Ref 0 0"

text \<open>An instance of no document, and one of the document with a reference.\<close>

definition new_instance :: "ref option \<Rightarrow> held \<Rightarrow> node" where
  "new_instance og c =
     \<lparr>held = c, ref_of = (case og of None \<Rightarrow> no_ref | Some r \<Rightarrow> r), in_pdf = (og \<noteq> None),
      wantDispatch = True, mode_of = mdUnknown\<rparr>"

definition alloc :: "node \<Rightarrow> memory \<Rightarrow> nat \<times> memory" where
  "alloc n m = (limit m, m\<lparr>cells := (cells m)(limit m \<mapsto> n), limit := Suc (limit m)\<rparr>)"

definition modify :: "nat \<Rightarrow> (node \<Rightarrow> node) \<Rightarrow> memory \<Rightarrow> memory" where
  "modify a f m = m\<lparr>cells := (cells m)(a := map_option f (cells m a))\<rparr>"

definition hold :: "nat \<Rightarrow> held \<Rightarrow> memory \<Rightarrow> memory" where
  "hold a c = modify a (\<lambda>n. n\<lparr>held := c\<rparr>)"

fun kids :: "held \<Rightarrow> nat list" where
  "kids (Simple v) = []"
| "kids (Members xs) = xs"
| "kids (Entries kvs) = map snd kvs"
| "kids (Streamed d s) = [d]"

section \<open>Recursion over the tree\<close>

text \<open>
  The recursive methods follow pointers.  Their fuel is a bound for the depth of the tree; the program
  overflows its stack on a circle, which is \<open>None\<close>.
\<close>

function (sequential) each :: "(node \<Rightarrow> node) \<Rightarrow> nat \<Rightarrow> nat \<Rightarrow> memory \<Rightarrow> memory option"
  and each_list :: "(node \<Rightarrow> node) \<Rightarrow> nat \<Rightarrow> nat list \<Rightarrow> memory \<Rightarrow> memory option" where
  "each f 0 a m = None"
| "each f (Suc k) a m =
     (case cells m a of
        None \<Rightarrow> None
      | Some n \<Rightarrow> each_list f k (kids (held n)) (modify a f m))"
| "each_list f k [] m = Some m"
| "each_list f k (a # as) m =
     (case each f k a m of None \<Rightarrow> None | Some m1 \<Rightarrow> each_list f k as m1)"
  by pat_completeness auto
termination
  by (relation "measures [
        (\<lambda>p. case p of Inl (_, k, _) \<Rightarrow> k | Inr (_, k, _) \<Rightarrow> k),
        (\<lambda>p. case p of Inl (_, k, _) \<Rightarrow> 0 | Inr (_, k, as, _) \<Rightarrow> Suc (length as))]") auto

declare each.simps [simp del] each_list.simps [simp del]

text \<open>\<^verbatim>\<open>setPdf\<close> and \<^verbatim>\<open>setIndiRef\<close> of all classes: the instance, then its members.\<close>

definition setPdf :: "bool \<Rightarrow> nat \<Rightarrow> memory \<Rightarrow> memory option" where
  "setPdf p a m = each (\<lambda>n. n\<lparr>in_pdf := p\<rparr>) (Suc (limit m)) a m"

definition setIndiRef :: "ref \<Rightarrow> nat \<Rightarrow> memory \<Rightarrow> memory option" where
  "setIndiRef r a m = each (\<lambda>n. n\<lparr>ref_of := r\<rparr>) (Suc (limit m)) a m"

text \<open>
  \<^verbatim>\<open>doClone\<close> of all classes: a new instance of no document, then the clones of the members.  The
  cell of the new instance is there before its members and is filled in last.
\<close>

function (sequential) clone :: "nat \<Rightarrow> nat \<Rightarrow> memory \<Rightarrow> (nat \<times> memory) option"
  and clone_list :: "nat \<Rightarrow> nat list \<Rightarrow> memory \<Rightarrow> (nat list \<times> memory) option" where
  "clone 0 a m = None"
| "clone (Suc k) a m =
     (case cells m a of
        None \<Rightarrow> None
      | Some n \<Rightarrow>
          (case held n of
             Simple v \<Rightarrow> Some (alloc (new_instance None (Simple v)) m)
           | Members xs \<Rightarrow>
               (case alloc (new_instance None (Members [])) m of (p, m1) \<Rightarrow>
                  map_option (\<lambda>(ys, m2). (p, hold p (Members ys) m2)) (clone_list k xs m1))
           | Entries kvs \<Rightarrow>
               (case alloc (new_instance None (Entries [])) m of (p, m1) \<Rightarrow>
                  map_option (\<lambda>(ys, m2). (p, hold p (Entries (zip (map fst kvs) ys)) m2))
                    (clone_list k (map snd kvs) m1))
           | Streamed d s \<Rightarrow>
               (case alloc (new_instance None (Entries [])) m of (p, m1) \<Rightarrow>
                  map_option (\<lambda>(q, m2). (p, hold p (Streamed q s) m2)) (clone k d m1))))"
| "clone_list k [] m = Some ([], m)"
| "clone_list k (a # as) m =
     (case clone k a m of
        None \<Rightarrow> None
      | Some (b, m1) \<Rightarrow> map_option (\<lambda>(bs, m2). (b # bs, m2)) (clone_list k as m1))"
  by pat_completeness auto
termination
  by (relation "measures [
        (\<lambda>p. case p of Inl (k, _) \<Rightarrow> k | Inr (k, _) \<Rightarrow> k),
        (\<lambda>p. case p of Inl (k, _) \<Rightarrow> 0 | Inr (k, as, _) \<Rightarrow> Suc (length as))]") auto

declare clone.simps [simp del] clone_list.simps [simp del]

text \<open>
  \<^verbatim>\<open>createObjFromXpdfObj\<close> with the constructors of the classes, for a document and a reference or for
  none.  A null object has no document in either case; the entries of a stream dictionary are made
  without one and get it afterwards.  The raw bytes are those the length allows
  (\<^verbatim>\<open>parseStreamToContainer\<close>); \<open>look\<close> dereferences the length.
\<close>

definition parseStreamToContainer :: "(ref \<Rightarrow> xobj result) \<Rightarrow> dict \<Rightarrow> string \<Rightarrow> string result" where
  "parseStreamToContainer look d s =
     (case (case dict_lookupNF d ''Length'' of XRefObj r \<Rightarrow> look r | v \<Rightarrow> Inr v) of
        Inl e \<Rightarrow> Inl e
      | Inr (XInt len) \<Rightarrow>
          if len < 0 \<or> nat len > length s then Inl UndefinedBehaviour else Inr (take (nat len) s)
      | Inr _ \<Rightarrow> Inl UndefinedBehaviour)"

fun createObjFromXpdfObj ::
    "(ref \<Rightarrow> xobj result) \<Rightarrow> ref option \<Rightarrow> xobj \<Rightarrow> memory \<Rightarrow> nat result \<times> memory"
  and xpdfArrayReader ::
    "(ref \<Rightarrow> xobj result) \<Rightarrow> ref option \<Rightarrow> xobj list \<Rightarrow> memory \<Rightarrow> nat list result \<times> memory"
  and xpdfDictReader ::
    "(ref \<Rightarrow> xobj result) \<Rightarrow> ref option \<Rightarrow> dict \<Rightarrow> memory \<Rightarrow> (string \<times> nat) list result \<times> memory"
  where
  "createObjFromXpdfObj look og (XArray vs) m =
     (case alloc (new_instance og (Members [])) m of (p, m1) \<Rightarrow>
        (case xpdfArrayReader look og vs m1 of
           (Inl e, m2) \<Rightarrow> (Inl e, m2)
         | (Inr xs, m2) \<Rightarrow> (Inr p, hold p (Members xs) m2)))"
| "createObjFromXpdfObj look og (XDict d) m =
     (case alloc (new_instance og (Entries [])) m of (p, m1) \<Rightarrow>
        (case xpdfDictReader look og d m1 of
           (Inl e, m2) \<Rightarrow> (Inl e, m2)
         | (Inr kvs, m2) \<Rightarrow> (Inr p, hold p (Entries kvs) m2)))"
| "createObjFromXpdfObj look og (XStream d s) m =
     (case alloc (new_instance og (Entries [])) m of (p, m1) \<Rightarrow>
      (case alloc (new_instance None (Entries [])) m1 of (q, m2) \<Rightarrow>
        (case xpdfDictReader look None d m2 of
           (Inl e, m3) \<Rightarrow> (Inl e, m3)
         | (Inr kvs, m3) \<Rightarrow>
             let m4 = hold q (Entries kvs) m3 in
             (case (case og of None \<Rightarrow> Some m4
                    | Some r \<Rightarrow> Option.bind (setPdf True q m4) (setIndiRef r q)) of
                None \<Rightarrow> (Inl UndefinedBehaviour, m4)
              | Some m5 \<Rightarrow>
                  (case parseStreamToContainer look d s of
                     Inl e \<Rightarrow> (Inl e, m5)
                   | Inr buf \<Rightarrow> (Inr p, hold p (Streamed q buf) m5))))))"
| "createObjFromXpdfObj look og XNull m = apfst Inr (alloc (new_instance None (Simple XNull)) m)"
| "createObjFromXpdfObj look og (XCmd c) m = (Inl ElementBadTypeException, m)"
| "createObjFromXpdfObj look og XError m = (Inl ElementBadTypeException, m)"
| "createObjFromXpdfObj look og XEOF m = (Inl ElementBadTypeException, m)"
| "createObjFromXpdfObj look og XNone m = (Inl ElementBadTypeException, m)"
| "createObjFromXpdfObj look og v m = apfst Inr (alloc (new_instance og (Simple v)) m)"
| "xpdfArrayReader look og [] m = (Inr [], m)"
| "xpdfArrayReader look og (v # vs) m =
     (case createObjFromXpdfObj look og v m of
        (Inl e, m1) \<Rightarrow> (Inl e, m1)
      | (Inr a, m1) \<Rightarrow> apfst (map_sum id (\<lambda>as. a # as)) (xpdfArrayReader look og vs m1))"
| "xpdfDictReader look og [] m = (Inr [], m)"
| "xpdfDictReader look og ((k, v) # d) m =
     (case createObjFromXpdfObj look og v m of
        (Inl e, m1) \<Rightarrow> (Inl e, m1)
      | (Inr a, m1) \<Rightarrow> apfst (map_sum id (\<lambda>kvs. (k, a) # kvs)) (xpdfDictReader look og d m1))"


section \<open>The document\<close>

text \<open>What \<^verbatim>\<open>CPdf\<close> asks of \<^verbatim>\<open>XRefWriter\<close> when instances are used and changed.\<close>

record 't prop_table =
  no_credentials :: "'t \<Rightarrow> bool"
  is_linearized :: "'t \<Rightarrow> bool"
  is_latest :: "'t \<Rightarrow> bool"
  is_read_only :: "'t \<Rightarrow> bool"
  is_encrypted :: "'t \<Rightarrow> bool"
  fetch_obj :: "'t \<Rightarrow> ref \<Rightarrow> xobj result \<times> 't"
  change_obj :: "'t \<Rightarrow> ref \<Rightarrow> xobj \<Rightarrow> unit result \<times> 't"

text \<open>
  Observers are told of a change with the instance that changed, the new value and a context: the old
  value and the place.  A null object made for the notice is \<open>None\<close>.
\<close>

datatype place = At_key string | At_index nat | Whole

datatype notice = Notice (subject: nat) (new_value: "nat option") (old_value: "nat option") (at_place: place)

record 't pdf =
  mem :: memory
  indMap :: "ref \<Rightarrow> nat option"
  xtab :: 't
  changed :: bool
  notices :: "notice list"
  modeController :: "(string \<Rightarrow> string \<Rightarrow> property_mode) option"

type_synonym ('a, 't) action = "'t pdf \<Rightarrow> 'a result \<times> 't pdf"

definition pass :: "'a \<Rightarrow> ('a, 't) action" where
  "pass x s = (Inr x, s)"

definition fail :: "exn \<Rightarrow> ('a, 't) action" where
  "fail e s = (Inl e, s)"

definition andThen :: "('a, 't) action \<Rightarrow> ('a \<Rightarrow> ('b, 't) action) \<Rightarrow> ('b, 't) action" where
  "andThen f g s = (case f s of (Inl e, s1) \<Rightarrow> (Inl e, s1) | (Inr x, s1) \<Rightarrow> g x s1)"

lemma andThen_cong [fundef_cong]:
  "f s = f' s \<Longrightarrow> s = s' \<Longrightarrow> (\<And>x s1. f' s = (Inr x, s1) \<Longrightarrow> g x s1 = g' x s1) \<Longrightarrow> andThen f g s = andThen f' g' s'"
  by (auto simp: andThen_def split: sum.splits prod.splits)

definition on_memory :: "(memory \<Rightarrow> memory) \<Rightarrow> (unit, 't) action" where
  "on_memory f s = (Inr (), s\<lparr>mem := f (mem s)\<rparr>)"

definition try_memory :: "(memory \<Rightarrow> ('a \<times> memory) option) \<Rightarrow> ('a, 't) action" where
  "try_memory f s =
     (case f (mem s) of None \<Rightarrow> (Inl UndefinedBehaviour, s) | Some (x, m) \<Rightarrow> (Inr x, s\<lparr>mem := m\<rparr>))"

definition look_at :: "nat \<Rightarrow> (node, 't) action" where
  "look_at a s = (case cells (mem s) a of None \<Rightarrow> (Inl UndefinedBehaviour, s) | Some n \<Rightarrow> (Inr n, s))"

definition assert_that :: "bool \<Rightarrow> (unit, 't) action" where
  "assert_that b = (if b then pass () else fail UndefinedBehaviour)"

definition notify :: "notice \<Rightarrow> (unit, 't) action" where
  "notify n s = (Inr (), s\<lparr>notices := notices s @ [n]\<rparr>)"

definition clone_of :: "nat \<Rightarrow> (nat, 't) action" where
  "clone_of a = try_memory (\<lambda>m. clone (Suc (limit m)) a m)"

definition set_pdf :: "bool \<Rightarrow> nat \<Rightarrow> (unit, 't) action" where
  "set_pdf p a = try_memory (\<lambda>m. map_option (Pair ()) (setPdf p a m))"

definition set_ref :: "ref \<Rightarrow> nat \<Rightarrow> (unit, 't) action" where
  "set_ref r a = try_memory (\<lambda>m. map_option (Pair ()) (setIndiRef r a m))"

section \<open>Modes and members\<close>

fun entry_at :: "(string \<times> nat) list \<Rightarrow> string \<Rightarrow> nat option" where
  "entry_at [] key = None"
| "entry_at ((k, a) # kvs) key = (if k = key then Some a else entry_at kvs key)"

text \<open>\<^verbatim>\<open>CDict::_setMode\<close>: a type that is no name counts as the empty one.\<close>

definition type_name :: "memory \<Rightarrow> (string \<times> nat) list \<Rightarrow> string" where
  "type_name m kvs =
     (case entry_at kvs ''Type'' of
        None \<Rightarrow> []
      | Some t \<Rightarrow> (case cells m t of Some n \<Rightarrow> (case held n of Simple (XName x) \<Rightarrow> x | _ \<Rightarrow> []) | None \<Rightarrow> []))"

definition dict_setMode :: "nat \<Rightarrow> nat \<Rightarrow> string \<Rightarrow> (unit, 't) action" where
  "dict_setMode d a key =
     andThen (look_at d) (\<lambda>n s.
       case (in_pdf n, modeController s, held n) of
         (True, Some mc, Entries kvs) \<Rightarrow>
           let md = mc (type_name (mem s) kvs) key in
           on_memory (modify a (\<lambda>x. x\<lparr>mode_of := if md = mdUnknown then mode_of n else md\<rparr>)) s
       | _ \<Rightarrow> pass () s)"

text \<open>\<^verbatim>\<open>CArray::_setMode\<close>.\<close>

definition array_setMode :: "nat \<Rightarrow> nat \<Rightarrow> (unit, 't) action" where
  "array_setMode d a = andThen (look_at d) (\<lambda>n. on_memory (modify a (\<lambda>x. x\<lparr>mode_of := mode_of n\<rparr>)))"

definition entries_of :: "nat \<Rightarrow> (node \<times> (string \<times> nat) list, 't) action" where
  "entries_of d = andThen (look_at d) (\<lambda>n. case held n of Entries kvs \<Rightarrow> pass (n, kvs) | _ \<Rightarrow> fail UndefinedBehaviour)"

definition members_of :: "nat \<Rightarrow> (node \<times> nat list, 't) action" where
  "members_of d = andThen (look_at d) (\<lambda>n. case held n of Members xs \<Rightarrow> pass (n, xs) | _ \<Rightarrow> fail UndefinedBehaviour)"

text \<open>\<^verbatim>\<open>CDict::containsProperty\<close>, \<^verbatim>\<open>CDict::getProperty\<close>, \<^verbatim>\<open>CArray::getProperty\<close>.\<close>

definition containsProperty :: "nat \<Rightarrow> string \<Rightarrow> (bool, 't) action" where
  "containsProperty d name = andThen (entries_of d) (\<lambda>(n, kvs). pass (entry_at kvs name \<noteq> None))"

definition dict_getProperty :: "nat \<Rightarrow> string \<Rightarrow> (nat, 't) action" where
  "dict_getProperty d key =
     andThen (entries_of d) (\<lambda>(n, kvs).
       case entry_at kvs key of
         None \<Rightarrow> fail ElementNotFoundException
       | Some a \<Rightarrow> andThen (dict_setMode d a key) (\<lambda>_. pass a))"

definition array_getProperty :: "nat \<Rightarrow> nat \<Rightarrow> (nat, 't) action" where
  "array_getProperty d i =
     andThen (members_of d) (\<lambda>(n, xs).
       if length xs \<le> i then fail OutOfRange
       else andThen (array_setMode d (xs ! i)) (\<lambda>_. pass (xs ! i)))"

section \<open>Indirect objects\<close>

text \<open>
  \<^verbatim>\<open>CPdf::getIndirectProperty\<close>: one instance for every reference that was asked for.  A null object
  is not kept.
\<close>

definition getIndirectProperty :: "'t prop_table \<Rightarrow> ref \<Rightarrow> (nat, 't) action" where
  "getIndirectProperty T r s =
     (if no_credentials T (xtab s) then (Inl PermissionException, s)
      else case indMap s r of
        Some a \<Rightarrow> (Inr a, s)
      | None \<Rightarrow>
          (case fetch_obj T (xtab s) r of
             (Inl e, t) \<Rightarrow> (Inl e, s\<lparr>xtab := t\<rparr>)
           | (Inr XNull, t) \<Rightarrow>
               (case alloc (new_instance None (Simple XNull)) (mem s) of
                  (a, m) \<Rightarrow> (Inr a, s\<lparr>xtab := t, mem := m\<rparr>))
           | (Inr v, t) \<Rightarrow>
               (case createObjFromXpdfObj (\<lambda>q. fst (fetch_obj T t q)) (Some r) v (mem s) of
                  (Inl e, m) \<Rightarrow> (Inl e, s\<lparr>xtab := t, mem := m\<rparr>)
                | (Inr a, m) \<Rightarrow>
                    (Inr a, s\<lparr>xtab := t, mem := m, indMap := (indMap s)(r \<mapsto> a)\<rparr>))))"

text \<open>\<^verbatim>\<open>utils::getReferencedObject\<close>.\<close>

definition property_getReferencedObject :: "'t prop_table \<Rightarrow> nat \<Rightarrow> (nat, 't) action" where
  "property_getReferencedObject T a =
     andThen (look_at a) (\<lambda>n.
       case held n of
         Simple (XRefObj r) \<Rightarrow>
           if \<not> in_pdf n \<or> \<not> isRefValid (ref_of n) then fail CObjInvalidObject else getIndirectProperty T r
       | _ \<Rightarrow> pass a)"

text \<open>
  \<^verbatim>\<open>CStream::getLength\<close>, with \<^verbatim>\<open>CDict::getProperty<CInt>\<close> inside; every exception becomes the same.
\<close>

definition getLength :: "'t prop_table \<Rightarrow> nat \<Rightarrow> (nat, 't) action" where
  "getLength T d s =
     (case andThen (dict_getProperty d ''Length'') (\<lambda>a. andThen (property_getReferencedObject T a) look_at) s of
        (Inr n, s1) \<Rightarrow>
          (case held n of
             Simple (XInt len) \<Rightarrow> if len < 0 then (Inl UndefinedBehaviour, s1) else (Inr (nat len), s1)
           | _ \<Rightarrow> (Inl CObjInvalidObject, s1))
      | (Inl e, s1) \<Rightarrow> (Inl (if e = UndefinedBehaviour then e else CObjInvalidObject), s1))"

text \<open>
  \<^verbatim>\<open>_makeXpdfObject\<close> of all classes.  A stream asks for its length (and only logs when it is not the
  number of its bytes).
\<close>

function (sequential) makeXpdfObject :: "'t prop_table \<Rightarrow> nat \<Rightarrow> nat \<Rightarrow> (xobj, 't) action"
  and make_list :: "'t prop_table \<Rightarrow> nat \<Rightarrow> nat list \<Rightarrow> (xobj list, 't) action" where
  "makeXpdfObject T 0 a s = (Inl UndefinedBehaviour, s)"
| "makeXpdfObject T (Suc k) a s =
     andThen (look_at a) (\<lambda>n.
       case held n of
         Simple v \<Rightarrow> pass v
       | Members xs \<Rightarrow> andThen (make_list T k xs) (\<lambda>vs. pass (XArray vs))
       | Entries kvs \<Rightarrow> andThen (make_list T k (map snd kvs)) (\<lambda>vs. pass (XDict (zip (map fst kvs) vs)))
       | Streamed d buf \<Rightarrow>
           andThen (getLength T d) (\<lambda>_.
           andThen (makeXpdfObject T k d) (\<lambda>v.
             case v of XDict es \<Rightarrow> pass (XStream es buf) | _ \<Rightarrow> fail UndefinedBehaviour))) s"
| "make_list T k [] s = (Inr [], s)"
| "make_list T k (a # as) s =
     andThen (makeXpdfObject T k a) (\<lambda>v. andThen (make_list T k as) (\<lambda>vs. pass (v # vs))) s"
  by pat_completeness auto
termination
  by (relation "measures [
        (\<lambda>p. case p of Inl (_, k, _) \<Rightarrow> k | Inr (_, k, _) \<Rightarrow> k),
        (\<lambda>p. case p of Inl (_, k, _) \<Rightarrow> 0 | Inr (_, k, as, _) \<Rightarrow> Suc (length as))]") auto

declare makeXpdfObject.simps [simp del] make_list.simps [simp del]

text \<open>\<^verbatim>\<open>CPdf::canChange\<close> and \<^verbatim>\<open>IProperty::canChange\<close>.\<close>

definition pdf_canChange :: "'t prop_table \<Rightarrow> (unit, 't) action" where
  "pdf_canChange T s =
     (if no_credentials T (xtab s) then (Inl PermissionException, s)
      else if is_linearized T (xtab s) then (Inl ReadOnlyDocumentException, s)
      else if \<not> is_latest T (xtab s) then (Inl ReadOnlyDocumentException, s)
      else if is_read_only T (xtab s) then (Inl ReadOnlyDocumentException, s)
      else (Inr (), s))"

definition canChange :: "'t prop_table \<Rightarrow> nat \<Rightarrow> (unit, 't) action" where
  "canChange T a =
     andThen (look_at a) (\<lambda>n. if in_pdf n \<and> wantDispatch n then pdf_canChange T else pass ())"

text \<open>\<^verbatim>\<open>CPdf::changeIndirectProperty\<close>.\<close>

definition changeIndirectProperty :: "'t prop_table \<Rightarrow> nat \<Rightarrow> (unit, 't) action" where
  "changeIndirectProperty T a s =
     (if no_credentials T (xtab s) then (Inl PermissionException, s)
      else if is_read_only T (xtab s) then (Inl ReadOnlyDocumentException, s)
      else if is_encrypted T (xtab s) then (Inl NotImplementedException, s)
      else
        andThen (look_at a) (\<lambda>n.
          if \<not> in_pdf n \<or> indMap s (ref_of n) = None then fail CObjInvalidObject
          else
            andThen (makeXpdfObject T (Suc (limit (mem s))) a) (\<lambda>v s1.
              case change_obj T (xtab s1) (ref_of n) v of
                (Inl e, t) \<Rightarrow> (Inl e, s1\<lparr>xtab := t\<rparr>)
              | (Inr _, t) \<Rightarrow>
                  andThen (getIndirectProperty T (ref_of n)) (\<lambda>b s2.
                    (Inr (), s2\<lparr>indMap := if b = a then indMap s2 else (indMap s2)(ref_of n := None),
                                changed := True\<rparr>))
                    (s1\<lparr>xtab := t\<rparr>))) s)"

text \<open>
  \<^verbatim>\<open>IProperty::dispatchChange\<close> with \<^verbatim>\<open>utils::objHasParent\<close>.  An instance that is not the one of its
  reference passes the change on to that one; the fuel bounds how often.
\<close>

fun dispatchChange :: "'t prop_table \<Rightarrow> nat \<Rightarrow> nat \<Rightarrow> (unit, 't) action" where
  "dispatchChange T 0 a s = (Inl UndefinedBehaviour, s)"
| "dispatchChange T (Suc k) a s =
     andThen (look_at a) (\<lambda>n.
       if \<not> in_pdf n then fail CObjInvalidObject
       else if \<not> isRefValid (ref_of n) then fail UndefinedBehaviour
       else if \<not> wantDispatch n then pass ()
       else
         andThen (getIndirectProperty T (ref_of n)) (\<lambda>p.
           if p = a then changeIndirectProperty T p
           else andThen (look_at p) (\<lambda>q.
             if ref_of q = ref_of n then dispatchChange T k p else fail UndefinedBehaviour))) s"

declare dispatchChange.simps [simp del]

text \<open>One instance passes on to another once: the other is the one of its reference.\<close>

definition dispatch :: "'t prop_table \<Rightarrow> nat \<Rightarrow> (unit, 't) action" where
  "dispatch T = dispatchChange T 2"


section \<open>Changing simple objects\<close>

text \<open>\<^verbatim>\<open>_objectChanged\<close> of simple objects, arrays and dictionaries.\<close>

definition property_objectChanged :: "'t prop_table \<Rightarrow> nat \<Rightarrow> notice \<Rightarrow> (unit, 't) action" where
  "property_objectChanged T a note =
     andThen (look_at a) (\<lambda>n.
       if \<not> in_pdf n then pass ()
       else andThen (assert_that (isRefValid (ref_of n))) (\<lambda>_.
         andThen (dispatch T a) (\<lambda>_. notify note)))"

text \<open>
  \<^verbatim>\<open>CObjectSimple::setValue\<close>.  The class fixes the type of the value, and the one of null objects has
  no values.  The old value of the notice is a clone with the document and the reference of the object.
\<close>

definition setValue :: "'t prop_table \<Rightarrow> nat \<Rightarrow> xobj \<Rightarrow> (unit, 't) action" where
  "setValue T a val =
     andThen (look_at a) (\<lambda>n.
       case held n of
         Simple v \<Rightarrow>
           if getType v = objNull \<or> getType val \<noteq> getType v then fail UndefinedBehaviour
           else
             andThen (canChange T a) (\<lambda>_.
               if in_pdf n then
                 andThen (assert_that (isRefValid (ref_of n))) (\<lambda>_.
                 andThen (clone_of a) (\<lambda>old.
                 andThen (set_pdf (in_pdf n) old) (\<lambda>_.
                 andThen (set_ref (ref_of n) old) (\<lambda>_.
                 andThen (on_memory (hold a (Simple val))) (\<lambda>_.
                   property_objectChanged T a (Notice a (Some a) (Some old) Whole))))))
               else
                 andThen (assert_that (\<not> isRefValid (ref_of n))) (\<lambda>_.
                   on_memory (hold a (Simple val))))
       | _ \<Rightarrow> fail UndefinedBehaviour)"

text \<open>
  \<^verbatim>\<open>CObjectSimple::setStringRepresentation\<close>; \<open>conv\<close> is \<^verbatim>\<open>simpleValueFromString\<close>, which may throw.
\<close>

definition setStringRepresentation ::
    "'t prop_table \<Rightarrow> (string \<Rightarrow> xobj \<Rightarrow> xobj result) \<Rightarrow> nat \<Rightarrow> string \<Rightarrow> (unit, 't) action" where
  "setStringRepresentation T conv a str =
     andThen (look_at a) (\<lambda>n.
       case held n of
         Simple v \<Rightarrow>
           if getType v = objNull then fail UndefinedBehaviour
           else
             andThen (canChange T a) (\<lambda>_.
               if in_pdf n then
                 andThen (assert_that (isRefValid (ref_of n))) (\<lambda>_.
                 andThen (clone_of a) (\<lambda>old.
                 andThen (set_pdf (in_pdf n) old) (\<lambda>_.
                 andThen (set_ref (ref_of n) old) (\<lambda>_.
                   (case conv str v of
                      Inl e \<Rightarrow> fail e
                    | Inr val \<Rightarrow>
                        andThen (on_memory (hold a (Simple val))) (\<lambda>_.
                          property_objectChanged T a (Notice a (Some a) (Some old) Whole)))))))
               else
                 andThen (assert_that (\<not> isRefValid (ref_of n))) (\<lambda>_.
                   (case conv str v of
                      Inl e \<Rightarrow> fail e
                    | Inr val \<Rightarrow> on_memory (hold a (Simple val)))))
       | _ \<Rightarrow> fail UndefinedBehaviour)"

section \<open>Changing containers\<close>

text \<open>The end of every change: who is in a document tells it, who is not has no reference either.\<close>

definition announce :: "'t prop_table \<Rightarrow> nat \<Rightarrow> notice \<Rightarrow> (unit, 't) action" where
  "announce T d note =
     andThen (look_at d) (\<lambda>n.
       if in_pdf n then
         andThen (assert_that (isRefValid (ref_of n))) (\<lambda>_. property_objectChanged T d note)
       else assert_that (\<not> isRefValid (ref_of n)))"

text \<open>A replaced or removed instance of a document loses it and the reference.\<close>

definition release :: "nat \<Rightarrow> nat \<Rightarrow> (unit, 't) action" where
  "release d old =
     andThen (look_at d) (\<lambda>n.
       if in_pdf n then andThen (set_pdf False old) (\<lambda>_. set_ref no_ref old) else pass ())"

fun replace_entry :: "(string \<times> nat) list \<Rightarrow> string \<Rightarrow> nat \<Rightarrow> (string \<times> nat) list" where
  "replace_entry [] key a = []"
| "replace_entry ((k, b) # kvs) key a =
     (if k = key then (k, a) # kvs else (k, b) # replace_entry kvs key a)"

fun drop_entry :: "(string \<times> nat) list \<Rightarrow> string \<Rightarrow> (string \<times> nat) list" where
  "drop_entry [] key = []"
| "drop_entry ((k, b) # kvs) key = (if k = key then kvs else (k, b) # drop_entry kvs key)"

text \<open>\<^verbatim>\<open>CDict::addProperty\<close>, \<^verbatim>\<open>setProperty\<close> and \<^verbatim>\<open>delProperty\<close>.\<close>

definition dict_addProperty :: "'t prop_table \<Rightarrow> nat \<Rightarrow> string \<Rightarrow> nat \<Rightarrow> (nat, 't) action" where
  "dict_addProperty T d name newIp =
     andThen (canChange T d) (\<lambda>_.
     andThen (entries_of d) (\<lambda>(n, kvs).
       if entry_at kvs name \<noteq> None then fail CObjInvalidObject
       else
         andThen (clone_of newIp) (\<lambda>c.
         andThen (set_ref (ref_of n) c) (\<lambda>_.
         andThen (set_pdf (in_pdf n) c) (\<lambda>_.
         andThen (on_memory (hold d (Entries (kvs @ [(name, c)])))) (\<lambda>_.
         andThen (announce T d (Notice d (Some c) None (At_key name))) (\<lambda>_.
         andThen (dict_setMode d c name) (\<lambda>_. pass c))))))))"

definition dict_setProperty :: "'t prop_table \<Rightarrow> nat \<Rightarrow> string \<Rightarrow> nat \<Rightarrow> (nat, 't) action" where
  "dict_setProperty T d key newIp =
     andThen (canChange T d) (\<lambda>_.
     andThen (entries_of d) (\<lambda>(n, kvs).
       case entry_at kvs key of
         None \<Rightarrow> dict_addProperty T d key newIp
       | Some old \<Rightarrow>
           andThen (clone_of newIp) (\<lambda>c.
           andThen (set_ref (ref_of n) c) (\<lambda>_.
           andThen (set_pdf (in_pdf n) c) (\<lambda>_.
           andThen (on_memory (hold d (Entries (replace_entry kvs key c)))) (\<lambda>_.
           andThen (announce T d (Notice d (Some c) (Some old) (At_key key))) (\<lambda>_.
           andThen (release d old) (\<lambda>_.
           andThen (dict_setMode d c key) (\<lambda>_. pass c)))))))))"

definition dict_delProperty :: "'t prop_table \<Rightarrow> nat \<Rightarrow> string \<Rightarrow> (unit, 't) action" where
  "dict_delProperty T d key =
     andThen (canChange T d) (\<lambda>_.
     andThen (entries_of d) (\<lambda>(n, kvs).
       case entry_at kvs key of
         None \<Rightarrow> fail ElementNotFoundException
       | Some old \<Rightarrow>
           andThen (on_memory (hold d (Entries (drop_entry kvs key)))) (\<lambda>_.
           andThen (announce T d (Notice d None (Some old) (At_key key))) (\<lambda>_.
             release d old))))"

text \<open>
  \<^verbatim>\<open>CArray\<close>.  \<^verbatim>\<open>addProperty\<close> counts the position down while it looks for the place, so that the
  notice and the mode are for position 0 unless the member is appended.  \<^verbatim>\<open>std::remove\<close> moves what
  stays to the front, and one element is erased behind it.
\<close>

definition array_addProperty :: "'t prop_table \<Rightarrow> nat \<Rightarrow> nat \<Rightarrow> nat \<Rightarrow> (nat, 't) action" where
  "array_addProperty T d position newIp =
     andThen (members_of d) (\<lambda>(n, xs).
       if length xs < position then fail OutOfRange
       else
         andThen (canChange T d) (\<lambda>_.
         andThen (clone_of newIp) (\<lambda>c.
         andThen (set_pdf (in_pdf n) c) (\<lambda>_.
         andThen (set_ref (ref_of n) c) (\<lambda>_.
         andThen (on_memory (hold d (Members (take position xs @ c # drop position xs)))) (\<lambda>_.
           let counted = (if position = length xs then position else 0) in
           andThen (announce T d (Notice d (Some c) None (At_index counted))) (\<lambda>_.
           andThen (array_setMode d c) (\<lambda>_. pass c))))))))"

definition array_append :: "'t prop_table \<Rightarrow> nat \<Rightarrow> nat \<Rightarrow> (nat, 't) action" where
  "array_append T d newIp =
     andThen (members_of d) (\<lambda>(n, xs). array_addProperty T d (length xs) newIp)"

definition array_setProperty :: "'t prop_table \<Rightarrow> nat \<Rightarrow> nat \<Rightarrow> nat \<Rightarrow> (nat, 't) action" where
  "array_setProperty T d i newIp =
     andThen (members_of d) (\<lambda>(n, xs).
       if length xs \<le> i then array_addProperty T d i newIp
       else
         andThen (canChange T d) (\<lambda>_.
         andThen (clone_of newIp) (\<lambda>c.
         andThen (set_ref (ref_of n) c) (\<lambda>_.
         andThen (set_pdf (in_pdf n) c) (\<lambda>_.
         andThen (on_memory (hold d (Members (map (\<lambda>x. if x = xs ! i then c else x) xs)))) (\<lambda>_.
         andThen (announce T d (Notice d (Some c) (Some (xs ! i)) (At_index i))) (\<lambda>_.
         andThen (release d (xs ! i)) (\<lambda>_.
         andThen (array_setMode d c) (\<lambda>_. pass c)))))))))"

definition erase_member :: "nat list \<Rightarrow> nat \<Rightarrow> nat list" where
  "erase_member xs a = (let stay = filter (\<lambda>x. x \<noteq> a) xs in stay @ drop (Suc (length stay)) xs)"

definition array_delProperty :: "'t prop_table \<Rightarrow> nat \<Rightarrow> nat \<Rightarrow> (unit, 't) action" where
  "array_delProperty T d i =
     andThen (members_of d) (\<lambda>(n, xs).
       if length xs \<le> i then fail OutOfRange
       else
         andThen (canChange T d) (\<lambda>_.
         andThen (on_memory (hold d (Members (erase_member xs (xs ! i))))) (\<lambda>_.
         andThen (announce T d (Notice d None (Some (xs ! i)) (At_index i))) (\<lambda>_.
           release d (xs ! i)))))"

section \<open>Changing streams\<close>

definition stream_of :: "nat \<Rightarrow> (node \<times> nat \<times> string, 't) action" where
  "stream_of a = andThen (look_at a) (\<lambda>n. case held n of Streamed d buf \<Rightarrow> pass (n, d, buf) | _ \<Rightarrow> fail UndefinedBehaviour)"

text \<open>
  \<^verbatim>\<open>CStream::setLength\<close>: the dictionary is locked while its entry is set, so that it does not dispatch
  the change.
\<close>

definition setLength :: "'t prop_table \<Rightarrow> nat \<Rightarrow> nat \<Rightarrow> (unit, 't) action" where
  "setLength T d len =
     andThen (look_at d) (\<lambda>n.
     andThen (assert_that (wantDispatch n)) (\<lambda>_.
     andThen (on_memory (modify d (\<lambda>x. x\<lparr>wantDispatch := False\<rparr>))) (\<lambda>_.
     andThen (try_memory (\<lambda>m. Some (alloc (new_instance None (Simple (XInt (to_int (int len))))) m))) (\<lambda>l.
     andThen (dict_setProperty T d ''Length'' l) (\<lambda>_.
       on_memory (modify d (\<lambda>x. x\<lparr>wantDispatch := True\<rparr>)))))))"

text \<open>\<^verbatim>\<open>CStream::_objectChanged\<close>.\<close>

definition stream_objectChanged :: "'t prop_table \<Rightarrow> nat \<Rightarrow> (unit, 't) action" where
  "stream_objectChanged T a =
     andThen (stream_of a) (\<lambda>(n, d, buf).
       if \<not> in_pdf n then pass ()
       else
         andThen (assert_that (isRefValid (ref_of n))) (\<lambda>_.
         andThen (getLength T d) (\<lambda>len.
         andThen (if len \<noteq> length buf then setLength T d (length buf) else pass ()) (\<lambda>_.
         andThen (dispatch T a) (\<lambda>_. notify (Notice a (Some a) None Whole))))))"

text \<open>\<^verbatim>\<open>CStream::setRawBuffer\<close>, of a stream that is not open for parsing.\<close>

definition setRawBuffer :: "'t prop_table \<Rightarrow> nat \<Rightarrow> string \<Rightarrow> (unit, 't) action" where
  "setRawBuffer T a buf =
     andThen (stream_of a) (\<lambda>(n, d, old).
     andThen (canChange T a) (\<lambda>_.
     andThen (on_memory (hold a (Streamed d buf))) (\<lambda>_.
     andThen (setLength T d (length buf)) (\<lambda>_.
       stream_objectChanged T a))))"

text \<open>
  \<^verbatim>\<open>CStream::getFilters\<close>: a name or an array of names; anything else, a reference too, counts as no
  filter.
\<close>

fun name_of :: "node \<Rightarrow> string result" where
  "name_of n = (case held n of Simple (XName x) \<Rightarrow> Inr x | _ \<Rightarrow> Inl CObjInvalidObject)"

fun names_of :: "memory \<Rightarrow> nat list \<Rightarrow> string list result" where
  "names_of m [] = Inr []"
| "names_of m (a # as) =
     (case cells m a of
        None \<Rightarrow> Inl UndefinedBehaviour
      | Some n \<Rightarrow> rbind (name_of n) (\<lambda>x. rbind (names_of m as) (\<lambda>xs. Inr (x # xs))))"

definition getFilters :: "nat \<Rightarrow> (string list, 't) action" where
  "getFilters d s =
     (case dict_getProperty d ''Filter'' s of
        (Inl e, s1) \<Rightarrow> (if e = ElementNotFoundException then Inr [] else Inl e, s1)
      | (Inr f, s1) \<Rightarrow>
          andThen (look_at f) (\<lambda>n.
            case held n of
              Simple (XName x) \<Rightarrow> pass [x]
            | Members xs \<Rightarrow> (\<lambda>s2. (names_of (mem s2) xs, s2))
            | _ \<Rightarrow> pass []) s1)"

text \<open>\<^verbatim>\<open>CStream::setBuffer\<close>: decoded bytes, so a filter is removed.\<close>

definition setBuffer :: "'t prop_table \<Rightarrow> nat \<Rightarrow> string \<Rightarrow> (unit, 't) action" where
  "setBuffer T a buf =
     andThen (stream_of a) (\<lambda>(n, d, old).
     andThen (canChange T a) (\<lambda>_.
     andThen (on_memory (hold a (Streamed d buf))) (\<lambda>_.
     andThen (getFilters d) (\<lambda>filters.
     andThen (if filters \<noteq> [] then dict_delProperty T d ''Filter'' else pass ()) (\<lambda>_.
     andThen (setLength T d (length buf)) (\<lambda>_.
       stream_objectChanged T a))))))"

text \<open>\<^verbatim>\<open>CStream::CStream (bool)\<close>: a stand alone stream.\<close>

definition new_stream_instance :: "'t prop_table \<Rightarrow> (nat, 't) action" where
  "new_stream_instance T =
     andThen (try_memory (\<lambda>m. Some (alloc (new_instance None (Entries [])) m))) (\<lambda>a.
     andThen (try_memory (\<lambda>m. Some (alloc (new_instance None (Entries [])) m))) (\<lambda>d.
     andThen (try_memory (\<lambda>m. Some (alloc (new_instance None (Simple (XInt 0))) m))) (\<lambda>l.
     andThen (on_memory (hold a (Streamed d []))) (\<lambda>_.
     andThen (dict_addProperty T d ''Length'' l) (\<lambda>_. pass a)))))"

end
