(* ===== verification/Property_Values.thy ===== *)
theory Property_Values
  imports Property_Tree
begin

text \<open>
  The values instances stand for.  What matters is what the cells hold (\<open>shape\<close>), not the document or
  the mode of an instance.  The memory is a forest in which members are younger than their containers;
  a change of one cell changes the values above it at one place, and no others.
\<close>

type_synonym shape = "nat \<Rightarrow> held option"

definition shape :: "memory \<Rightarrow> shape" where
  "shape m a = map_option held (cells m a)"

definition edge :: "shape \<Rightarrow> (nat \<times> nat) set" where
  "edge G = {(a, k). \<exists>c. G a = Some c \<and> k \<in> set (kids c)}"

abbreviation reach :: "shape \<Rightarrow> nat \<Rightarrow> nat \<Rightarrow> bool" where
  "reach G a d \<equiv> (a, d) \<in> (edge G)\<^sup>*"

definition forest :: "shape \<Rightarrow> nat \<Rightarrow> bool" where
  "forest G l \<longleftrightarrow>
     (\<forall>a c. G a = Some c \<longrightarrow> a < l \<and> distinct (kids c) \<and> (\<forall>k\<in>set (kids c). a < k \<and> G k \<noteq> None)) \<and>
     (\<forall>a b k. (a, k) \<in> edge G \<longrightarrow> (b, k) \<in> edge G \<longrightarrow> a = b)"

text \<open>The kind of a value, and its parts in the order of the members.\<close>

fun parts :: "xobj \<Rightarrow> xobj list" where
  "parts (XArray vs) = vs"
| "parts (XDict d) = map snd d"
| "parts (XStream d s) = [XDict d]"
| "parts v = []"

fun simple :: "xobj \<Rightarrow> bool" where
  "simple (XArray vs) = False"
| "simple (XDict d) = False"
| "simple (XStream d s) = False"
| "simple (XCmd c) = False"
| "simple XError = False"
| "simple XEOF = False"
| "simple XNone = False"
| "simple v = True"

fun fits :: "held \<Rightarrow> xobj \<Rightarrow> bool" where
  "fits (Simple u) v = (simple v \<and> u = v)"
| "fits (Members xs) (XArray vs) = True"
| "fits (Entries kvs) (XDict d) = (map fst kvs = map fst d)"
| "fits (Streamed q s) (XStream d s') = (s = s')"
| "fits c v = False"

fun sort_of :: "held \<Rightarrow> objtype" where
  "sort_of (Simple v) = getType v"
| "sort_of (Members xs) = objArray"
| "sort_of (Entries kvs) = objDict"
| "sort_of (Streamed d s) = objStream"

lemma null_type: "objNull = getType v \<longleftrightarrow> v = XNull"
  by (cases v) auto

lemma fits_sort: "fits c v \<Longrightarrow> sort_of c = getType v"
  by (cases c; cases v) auto

inductive rep :: "shape \<Rightarrow> nat \<Rightarrow> xobj \<Rightarrow> bool" for G where
  rep: "G a = Some c \<Longrightarrow> fits c v \<Longrightarrow> list_all2 (rep G) (kids c) (parts v) \<Longrightarrow> rep G a v"

inductive_cases repE: "rep G a v"

lemma simple_parts [simp]: "simple v \<Longrightarrow> parts v = []"
  by (cases v) auto

lemma fits_Simple [simp]: "fits c v \<Longrightarrow> parts v = [] \<Longrightarrow> simple v \<Longrightarrow> c = Simple v"
  by (cases c; cases v) auto

lemma rep_iff:
  "rep G a v \<longleftrightarrow> (\<exists>c. G a = Some c \<and> fits c v \<and> list_all2 (rep G) (kids c) (parts v))"
  by (auto intro: rep.intros elim: repE)

lemma fits_cases:
  assumes "fits c v"
  obtains (simple) "c = Simple v" "simple v"
  | (array) xs vs where "c = Members xs" "v = XArray vs"
  | (dict) kvs d where "c = Entries kvs" "v = XDict d" "map fst kvs = map fst d"
  | (stream) q s d where "c = Streamed q s" "v = XStream d s"
  using assms by (cases c; cases v) auto

lemma fits_parts_inj:
  "fits c v \<Longrightarrow> fits c w \<Longrightarrow> parts v = parts w \<Longrightarrow> v = w"
proof (cases c)
  case (Entries kvs)
  assume a: "fits c v" "fits c w" "parts v = parts w"
  from a(1) Entries obtain d where v: "v = XDict d" "map fst kvs = map fst d" by (cases v) auto
  from a(2) Entries obtain e where w: "w = XDict e" "map fst kvs = map fst e" by (cases w) auto
  from v w a(3) have "map fst d = map fst e" "map snd d = map snd e" by simp_all
  then have "zip (map fst d) (map snd d) = zip (map fst e) (map snd e)" by simp
  then show "v = w" using v w by (simp add: zip_map_fst_snd)
qed (cases v; cases w; auto)+

lemma rep_unique: "rep G a v \<Longrightarrow> rep G a w \<Longrightarrow> v = w"
proof (induction arbitrary: w rule: rep.induct)
  case (rep a c v)
  from rep.prems rep.hyps(1) have w: "fits c w" "list_all2 (rep G) (kids c) (parts w)"
    by (auto simp: rep_iff [of G a w])
  have "parts v = parts w"
    using rep.IH(1) w(2)
    by (auto simp: list_all2_conv_all_nth intro!: nth_equalityI)
  with rep.hyps(2) w(1) show ?case by (rule fits_parts_inj)
qed

lemma edgeI: "G a = Some c \<Longrightarrow> k \<in> set (kids c) \<Longrightarrow> (a, k) \<in> edge G"
  by (auto simp: edge_def)

lemma reach_step: "G a = Some c \<Longrightarrow> k \<in> set (kids c) \<Longrightarrow> reach G k x \<Longrightarrow> reach G a x"
  by (meson edgeI converse_rtrancl_into_rtrancl)

lemma rep_frame:
  "rep G a v \<Longrightarrow> (\<And>x. reach G a x \<Longrightarrow> G' x = G x) \<Longrightarrow> rep G' a v"
proof (induction rule: rep.induct)
  case (rep a c v)
  have "list_all2 (rep G') (kids c) (parts v)"
    using rep.IH(1) by (rule list.rel_mono_strong) (use rep.prems reach_step [of G a c] rep.hyps(1) in blast)
  moreover have "G' a = Some c" using rep.prems [of a] rep.hyps(1) by simp
  ultimately show ?case using rep.hyps(2) by (intro rep.intros)
qed

lemma forestD:
  "forest G l \<Longrightarrow> G a = Some c \<Longrightarrow> a < l"
  "forest G l \<Longrightarrow> G a = Some c \<Longrightarrow> distinct (kids c)"
  "forest G l \<Longrightarrow> G a = Some c \<Longrightarrow> k \<in> set (kids c) \<Longrightarrow> a < k"
  "forest G l \<Longrightarrow> G a = Some c \<Longrightarrow> k \<in> set (kids c) \<Longrightarrow> G k \<noteq> None"
  "forest G l \<Longrightarrow> (a, k) \<in> edge G \<Longrightarrow> (b, k) \<in> edge G \<Longrightarrow> a = b"
  unfolding forest_def by blast+

lemma forest_edge: "forest G l \<Longrightarrow> (a, k) \<in> edge G \<Longrightarrow> a < k \<and> k < l \<and> G k \<noteq> None"
  by (auto simp: edge_def dest: forestD)

lemma reach_le: "reach G a d \<Longrightarrow> forest G l \<Longrightarrow> a \<le> d"
  by (induction rule: rtrancl_induct) (auto dest: forest_edge)

lemma reach_alive: "reach G a d \<Longrightarrow> forest G l \<Longrightarrow> G a \<noteq> None \<Longrightarrow> G d \<noteq> None"
  by (induction rule: rtrancl_induct) (auto dest: forest_edge)

text \<open>Two instances above a third one are above one another; members have disjoint trees.\<close>

lemma reach_linear:
  assumes "reach G b d" "reach G a d" "forest G l"
  shows "reach G a b \<or> reach G b a"
  using assms(1,2)
proof (induction rule: rtrancl_induct)
  case (step y z)
  from step.prems show ?case
  proof (cases rule: rtranclE)
    case base
    then show ?thesis using step.hyps by (auto intro: rtrancl_into_rtrancl)
  next
    case (step u)
    then have "u = y" using step.hyps(2) assms(3) \<open>(y, z) \<in> edge G\<close> forestD(5) by blast
    with step show ?thesis using step.IH by blast
  qed
qed simp

lemma kids_disjoint:
  assumes f: "forest G l" and c: "G a = Some c" "k \<in> set (kids c)" "k' \<in> set (kids c)"
    and r: "reach G k d" "reach G k' d"
  shows "k = k'"
proof -
  have no: "x = y" if "reach G x y" "x \<in> set (kids c)" "y \<in> set (kids c)" for x y
    using that(1)
  proof (cases rule: rtranclE)
    case (step u)
    have "(a, y) \<in> edge G" using c(1) that(3) by (rule edgeI)
    with step(2) f have "u = a" by (blast dest: forestD(5))
    with step(1) f have "x \<le> a" by (auto dest: reach_le)
    moreover have "a < x" using f c(1) that(2) by (rule forestD(3))
    ultimately show ?thesis by simp
  qed
  from reach_linear [OF r f] no c(2,3) show ?thesis by metis
qed

text \<open>What the instances of streams must have: a length that is true.\<close>

fun sound_at :: "shape \<Rightarrow> held \<Rightarrow> bool" where
  "sound_at G (Simple v) = simple v"
| "sound_at G (Streamed q s) =
     (\<exists>kvs k. G q = Some (Entries kvs) \<and> entry_at kvs ''Length'' = Some k \<and>
        G k = Some (Simple (XInt (int (length s)))))"
| "sound_at G c = True"

definition sound :: "shape \<Rightarrow> bool" where
  "sound G \<longleftrightarrow> (\<forall>a c. G a = Some c \<longrightarrow> sound_at G c)"

lemma soundD: "sound G \<Longrightarrow> G a = Some c \<Longrightarrow> sound_at G c"
  by (simp add: sound_def)

lemma rep_exists:
  assumes f: "forest G l" and s: "sound G" and a: "G a = Some c"
  shows "\<exists>v. rep G a v"
  using a
proof (induction "l - a" arbitrary: a c rule: less_induct)
  case less
  have kid: "\<exists>w. rep G k w" if "k \<in> set (kids c)" for k
  proof -
    from forestD(3,4) [OF f less.prems that] obtain c' where "a < k" "G k = Some c'" by blast
    moreover have "l - k < l - a"
      using \<open>a < k\<close> forestD(1) [OF f less.prems] by (simp add: diff_less_mono2)
    ultimately show ?thesis using less.hyps by blast
  qed
  then obtain w where w: "\<And>k. k \<in> set (kids c) \<Longrightarrow> rep G k (w k)" by metis
  show ?case
  proof (cases c)
    case (Simple v)
    with soundD [OF s less.prems] less.prems have "rep G a v" by (simp add: rep_iff [of G a v])
    then show ?thesis by blast
  next
    case (Members xs)
    have "list_all2 (rep G) xs (map w xs)" using w Members by (simp add: list_all2_conv_all_nth)
    with Members less.prems have "rep G a (XArray (map w xs))" by (simp add: rep_iff [of G a])
    then show ?thesis by blast
  next
    case (Entries kvs)
    let ?d = "map (\<lambda>(k, x). (k, w x)) kvs"
    have "list_all2 (rep G) (map snd kvs) (map snd ?d)" using w Entries
      by (auto simp: list_all2_conv_all_nth case_prod_beta)
    with Entries less.prems have "rep G a (XDict ?d)"
      by (simp add: rep_iff [of G a] case_prod_beta comp_def)
    then show ?thesis by blast
  next
    case (Streamed q s)
    with soundD [OF \<open>sound G\<close> less.prems] obtain kvs where q: "G q = Some (Entries kvs)" by auto
    have "rep G q (w q)" using w Streamed by simp
    then have "fits (Entries kvs) (w q)" using q by (simp add: rep_iff [of G q])
    then obtain d where "w q = XDict d" by (cases "w q") auto
    with \<open>rep G q (w q)\<close> Streamed less.prems have "rep G a (XStream d s)"
      by (simp add: rep_iff [of G a])
    then show ?thesis by blast
  qed
qed


section \<open>Plain values\<close>

fun plain :: "xobj \<Rightarrow> bool" and plain_list :: "xobj list \<Rightarrow> bool" and plain_dict :: "dict \<Rightarrow> bool" where
  "plain (XArray vs) = plain_list vs"
| "plain (XDict d) = plain_dict d"
| "plain (XStream d s) = (plain_dict d \<and> dict_find d ''Length'' = Some (XInt (int (length s))))"
| "plain v = simple v"
| "plain_list [] = True"
| "plain_list (v # vs) = (plain v \<and> plain_list vs)"
| "plain_dict [] = True"
| "plain_dict ((k, v) # d) = (plain v \<and> plain_dict d)"

lemma plain_list_iff: "plain_list vs \<longleftrightarrow> (\<forall>v\<in>set vs. plain v)"
  by (induction vs) auto

lemma plain_dict_iff: "plain_dict d \<longleftrightarrow> (\<forall>v\<in>set (map snd d). plain v)"
proof (induction d)
  case (Cons x d)
  then show ?case by (cases x) simp
qed simp

lemma plain_parts: "plain v \<Longrightarrow> w \<in> set (parts v) \<Longrightarrow> plain w"
  by (cases v) (auto simp: plain_list_iff plain_dict_iff)

lemma simple_plain: "simple v \<Longrightarrow> plain v"
  by (cases v) auto

lemma entry_rep:
  assumes "list_all2 (rep G) (map snd kvs) (map snd d)" "map fst kvs = map fst d"
  shows "rel_option (rep G) (entry_at kvs key) (dict_find d key)"
  using assms
proof (induction kvs arbitrary: d)
  case (Cons x kvs)
  then show ?case by (cases x; cases d) auto
qed simp

lemma rep_plain: "rep G a v \<Longrightarrow> sound G \<Longrightarrow> plain v"
proof (induction rule: rep.induct)
  case (rep a c v)
  from rep.IH(1) rep.prems have parts: "\<forall>w\<in>set (parts v). plain w"
    by (auto simp: list_all2_conv_all_nth in_set_conv_nth)
  from rep.hyps(2) show ?case
  proof (cases rule: fits_cases)
    case (stream q s d)
    with soundD [OF rep.prems rep.hyps(1)] obtain kvs k where
      q: "G q = Some (Entries kvs)" "entry_at kvs ''Length'' = Some k" "G k = Some (Simple (XInt (int (length s))))"
      by auto
    from rep.IH(1) stream have "rep G q (XDict d)" by simp
    with q(1) have "list_all2 (rep G) (map snd kvs) (map snd d)" "map fst kvs = map fst d"
      by (auto simp: rep_iff [of G q])
    from entry_rep [OF this, of "''Length''"] q(2) obtain w where
      w: "dict_find d ''Length'' = Some w" "rep G k w" by (auto simp: option_rel_Some1)
    from w(2) q(3) have "w = XInt (int (length s))" by (simp add: rep_iff [of G k])
    with w(1) parts stream show ?thesis by simp
  qed (use parts in \<open>auto simp: simple_plain plain_list_iff plain_dict_iff\<close>)
qed

section \<open>Places in a value\<close>

text \<open>A path is the list of the indices of members on the way down; the dictionary is member 0 of a stream.\<close>

fun walk :: "shape \<Rightarrow> nat \<Rightarrow> nat list \<Rightarrow> nat option" where
  "walk G a [] = Some a"
| "walk G a (i # p) =
     (case G a of
        None \<Rightarrow> None
      | Some c \<Rightarrow> if i < length (kids c) then walk G (kids c ! i) p else None)"

fun value_at :: "nat list \<Rightarrow> xobj \<Rightarrow> xobj option" where
  "value_at [] v = Some v"
| "value_at (i # p) v = (if i < length (parts v) then value_at p (parts v ! i) else None)"

fun with_parts :: "xobj \<Rightarrow> xobj list \<Rightarrow> xobj" where
  "with_parts (XArray vs) ws = XArray ws"
| "with_parts (XDict d) ws = XDict (zip (map fst d) ws)"
| "with_parts (XStream d s) ws = (case ws of [XDict e] \<Rightarrow> XStream e s | _ \<Rightarrow> XStream d s)"
| "with_parts v ws = v"

fun put_at :: "nat list \<Rightarrow> xobj \<Rightarrow> xobj \<Rightarrow> xobj" where
  "put_at [] u v = u"
| "put_at (i # p) u v = with_parts v ((parts v)[i := put_at p u (parts v ! i)])"

lemma walk_reach: "walk G a p = Some d \<Longrightarrow> reach G a d"
proof (induction G a p rule: walk.induct)
  case (2 G a i p)
  then obtain c where "G a = Some c" "i < length (kids c)" "reach G (kids c ! i) d"
    by (auto split: option.splits if_splits)
  then show ?case using reach_step [of G a c "kids c ! i" d] by simp
qed simp

lemma walk_append: "walk G a (p @ q) = Option.bind (walk G a p) (\<lambda>b. walk G b q)"
  by (induction G a p rule: walk.induct) (auto split: option.splits)

lemma reach_walk: "reach G a d \<Longrightarrow> \<exists>p. walk G a p = Some d"
proof (induction rule: rtrancl_induct)
  case base
  show ?case by (rule exI [of _ "[]"]) simp
next
  case (step y z)
  then obtain p c where p: "walk G a p = Some y" "G y = Some c" "z \<in> set (kids c)" by (auto simp: edge_def)
  from p(3) obtain i where "i < length (kids c)" "kids c ! i = z" by (auto simp: in_set_conv_nth)
  with p have "walk G a (p @ [i]) = Some z" by (simp add: walk_append)
  then show ?case by blast
qed

lemma walk_rep: "walk G a p = Some d \<Longrightarrow> rep G a v \<Longrightarrow> \<exists>u. value_at p v = Some u \<and> rep G d u"
proof (induction G a p arbitrary: v rule: walk.induct)
  case (2 G a i p)
  from "2.prems"(1) obtain c where c: "G a = Some c" "i < length (kids c)" "walk G (kids c ! i) p = Some d"
    by (auto split: option.splits if_splits)
  from "2.prems"(2) c(1) have l: "list_all2 (rep G) (kids c) (parts v)" by (simp add: rep_iff [of G a])
  then have "i < length (parts v)" "rep G (kids c ! i) (parts v ! i)"
    using c(2) by (auto simp: list_all2_conv_all_nth)
  with "2.IH" [OF c(1,2,3)] show ?case by simp
qed simp

lemma getType_with_parts [simp]: "getType (with_parts v ws) = getType v"
  by (cases v) (auto split: list.splits xobj.splits)

lemma getType_put_at:
  "value_at p v = Some u \<Longrightarrow> getType u' = getType u \<Longrightarrow> getType (put_at p u' v) = getType v"
  by (cases p) simp_all

lemma fits_with_parts:
  assumes "fits c v" "length ws = length (parts v)" "map getType ws = map getType (parts v)"
  shows "fits c (with_parts v ws) \<and> parts (with_parts v ws) = ws"
  using assms(1)
proof (cases rule: fits_cases)
  case (stream q s d)
  with assms(2,3) obtain w where "ws = [w]" "getType w = objDict" by (cases ws) auto
  moreover from this(2) obtain e where "w = XDict e" by (cases w) auto
  ultimately show ?thesis using stream by simp
next
  case simple
  with assms(2) show ?thesis by (cases v) auto
qed (use assms(2) in auto)

text \<open>A change of the cell \<open>d\<close> (and of cells that are not below \<open>a\<close>) changes the value at the place of \<open>d\<close>.\<close>

lemma rep_put:
  assumes f: "forest G l" and G': "\<And>x. reach G a x \<Longrightarrow> x \<noteq> d \<Longrightarrow> G' x = G x"
    and u: "rep G d u" "rep G' d u'" "getType u' = getType u"
  shows "walk G a p = Some d \<Longrightarrow> rep G a v \<Longrightarrow> rep G' a (put_at p u' v)"
  using G'
proof (induction p arbitrary: a v)
  case Nil
  with u show ?case by simp
next
  case (Cons i p)
  from Cons.prems(1) obtain c where c: "G a = Some c" "i < length (kids c)" "walk G (kids c ! i) p = Some d"
    by (auto split: option.splits if_splits)
  from Cons.prems(2) c(1) have fit: "fits c v" and l: "list_all2 (rep G) (kids c) (parts v)"
    by (simp_all add: rep_iff [of G a])
  have len: "length (parts v) = length (kids c)" using l by (simp add: list_all2_lengthD)
  have kid: "kids c ! i \<in> set (kids c)" using c(2) by simp
  have below: "reach G (kids c ! i) d" by (rule walk_reach [OF c(3)])
  have "a < d" using forestD(3) [OF f c(1) kid] reach_le [OF below f] by simp
  then have a: "G' a = Some c" using Cons.prems(3) [of a] c(1) by simp
  let ?w = "put_at p u' (parts v ! i)"
  have ri: "rep G (kids c ! i) (parts v ! i)" using l c(2) by (simp add: list_all2_conv_all_nth)
  have w: "rep G' (kids c ! i) ?w"
    by (rule Cons.IH [OF c(3) ri]) (use Cons.prems(3) reach_step [of G a c] c(1) kid in blast)
  have other: "rep G' (kids c ! j) (parts v ! j)" if j: "j < length (kids c)" "j \<noteq> i" for j
  proof (rule rep_frame)
    show "rep G (kids c ! j) (parts v ! j)" using l j(1) by (simp add: list_all2_conv_all_nth)
    fix x assume x: "reach G (kids c ! j) x"
    have "x \<noteq> d"
    proof
      assume "x = d"
      with x have "kids c ! j = kids c ! i" using kids_disjoint [OF f c(1) _ kid _ below] j(1) by simp
      with forestD(2) [OF f c(1)] j c(2) show False by (simp add: nth_eq_iff_index_eq)
    qed
    then show "G' x = G x" using Cons.prems(3) reach_step [OF c(1) _ x] j(1) by simp
  qed
  have l': "list_all2 (rep G') (kids c) ((parts v)[i := ?w])"
  proof (rule list_all2_all_nthI)
    fix j assume "j < length (kids c)"
    then show "rep G' (kids c ! j) ((parts v)[i := ?w] ! j)"
      using w other [of j] len by (cases "j = i") simp_all
  qed (simp add: len)
  have t: "getType ?w = getType (parts v ! i)"
    using walk_rep [OF c(3) ri] u(1,3) by (auto intro!: getType_put_at dest: rep_unique)
  have "map getType ((parts v)[i := ?w]) = map getType (parts v)"
    using t by (simp add: map_update)  (metis list_update_id list_update_beyond map_update linorder_not_less nth_map)
  from fits_with_parts [OF fit _ this] have "fits c (with_parts v ((parts v)[i := ?w]))"
    "parts (with_parts v ((parts v)[i := ?w])) = (parts v)[i := ?w]" by simp_all
  then show ?case using a l' by (simp add: rep_iff [of G' a])
qed

section \<open>Changes of the memory\<close>

lemma shape_alloc: "shape (snd (alloc n m)) = (shape m)(limit m \<mapsto> held n)"
  by (auto simp: shape_def alloc_def fun_eq_iff)

lemma shape_hold: "shape (hold a c m) = (shape m)(a := map_option (\<lambda>_. c) (shape m a))"
  by (auto simp: shape_def hold_def modify_def fun_eq_iff option.map_comp comp_def)

lemma shape_modify: "(\<And>n. held (f n) = held n) \<Longrightarrow> shape (modify a f m) = shape m"
  by (auto simp: shape_def modify_def fun_eq_iff option.map_comp comp_def)

lemma memory_simps [simp]:
  "limit (modify a f m) = limit m" "limit (hold a c m) = limit m"
  "cells (modify a f m) = (cells m)(a := map_option f (cells m a))"
  "limit (snd (alloc n m)) = Suc (limit m)" "cells (snd (alloc n m)) = (cells m)(limit m \<mapsto> n)"
  "fst (alloc n m) = limit m"
  by (simp_all add: modify_def hold_def alloc_def)

lemma alloc_eq: "alloc n m = (limit m, snd (alloc n m))"
  by (simp add: alloc_def)

lemma shape_None: "shape m a = None \<longleftrightarrow> cells m a = None"
  by (simp add: shape_def)

lemma shape_Some: "shape m a = Some c \<longleftrightarrow> (\<exists>n. cells m a = Some n \<and> held n = c)"
  by (auto simp: shape_def)

definition treed :: "memory \<Rightarrow> bool" where
  "treed m \<longleftrightarrow> forest (shape m) (limit m)"

lemma treed_limit: "treed m \<Longrightarrow> cells m x = Some n \<Longrightarrow> x < limit m"
  using forestD(1) [of "shape m" "limit m" x "held n"] by (auto simp: treed_def shape_def)

text \<open>The recursion over the cells below one applies the function to each of them.\<close>

definition below_changed :: "(node \<Rightarrow> node) \<Rightarrow> nat set \<Rightarrow> memory \<Rightarrow> memory \<Rightarrow> bool" where
  "below_changed f as m m' \<longleftrightarrow> limit m' = limit m \<and>
     (\<forall>x. cells m' x = (if \<exists>a\<in>as. reach (shape m) a x then map_option f (cells m x) else cells m x))"

lemma below_changed_shape: "below_changed f as m m' \<Longrightarrow> (\<And>n. held (f n) = held n) \<Longrightarrow> shape m' = shape m"
  by (auto simp: below_changed_def shape_def fun_eq_iff option.map_comp comp_def)

definition neutral :: "(node \<Rightarrow> node) \<Rightarrow> bool" where
  "neutral f \<longleftrightarrow> (\<forall>n. held (f n) = held n \<and> f (f n) = f n)"

lemma neutralD: "neutral f \<Longrightarrow> held (f n) = held n" "neutral f \<Longrightarrow> f (f n) = f n"
  by (simp_all add: neutral_def)

lemma each_spec:
  shows "neutral f \<Longrightarrow> forest (shape m) l \<Longrightarrow> shape m a \<noteq> None \<Longrightarrow> l \<le> a + k \<Longrightarrow>
      \<exists>m'. each f k a m = Some m' \<and> below_changed f {a} m m'"
    and "neutral f \<Longrightarrow> forest (shape m) l \<Longrightarrow> \<forall>a\<in>set as. shape m a \<noteq> None \<and> l \<le> a + k \<Longrightarrow>
      \<exists>m'. each_list f k as m = Some m' \<and> below_changed f (set as) m m'"
proof (induction f k a m and f k as m rule: each_each_list.induct)
  case (1 f a m)
  then show ?case using forestD(1) [of "shape m" l a] by fastforce
next
  case (2 f k a m)
  then obtain n where n: "cells m a = Some n" by (auto simp: shape_def)
  then have c: "shape m a = Some (held n)" by (simp add: shape_def)
  let ?m = "modify a f m"
  note h = neutralD(1) [OF "2.prems"(1)] and i = neutralD(2) [OF "2.prems"(1)]
  have sh: "shape ?m = shape m" by (rule shape_modify) (rule h)
  have kids: "\<forall>x\<in>set (kids (held n)). shape ?m x \<noteq> None \<and> l \<le> x + k"
    using forestD(3,4) [OF "2.prems"(2) c] "2.prems"(4) sh by fastforce
  have "\<exists>m'. each_list f k (kids (held n)) ?m = Some m' \<and> below_changed f (set (kids (held n))) ?m m'"
    using "2.IH" [OF n] "2.prems"(1,2) kids sh by simp
  then obtain m' where m': "each_list f k (kids (held n)) ?m = Some m'"
    "below_changed f (set (kids (held n))) ?m m'" by blast
  have r: "reach (shape m) a x \<longleftrightarrow> x = a \<or> (\<exists>y\<in>set (kids (held n)). reach (shape m) y x)" for x
  proof
    assume "reach (shape m) a x"
    then show "x = a \<or> (\<exists>y\<in>set (kids (held n)). reach (shape m) y x)"
      by (cases rule: converse_rtranclE) (auto simp: edge_def c)
  qed (use reach_step [of "shape m" a, OF c] in auto)
  have "below_changed f {a} m m'"
    using m'(2) n i unfolding below_changed_def sh by (auto simp: r)
  with m'(1) n show ?case by (simp add: each.simps)
next
  case (4 f k a as m)
  then obtain m1 where m1: "each f k a m = Some m1" "below_changed f {a} m m1" by auto
  note h = neutralD(1) [OF "4.prems"(1)] and i = neutralD(2) [OF "4.prems"(1)]
  have sh: "shape m1 = shape m" using m1(2) h by (rule below_changed_shape)
  have "\<exists>m'. each_list f k as m1 = Some m' \<and> below_changed f (set as) m1 m'"
    using "4.IH"(2) [OF m1(1)] "4.prems" sh by simp
  then obtain m' where m': "each_list f k as m1 = Some m'" "below_changed f (set as) m1 m'" by blast
  have "below_changed f (set (a # as)) m m'"
    using m1(2) m'(2) i unfolding below_changed_def sh by (auto simp: option.map_comp comp_def)
  with m1(1) m'(1) show ?case by (simp add: each_list.simps)
qed (simp add: each_list.simps below_changed_def)


section \<open>New instances\<close>

text \<open>
  A memory \<open>m'\<close> has new instances \<open>bs\<close> for the values \<open>vs\<close>: the old cells are as before, and what is
  new is below them.
\<close>

definition grown :: "memory \<Rightarrow> memory \<Rightarrow> bool" where
  "grown m m' \<longleftrightarrow> limit m \<le> limit m' \<and> (\<forall>x<limit m. cells m' x = cells m x)"

definition built :: "(node \<Rightarrow> bool) \<Rightarrow> memory \<Rightarrow> memory \<Rightarrow> nat list \<Rightarrow> xobj list \<Rightarrow> bool" where
  "built P m m' bs vs \<longleftrightarrow>
     grown m m' \<and> treed m' \<and> list_all2 (rep (shape m')) bs vs \<and> distinct bs \<and>
     (\<forall>b\<in>set bs. limit m \<le> b \<and> (\<forall>a. (a, b) \<notin> edge (shape m'))) \<and>
     (\<forall>x n. limit m \<le> x \<longrightarrow> cells m' x = Some n \<longrightarrow>
        sound_at (shape m') (held n) \<and> P n \<and> (\<exists>b\<in>set bs. reach (shape m') b x))"

lemma builtD:
  assumes "built P m m' bs vs"
  shows "grown m m'" "treed m'" "list_all2 (rep (shape m')) bs vs" "distinct bs"
    "b \<in> set bs \<Longrightarrow> limit m \<le> b" "b \<in> set bs \<Longrightarrow> (a, b) \<notin> edge (shape m')"
    "limit m \<le> x \<Longrightarrow> cells m' x = Some n \<Longrightarrow> sound_at (shape m') (held n)"
    "limit m \<le> x \<Longrightarrow> cells m' x = Some n \<Longrightarrow> P n"
    "limit m \<le> x \<Longrightarrow> cells m' x = Some n \<Longrightarrow> \<exists>b\<in>set bs. reach (shape m') b x"
  using assms unfolding built_def by blast+

lemma grown_refl [simp]: "grown m m"
  by (simp add: grown_def)

lemma grown_trans: "grown m m1 \<Longrightarrow> grown m1 m2 \<Longrightarrow> grown m m2"
  by (simp add: grown_def)

lemma grown_shape: "grown m m' \<Longrightarrow> x < limit m \<Longrightarrow> shape m' x = shape m x"
  by (simp add: grown_def shape_def)

lemma grown_alive: "grown m m' \<Longrightarrow> treed m \<Longrightarrow> shape m x = Some c \<Longrightarrow> shape m' x = Some c"
  using forestD(1) [of "shape m" "limit m" x c] grown_shape [of m m' x] by (simp add: treed_def)

text \<open>What is old reaches the same cells as before.\<close>

lemma grown_reach:
  assumes g: "grown m m'" and t: "treed m" and a: "a < limit m"
  shows "reach (shape m') a x \<longleftrightarrow> reach (shape m) a x"
proof -
  have old: "(y, z) \<in> edge (shape m') \<longleftrightarrow> (y, z) \<in> edge (shape m)" if "y < limit m" for y z
    using grown_shape [OF g that] by (simp add: edge_def)
  have to: "reach (shape m) a x \<and> x < limit m" if "reach (shape m') a x" for x
    using that
  proof (induction rule: rtrancl_induct)
    case base
    show ?case using a by simp
  next
    case (step y z)
    then have e: "(y, z) \<in> edge (shape m)" using old by blast
    have "z < limit m" using forest_edge [OF t [unfolded treed_def] e] by simp
    with e show ?case using step.IH by (auto intro: rtrancl_into_rtrancl)
  qed
  have from_old: "reach (shape m') a x \<and> x < limit m" if "reach (shape m) a x" for x
    using that
  proof (induction rule: rtrancl_induct)
    case base
    show ?case using a by simp
  next
    case (step y z)
    moreover have "z < limit m" using forest_edge [OF t [unfolded treed_def] step.hyps(2)] by simp
    ultimately show ?case using old by (auto intro: rtrancl_into_rtrancl)
  qed
  from to from_old show ?thesis by blast
qed

lemma grown_reach_old:
  "grown m m' \<Longrightarrow> treed m \<Longrightarrow> a < limit m \<Longrightarrow> reach (shape m') a x \<Longrightarrow> x < limit m"
proof -
  assume a: "grown m m'" "treed m" "a < limit m" "reach (shape m') a x"
  then have r: "reach (shape m) a x" by (simp add: grown_reach)
  from r show "x < limit m"
  proof (cases rule: rtranclE)
    case (step y)
    then show ?thesis using forest_edge [OF a(2) [unfolded treed_def] step(2)] by simp
  qed (use a(3) in simp)
qed

lemma rep_alive: "rep (shape m) a v \<Longrightarrow> treed m \<Longrightarrow> a < limit m"
  by (auto simp: rep_iff [of "shape m"] treed_def dest: forestD(1))

lemma grown_rep:
  assumes "grown m m'" "treed m" "rep (shape m) a v"
  shows "rep (shape m') a v"
proof (rule rep_frame [OF assms(3)])
  fix x assume "reach (shape m) a x"
  moreover have "a < limit m" using assms rep_alive by blast
  ultimately have "x < limit m" using grown_reach [OF assms(1,2)] grown_reach_old [OF assms(1,2)] by blast
  then show "shape m' x = shape m x" by (rule grown_shape [OF assms(1)])
qed

lemma sound_at_grown:
  assumes "grown m m'" "treed m" "sound_at (shape m) c"
  shows "sound_at (shape m') c"
  using assms(3) grown_alive [OF assms(1,2)] by (cases c) auto

lemma built_Nil: "treed m \<Longrightarrow> built P m m [] []"
  using treed_limit [of m] by (fastforce simp: built_def)

lemma built_Cons:
  assumes 1: "built P m m1 [b] [v]" and 2: "built P m1 m2 bs vs"
  shows "built P m m2 (b # bs) (v # vs)"
proof -
  note t1 = builtD(2) [OF 1] and g1 = builtD(1) [OF 1] and g2 = builtD(1) [OF 2]
  have b: "b < limit m1" using builtD(3) [OF 1] t1 by (auto dest: rep_alive)
  have le: "limit m \<le> limit m1" using g1 by (simp add: grown_def)
  have new: "limit m1 \<le> y" if "(x, y) \<in> edge (shape m2)" "limit m1 \<le> x" for x y
    using forest_edge [OF builtD(2) [OF 2, unfolded treed_def] that(1)] that(2) by simp
  have nb: "(a, b) \<notin> edge (shape m2)" for a
  proof
    assume e: "(a, b) \<in> edge (shape m2)"
    show False
    proof (cases "limit m1 \<le> a")
      case True
      with new [OF e] b show False by simp
    next
      case False
      then have "(a, b) \<in> edge (shape m1)" using e grown_shape [OF g2, of a] by (simp add: edge_def)
      with builtD(6) [OF 1] show False by simp
    qed
  qed
  have cells: "sound_at (shape m2) (held n) \<and> P n \<and> (\<exists>c\<in>set (b # bs). reach (shape m2) c x)"
    if x: "limit m \<le> x" "cells m2 x = Some n" for x n
  proof (cases "x < limit m1")
    case True
    then have c: "cells m1 x = Some n" using x(2) g2 by (simp add: grown_def)
    show ?thesis
      using builtD(7,8,9) [OF 1 x(1) c] sound_at_grown [OF g2 t1] grown_reach [OF g2 t1 b] by simp
  next
    case False
    then show ?thesis using builtD(7,8,9) [OF 2 _ x(2)] by auto
  qed
  have "rep (shape m2) b v" using builtD(3) [OF 1] by (simp add: grown_rep [OF g2 t1])
  moreover have "\<forall>c\<in>set bs. limit m \<le> c" "b \<notin> set bs" "limit m \<le> b"
    using builtD(5) [OF 2] builtD(5) [OF 1] b le by fastforce+
  ultimately show ?thesis
    unfolding built_def using grown_trans [OF g1 g2] builtD(2,3,4,6) [OF 2] nb cells by simp
qed

text \<open>A container is filled with what was built for it.\<close>

lemma built_top:
  assumes t: "treed m" and k: "kids (held n0) = []" and b: "built P (snd (alloc n0 m)) m2 bs vs"
    and c: "kids c = bs" "fits c v" "parts v = vs" "plain v" and P: "P (n0\<lparr>held := c\<rparr>)"
  shows "built P m (hold (limit m) c m2) [limit m] [v]"
proof -
  let ?p = "limit m" and ?m = "hold (limit m) c m2" and ?m1 = "snd (alloc n0 m)"
  have g: "grown ?m1 m2" by (rule builtD(1) [OF b])
  then have p: "cells m2 ?p = Some n0" by (simp add: grown_def)
  have lim: "Suc ?p \<le> limit m2" using g by (simp add: grown_def)
  have sp: "shape m2 ?p = Some (held n0)" using p by (simp add: shape_def)
  have sh: "shape ?m = (shape m2)(?p \<mapsto> c)" by (simp add: shape_hold sp)
  have f2: "forest (shape m2) (limit m2)" using builtD(2) [OF b] by (simp add: treed_def)
  have none: "(?p, y) \<notin> edge (shape m2)" for y using sp k by (simp add: edge_def)
  have nop: "(x, ?p) \<notin> edge (shape m2)" for x
  proof
    assume e: "(x, ?p) \<in> edge (shape m2)"
    then have "x < ?p" using forest_edge [OF f2] by blast
    then have "shape m2 x = shape m x" using g by (simp add: grown_def shape_def)
    with e \<open>x < ?p\<close> have "(x, ?p) \<in> edge (shape m)" by (simp add: edge_def)
    then show False using forest_edge [OF t [unfolded treed_def]] by blast
  qed
  have e: "edge (shape ?m) = edge (shape m2) \<union> {?p} \<times> set bs"
    using sp k by (auto simp: edge_def sh c(1) split: if_splits)
  have bs: "\<forall>y\<in>set bs. ?p < y \<and> shape m2 y \<noteq> None"
  proof
    fix y assume y: "y \<in> set bs"
    then obtain w where "rep (shape m2) y w" using builtD(3) [OF b] by (auto simp: list_all2_conv_all_nth in_set_conv_nth)
    then have "shape m2 y \<noteq> None" by (auto elim: repE)
    moreover have "?p < y" using builtD(5) [OF b y] by simp
    ultimately show "?p < y \<and> shape m2 y \<noteq> None" by simp
  qed
  have alive: "shape m2 y \<noteq> None \<Longrightarrow> shape ?m y \<noteq> None" for y by (simp add: sh)
  have fo: "forest (shape ?m) (limit m2)"
    unfolding forest_def
  proof (intro conjI allI impI)
    fix a d assume a: "shape ?m a = Some d"
    show "a < limit m2" "distinct (kids d)"
      using a forestD(1,2) [OF f2, of a d] lim builtD(4) [OF b] c(1)
      by (cases "a = ?p"; simp add: sh)+
    show "\<forall>k\<in>set (kids d). a < k \<and> shape ?m k \<noteq> None"
    proof (cases "a = ?p")
      case True
      then show ?thesis using a bs alive c(1) by (simp add: sh)
    next
      case False
      then show ?thesis using a alive forestD(3,4) [OF f2, of a d] by (simp add: sh)
    qed
  next
    fix a a' y assume "(a, y) \<in> edge (shape ?m)" "(a', y) \<in> edge (shape ?m)"
    then show "a = a'" using forestD(5) [OF f2] builtD(6) [OF b] by (auto simp: e)
  qed
  have same: "reach (shape ?m) x y \<longleftrightarrow> reach (shape m2) x y" if "x \<noteq> ?p" for x y
  proof
    assume "reach (shape ?m) x y"
    then have "reach (shape m2) x y \<and> y \<noteq> ?p"
    proof (induction rule: rtrancl_induct)
      case (step u w)
      then have "(u, w) \<in> edge (shape m2)" by (auto simp: e)
      with step nop show ?case by (auto intro: rtrancl_into_rtrancl)
    qed (use that in simp)
    then show "reach (shape m2) x y" ..
  next
    assume "reach (shape m2) x y"
    then show "reach (shape ?m) x y" by (rule rtrancl_mono [THEN subsetD, rotated]) (auto simp: e)
  qed
  have unp: "y \<noteq> ?p" if "x \<noteq> ?p" "reach (shape m2) x y" for x y
    using that(2,1) nop by (cases rule: rtranclE) auto
  have reps: "rep (shape ?m) y w" if "rep (shape m2) y w" "y \<noteq> ?p" for y w
    using that(1) by (rule rep_frame) (use unp [OF that(2)] in \<open>simp add: sh\<close>)
  have "list_all2 (rep (shape ?m)) bs vs"
    using builtD(3) [OF b] by (rule list.rel_mono_strong) (use reps bs in auto)
  then have top: "rep (shape ?m) ?p v"
    unfolding rep_iff [of "shape ?m" ?p] using c by (simp add: sh)
  have snd_p: "sound_at (shape ?m) c"
    using c(2)
  proof (cases rule: fits_cases)
    case (stream q s d)
    have "shape ?m ?p = Some c" by (simp add: sh)
    with top have "list_all2 (rep (shape ?m)) (kids c) (parts v)"
      unfolding rep_iff [of "shape ?m" ?p] by simp
    then have "rep (shape ?m) q (XDict d)" unfolding stream(1,2) by simp
    then obtain kvs where q: "shape ?m q = Some (Entries kvs)"
      "list_all2 (rep (shape ?m)) (map snd kvs) (map snd d)" "map fst kvs = map fst d"
      by (auto simp: rep_iff [of "shape ?m" q] elim: fits_cases)
    from stream c(4) have "dict_find d ''Length'' = Some (XInt (int (length s)))" by simp
    with entry_rep [OF q(2,3), of "''Length''"] obtain l where
      l: "entry_at kvs ''Length'' = Some l" "rep (shape ?m) l (XInt (int (length s)))"
      by (auto simp: option_rel_Some2)
    then have "shape ?m l = Some (Simple (XInt (int (length s))))"
      by (auto simp: rep_iff [of "shape ?m" l] elim: fits_cases)
    with q(1) l(1) stream show ?thesis by auto
  qed auto
  have others: "sound_at (shape ?m) d" if d: "sound_at (shape m2) d" and x: "shape m2 x = Some d" for d x
  proof (cases d)
    case (Streamed q s)
    with d obtain kvs l where q: "shape m2 q = Some (Entries kvs)" "entry_at kvs ''Length'' = Some l"
      "shape m2 l = Some (Simple (XInt (int (length s))))" by auto
    have "(x, q) \<in> edge (shape m2)" using x Streamed by (auto simp: edge_def)
    then have "q \<noteq> ?p" using nop by blast
    moreover have "(q, l) \<in> edge (shape m2)"
    proof -
      have "l \<in> snd ` set kvs" using q(2) by (induction kvs) (auto split: if_splits)
      then show ?thesis using q(1) by (auto simp: edge_def)
    qed
    then have "l \<noteq> ?p" using nop by blast
    ultimately show ?thesis using q Streamed by (simp add: sh)
  qed (use d in auto)
  have cells: "sound_at (shape ?m) (held n) \<and> P n \<and> (\<exists>y\<in>set [?p]. reach (shape ?m) y x)"
    if x: "limit m \<le> x" "cells ?m x = Some n" for x n
  proof (cases "x = ?p")
    case True
    with x(2) p have "n = n0\<lparr>held := c\<rparr>" by (simp add: hold_def)
    with snd_p P True show ?thesis by simp
  next
    case False
    with x have x2: "limit ?m1 \<le> x" "cells m2 x = Some n" by (simp_all add: hold_def)
    from builtD(9) [OF b this] obtain y where y: "y \<in> set bs" "reach (shape m2) y x" by blast
    have "(?p, y) \<in> edge (shape ?m)" using y(1) by (simp add: e)
    moreover have "reach (shape ?m) y x" using same y bs by auto
    ultimately have "reach (shape ?m) ?p x" by (rule converse_rtrancl_into_rtrancl)
    moreover have "sound_at (shape ?m) (held n)"
      using others [of "held n" x] builtD(7) [OF b x2] x2(2) by (simp add: shape_def)
    ultimately show ?thesis using builtD(8) [OF b x2] by simp
  qed
  have "grown m ?m" using g lim by (auto simp: grown_def hold_def)
  moreover have "(a, ?p) \<notin> edge (shape ?m)" for a using nop bs by (auto simp: e)
  ultimately show ?thesis using fo top cells by (simp add: built_def treed_def)
qed


lemma grown_alloc: "grown m (snd (alloc n m))"
  by (simp add: grown_def)

lemma treed_alloc:
  assumes "treed m" "kids (held n) = []"
  shows "treed (snd (alloc n m))"
proof -
  have none: "shape m x = None" if "limit m \<le> x" for x
    using assms(1) that forestD(1) [of "shape m" "limit m" x] by (fastforce simp: treed_def)
  have e: "edge (shape (snd (alloc n m))) = edge (shape m)"
    using none [of "limit m"] assms(2) by (auto simp: edge_def shape_alloc split: if_splits)
  show ?thesis
    unfolding treed_def forest_def e
    using assms none unfolding treed_def forest_def
    by (auto simp: shape_alloc less_Suc_eq)
qed

text \<open>A value and the reach of the fuel, in a memory that has grown.\<close>

definition inside :: "memory \<Rightarrow> nat \<Rightarrow> nat \<Rightarrow> xobj \<Rightarrow> bool" where
  "inside m l a v \<longleftrightarrow> rep (shape m) a v \<and> plain v \<and> (\<forall>x. reach (shape m) a x \<longrightarrow> x < l)"

lemma inside_grown:
  assumes "grown m m'" "treed m" "inside m l a v"
  shows "inside m' l a v"
proof -
  have "a < limit m" using assms by (auto simp: inside_def dest: rep_alive)
  then show ?thesis
    using assms grown_rep [OF assms(1,2)] grown_reach [OF assms(1,2)] by (simp add: inside_def)
qed

lemma inside_kids:
  assumes "inside m l a v" "treed m" "shape m a = Some c" "l \<le> a + Suc k"
  shows "list_all2 (inside m l) (kids c) (parts v)" "\<forall>x\<in>set (kids c). l \<le> x + k" "fits c v"
proof -
  from assms(1,3) have f: "fits c v" and l: "list_all2 (rep (shape m)) (kids c) (parts v)"
    by (simp_all add: inside_def rep_iff [of "shape m" a])
  show "fits c v" by (rule f)
  show "list_all2 (inside m l) (kids c) (parts v)"
    using l
  proof (rule list.rel_mono_strong)
    fix y w assume y: "y \<in> set (kids c)" "w \<in> set (parts v)" "rep (shape m) y w"
    then show "inside m l y w"
      using assms(1) plain_parts [of v w] reach_step [of "shape m" a c y, OF assms(3)]
      by (auto simp: inside_def)
  qed
  show "\<forall>x\<in>set (kids c). l \<le> x + k"
    using forestD(3) [OF assms(2) [unfolded treed_def] assms(3)] assms(4) by fastforce
qed

definition loose :: "node \<Rightarrow> bool" where
  "loose n \<longleftrightarrow> \<not> in_pdf n \<and> ref_of n = no_ref \<and> wantDispatch n"

lemma loose_new [simp]: "loose (new_instance None c)" "loose ((new_instance None c)\<lparr>held := c'\<rparr>)"
  by (simp_all add: loose_def new_instance_def)

lemma held_new [simp]: "held (new_instance og c) = c"
  by (simp add: new_instance_def)

lemma built_simple:
  assumes "treed m" "simple v" "P n" "held n = Simple v"
  shows "built P m (snd (alloc n m)) [limit m] [v]"
proof -
  have none: "shape m x = None" if "limit m \<le> x" for x
    using assms(1) that forestD(1) [of "shape m" "limit m" x] by (fastforce simp: treed_def)
  have "(x, limit m) \<notin> edge (shape (snd (alloc n m)))" for x
  proof
    assume "(x, limit m) \<in> edge (shape (snd (alloc n m)))"
    then have "(x, limit m) \<in> edge (shape m)"
      using assms(4) by (auto simp: edge_def shape_alloc split: if_splits)
    then show False using forest_edge [OF assms(1) [unfolded treed_def]] by blast
  qed
  moreover have "rep (shape (snd (alloc n m))) (limit m) v"
    using assms(2,4) by (simp add: rep_iff [of _ "limit m"] shape_alloc)
  moreover have "\<forall>x n'. limit m \<le> x \<longrightarrow> cells (snd (alloc n m)) x = Some n' \<longrightarrow> x = limit m \<and> n' = n"
    using none by (auto simp: shape_None)
  moreover have "sound_at (shape (snd (alloc n m))) (held n) \<and> P n" using assms(2,3,4) by simp
  moreover have "treed (snd (alloc n m))" by (rule treed_alloc [OF assms(1)]) (simp add: assms(4))
  ultimately show ?thesis
    unfolding built_def using grown_alloc [of m n] by (simp del: memory_simps) blast
qed

lemma clone_spec:
  "treed m \<Longrightarrow> inside m l a v \<Longrightarrow> l \<le> a + k \<Longrightarrow>
     \<exists>b m'. clone k a m = Some (b, m') \<and> built loose m m' [b] [v]"
  "treed m \<Longrightarrow> list_all2 (inside m l) as vs \<Longrightarrow> \<forall>a\<in>set as. l \<le> a + k \<Longrightarrow>
     \<exists>bs m'. clone_list k as m = Some (bs, m') \<and> built loose m m' bs vs"
proof (induction k a m and k as m arbitrary: v and vs rule: clone_clone_list.induct)
  case (1 a m)
  then have "a < l" by (auto simp: inside_def)
  with 1 show ?case by simp
next
  case (2 k a m)
  have "rep (shape m) a v" using "2.prems" by (simp add: inside_def)
  then obtain n where n: "cells m a = Some n" by (auto simp: rep_iff [of "shape m"] shape_Some)
  then have c: "shape m a = Some (held n)" by (simp add: shape_def)
  have pl: "plain v" using "2.prems" by (simp add: inside_def)
  note kids = inside_kids [OF "2.prems"(2,1) c "2.prems"(3)]
  let ?m1 = "\<lambda>h. snd (alloc (new_instance None h) m)"
  have g: "grown m (?m1 h)" for h by (rule grown_alloc)
  have t: "treed (?m1 h)" if "kids h = []" for h using "2.prems"(1) that by (intro treed_alloc) simp_all
  have w: "list_all2 (inside (?m1 h) l) (kids (held n)) (parts v)" for h
    using kids(1) by (rule list.rel_mono_strong) (use inside_grown [OF g "2.prems"(1)] in blast)
  from kids(3) show ?case
  proof (cases rule: fits_cases)
    case simple
    have "built loose m (?m1 (Simple v)) [limit m] [v]"
      using "2.prems"(1) simple(2) by (intro built_simple) simp_all
    with simple n show ?thesis by (simp add: clone.simps alloc_def)
  next
    case (array xs vs)
    have "\<exists>bs m'. clone_list k xs (?m1 (Members [])) = Some (bs, m') \<and> built loose (?m1 (Members [])) m' bs vs"
      using "2.IH"(1) [OF n array(1) alloc_eq [symmetric]] t w kids(2) array by simp
    then obtain bs m' where b: "clone_list k xs (?m1 (Members [])) = Some (bs, m')"
      "built loose (?m1 (Members [])) m' bs vs" by blast
    have "built loose m (hold (limit m) (Members bs) m') [limit m] [v]"
      by (rule built_top [OF "2.prems"(1) _ b(2)]) (use array pl in simp_all)
    with b(1) n array(1) show ?thesis by (simp add: clone.simps case_prod_beta)
  next
    case (dict kvs d)
    have "\<exists>bs m'. clone_list k (map snd kvs) (?m1 (Entries [])) = Some (bs, m') \<and>
        built loose (?m1 (Entries [])) m' bs (map snd d)"
      using "2.IH"(2) [OF n dict(1) alloc_eq [symmetric]] t w kids(2) dict by simp
    then obtain bs m' where b: "clone_list k (map snd kvs) (?m1 (Entries [])) = Some (bs, m')"
      "built loose (?m1 (Entries [])) m' bs (map snd d)" by blast
    have len: "length bs = length d" using builtD(3) [OF b(2)] by (auto dest: list_all2_lengthD)
    have len': "length kvs = length d" using dict(3) by (metis length_map)
    have "built loose m (hold (limit m) (Entries (zip (map fst kvs) bs)) m') [limit m] [v]"
      by (rule built_top [OF "2.prems"(1) _ b(2)]) (use dict pl len len' in simp_all)
    with b(1) n dict(1) show ?thesis by (simp add: clone.simps case_prod_beta)
  next
    case (stream q s d)
    have "\<exists>b m'. clone k q (?m1 (Entries [])) = Some (b, m') \<and> built loose (?m1 (Entries [])) m' [b] [XDict d]"
      using "2.IH"(3) [OF n stream(1) alloc_eq [symmetric]] t w kids(2) stream by simp
    then obtain b m' where b: "clone k q (?m1 (Entries [])) = Some (b, m')"
      "built loose (?m1 (Entries [])) m' [b] [XDict d]" by blast
    have "built loose m (hold (limit m) (Streamed b s) m') [limit m] [v]"
      by (rule built_top [OF "2.prems"(1) _ b(2)]) (use stream pl in simp_all)
    with b(1) n stream(1) show ?thesis by (simp add: clone.simps case_prod_beta)
  qed
next
  case (3 k m)
  then show ?case by (auto simp: clone_list.simps intro: built_Nil)
next
  case (4 k a as m)
  from "4.prems"(2) obtain v ws where vs: "vs = v # ws" "inside m l a v" "list_all2 (inside m l) as ws"
    by (auto simp: list_all2_Cons1)
  from "4.IH"(1) [OF "4.prems"(1) vs(2)] "4.prems"(3) obtain b m1 where
    b: "clone k a m = Some (b, m1)" "built loose m m1 [b] [v]" by auto
  have "list_all2 (inside m1 l) as ws"
    using vs(3) by (rule list.rel_mono_strong) (use inside_grown [OF builtD(1) [OF b(2)] "4.prems"(1)] in blast)
  then obtain bs m2 where bs: "clone_list k as m1 = Some (bs, m2)" "built loose m1 m2 bs ws"
    using "4.IH"(2) [OF b(1) refl builtD(2) [OF b(2)], of ws] "4.prems"(3) by auto
  from b(1) bs(1) built_Cons [OF b(2) bs(2)] vs(1) show ?case by (auto simp: clone_list.simps)
qed


lemma built_each:
  assumes b: "built P m m1 [b] [v]" and f: "neutral f" and e: "below_changed f {b} m1 m2"
    and Q: "\<And>n. P n \<Longrightarrow> Q (f n)"
  shows "built Q m m2 [b] [v]"
proof -
  have sh: "shape m2 = shape m1" using e by (rule below_changed_shape) (rule neutralD(1) [OF f])
  have l: "limit m2 = limit m1" using e by (simp add: below_changed_def)
  have t: "treed m1" and g: "grown m m1" using builtD(2,1) [OF b] .
  have old: "cells m2 x = cells m1 x" if "x < limit m" for x
  proof -
    have "\<not> reach (shape m1) b x"
      using reach_le [of b x "shape m1" "limit m1"] t builtD(5) [OF b, of b] that by (auto simp: treed_def)
    then show ?thesis using e by (simp add: below_changed_def)
  qed
  have new: "sound_at (shape m2) (held n) \<and> Q n \<and> reach (shape m2) b x"
    if x: "limit m \<le> x" "cells m2 x = Some n" for x n
  proof -
    from x(2) e obtain n1 where n1: "cells m1 x = Some n1" by (auto simp: below_changed_def split: if_splits)
    then have r: "reach (shape m1) b x" using builtD(9) [OF b x(1)] by simp
    then have "n = f n1" using e n1 x(2) by (simp add: below_changed_def)
    then show ?thesis using builtD(7,8) [OF b x(1) n1] Q r by (simp add: sh neutralD(1) [OF f])
  qed
  have "treed m2" using t by (simp add: treed_def sh l)
  moreover have "grown m m2" using g old by (simp add: grown_def l)
  ultimately show ?thesis using builtD(3,4,5,6) [OF b] new by (simp add: built_def sh)
qed

lemma neutral_pdf [simp]: "neutral (\<lambda>n. n\<lparr>in_pdf := p\<rparr>)"
  by (simp add: neutral_def)

lemma neutral_ref [simp]: "neutral (\<lambda>n. n\<lparr>ref_of := r\<rparr>)"
  by (simp add: neutral_def)

text \<open>\<^verbatim>\<open>setPdf\<close> and \<^verbatim>\<open>setIndiRef\<close> reach the whole tree of an instance.\<close>

lemma setPdf_spec:
  "treed m \<Longrightarrow> shape m a \<noteq> None \<Longrightarrow>
     \<exists>m'. setPdf p a m = Some m' \<and> below_changed (\<lambda>n. n\<lparr>in_pdf := p\<rparr>) {a} m m'"
  unfolding setPdf_def by (rule each_spec(1)) (auto simp: treed_def)

lemma setIndiRef_spec:
  "treed m \<Longrightarrow> shape m a \<noteq> None \<Longrightarrow>
     \<exists>m'. setIndiRef r a m = Some m' \<and> below_changed (\<lambda>n. n\<lparr>ref_of := r\<rparr>) {a} m m'"
  unfolding setIndiRef_def by (rule each_spec(1)) (auto simp: treed_def)

definition owned_by :: "ref \<Rightarrow> node \<Rightarrow> bool" where
  "owned_by r n \<longleftrightarrow> held n \<noteq> Simple XNull \<longrightarrow> in_pdf n \<and> ref_of n = r \<and> wantDispatch n"

definition mine :: "ref option \<Rightarrow> node \<Rightarrow> bool" where
  "mine og n \<longleftrightarrow> (case og of None \<Rightarrow> loose n | Some r \<Rightarrow> owned_by r n)"

lemma mine_new [simp]: "mine og ((new_instance og c)\<lparr>held := c'\<rparr>)" "mine og (new_instance og c)"
  "mine og (new_instance None (Simple XNull))" "mine None (new_instance None c)"
  "mine None ((new_instance None c)\<lparr>held := c'\<rparr>)"
  by (auto simp: mine_def owned_by_def loose_def new_instance_def split: option.split)

lemma create_spec:
  "treed m \<Longrightarrow> plain v \<Longrightarrow>
     \<exists>b m'. createObjFromXpdfObj look og v m = (Inr b, m') \<and> built (mine og) m m' [b] [v]"
  "treed m \<Longrightarrow> plain_list vs \<Longrightarrow>
     \<exists>bs m'. xpdfArrayReader look og vs m = (Inr bs, m') \<and> built (mine og) m m' bs vs"
  "treed m \<Longrightarrow> plain_dict d \<Longrightarrow>
     \<exists>kvs m'. xpdfDictReader look og d m = (Inr kvs, m') \<and> map fst kvs = map fst d \<and>
       built (mine og) m m' (map snd kvs) (map snd d)"
proof (induction look og v m and look og vs m and look og d m
    rule: createObjFromXpdfObj_xpdfArrayReader_xpdfDictReader.induct)
  case (1 look og vs m)
  let ?m1 = "snd (alloc (new_instance og (Members [])) m)"
  have t: "treed ?m1" using "1.prems"(1) by (rule treed_alloc) simp
  from "1.IH" [OF alloc_eq [symmetric] t] "1.prems" obtain bs m' where
    b: "xpdfArrayReader look og vs ?m1 = (Inr bs, m')" "built (mine og) ?m1 m' bs vs" by auto
  have "built (mine og) m (hold (limit m) (Members bs) m') [limit m] [XArray vs]"
    by (rule built_top [OF "1.prems"(1) _ b(2)]) (use "1.prems" in simp_all)
  with b(1) show ?case by (simp add: case_prod_beta)
next
  case (2 look og d m)
  let ?m1 = "snd (alloc (new_instance og (Entries [])) m)"
  have t: "treed ?m1" using "2.prems"(1) by (rule treed_alloc) simp
  from "2.IH" [OF alloc_eq [symmetric] t] "2.prems" obtain kvs m' where
    b: "xpdfDictReader look og d ?m1 = (Inr kvs, m')" "map fst kvs = map fst d"
      "built (mine og) ?m1 m' (map snd kvs) (map snd d)" by auto
  have "built (mine og) m (hold (limit m) (Entries kvs) m') [limit m] [XDict d]"
    by (rule built_top [OF "2.prems"(1) _ b(3)]) (use "2.prems" b(2) in simp_all)
  with b(1) show ?case by (simp add: case_prod_beta)
next
  case (3 look og d s m)
  let ?n0 = "new_instance og (Entries [])" and ?n1 = "new_instance None (Entries [])"
  obtain m1 where m1: "m1 = snd (alloc ?n0 m)" "alloc ?n0 m = (limit m, m1)" by (simp add: alloc_def)
  obtain m2 where m2: "m2 = snd (alloc ?n1 m1)" "alloc ?n1 m1 = (limit m1, m2)" by (simp add: alloc_def)
  have t1: "treed m1" unfolding m1(1) using "3.prems"(1) by (rule treed_alloc) simp
  have t2: "treed m2" unfolding m2(1) using t1 by (rule treed_alloc) simp
  from "3.IH" [OF m1(2) [symmetric] m2(2) [symmetric] t2] "3.prems" obtain kvs m3 where
    b: "xpdfDictReader look None d m2 = (Inr kvs, m3)" "map fst kvs = map fst d"
      "built (mine None) m2 m3 (map snd kvs) (map snd d)" by auto
  let ?q = "limit m1" and ?m4 = "hold (limit m1) (Entries kvs) m3"
  have b4: "built (mine None) m1 ?m4 [?q] [XDict d]"
    by (rule built_top [OF t1 _ b(3) [unfolded m2(1)]]) (use "3.prems" b(2) in simp_all)
  have "\<exists>m5. (case og of None \<Rightarrow> Some ?m4 | Some r \<Rightarrow> Option.bind (setPdf True ?q ?m4) (setIndiRef r ?q)) = Some m5
      \<and> built (mine og) m1 m5 [?q] [XDict d]"
  proof (cases og)
    case None
    with b4 show ?thesis by simp
  next
    case (Some r)
    have q: "shape ?m4 ?q \<noteq> None" using builtD(3) [OF b4] by (auto elim: repE)
    from setPdf_spec [OF builtD(2) [OF b4] q] obtain m5 where
      m5: "setPdf True ?q ?m4 = Some m5" "below_changed (\<lambda>n. n\<lparr>in_pdf := True\<rparr>) {?q} ?m4 m5" by blast
    have b5: "built (\<lambda>n. in_pdf n \<and> wantDispatch n) m1 m5 [?q] [XDict d]"
      by (rule built_each [OF b4 _ m5(2)]) (simp_all add: mine_def loose_def)
    have q5: "shape m5 ?q \<noteq> None" using builtD(3) [OF b5] by (auto elim: repE)
    from setIndiRef_spec [OF builtD(2) [OF b5] q5] obtain m6 where
      m6: "setIndiRef r ?q m5 = Some m6" "below_changed (\<lambda>n. n\<lparr>ref_of := r\<rparr>) {?q} m5 m6" by blast
    have "built (mine og) m1 m6 [?q] [XDict d]"
      by (rule built_each [OF b5 _ m6(2)]) (simp_all add: mine_def owned_by_def Some)
    with m5(1) m6(1) Some show ?thesis by simp
  qed
  then obtain m5 where m5: "(case og of None \<Rightarrow> Some ?m4 | Some r \<Rightarrow> Option.bind (setPdf True ?q ?m4) (setIndiRef r ?q)) = Some m5"
    "built (mine og) m1 m5 [?q] [XDict d]" by blast
  have len: "parseStreamToContainer look d s = Inr s"
    using "3.prems"(2) by (simp add: parseStreamToContainer_def dict_lookupNF_def)
  have "built (mine og) m (hold (limit m) (Streamed ?q s) m5) [limit m] [XStream d s]"
    by (rule built_top [OF "3.prems"(1) _ m5(2) [unfolded m1(1)], folded m1(1)]) (use "3.prems" in simp_all)
  with b(1) m5(1) len m1(2) m2(2) show ?case by simp
next
  case (11 look og v vs m)
  then obtain b m1 where b: "createObjFromXpdfObj look og v m = (Inr b, m1)" "built (mine og) m m1 [b] [v]" by auto
  then obtain bs m2 where bs: "xpdfArrayReader look og vs m1 = (Inr bs, m2)" "built (mine og) m1 m2 bs vs"
    using "11.IH"(2) [OF b(1) [symmetric] refl builtD(2) [OF b(2)]] "11.prems" by auto
  from b(1) bs(1) built_Cons [OF b(2) bs(2)] show ?case by simp
next
  case (13 look og k v d m)
  then obtain b m1 where b: "createObjFromXpdfObj look og v m = (Inr b, m1)" "built (mine og) m m1 [b] [v]" by auto
  then obtain kvs m2 where bs: "xpdfDictReader look og d m1 = (Inr kvs, m2)" "map fst kvs = map fst d"
      "built (mine og) m1 m2 (map snd kvs) (map snd d)"
    using "13.IH"(2) [OF b(1) [symmetric] refl builtD(2) [OF b(2)]] "13.prems" by auto
  from b(1) bs(1,2) built_Cons [OF b(2) bs(3)] show ?case by simp
qed (auto simp: alloc_def [symmetric] apfst_def map_prod_def case_prod_beta intro!: built_simple built_Nil)

end
