(* ===== verification/Property_Document.thy ===== *)
theory Property_Document
  imports Property_Values
begin

text \<open>
  The instances of a document and its table.  The contract of the table is the locale \<open>prop_store\<close>; its
  lemmas say that the instances of indirect objects always have the values the table has, whatever is
  changed, and what one change does to the document.
\<close>

section \<open>Modes do not matter\<close>

definition strip :: "memory \<Rightarrow> memory" where
  "strip m = m\<lparr>cells := \<lambda>x. map_option (\<lambda>n. n\<lparr>mode_of := mdUnknown\<rparr>) (cells m x)\<rparr>"

definition alike :: "'t pdf \<Rightarrow> 't pdf \<Rightarrow> bool" where
  "alike s s' \<longleftrightarrow> s\<lparr>mem := strip (mem s)\<rparr> = s'\<lparr>mem := strip (mem s')\<rparr>"

lemma alike_refl [simp]: "alike s s"
  by (simp add: alike_def)

lemma alike_trans: "alike s s1 \<Longrightarrow> alike s1 s2 \<Longrightarrow> alike s s2"
  by (simp add: alike_def)

lemma strip_cells:
  "strip m = strip m' \<Longrightarrow> limit m = limit m' \<and>
     map_option (\<lambda>n. n\<lparr>mode_of := mdUnknown\<rparr>) (cells m x) = map_option (\<lambda>n. n\<lparr>mode_of := mdUnknown\<rparr>) (cells m' x)"
  by (metis memory.select_convs(1) memory.select_convs(2) memory.surjective memory.update_convs(1) strip_def)

lemma alikeD:
  assumes "alike s s'"
  shows "limit (mem s') = limit (mem s)" "indMap s' = indMap s" "xtab s' = xtab s"
    "changed s' = changed s" "notices s' = notices s" "modeController s' = modeController s"
    "map_option (\<lambda>n. n\<lparr>mode_of := mdUnknown\<rparr>) (cells (mem s') x) =
     map_option (\<lambda>n. n\<lparr>mode_of := mdUnknown\<rparr>) (cells (mem s) x)"
proof -
  have m: "strip (mem s) = strip (mem s')" using arg_cong [OF assms [unfolded alike_def], of mem] by simp
  show "limit (mem s') = limit (mem s)"
    "map_option (\<lambda>n. n\<lparr>mode_of := mdUnknown\<rparr>) (cells (mem s') x) =
     map_option (\<lambda>n. n\<lparr>mode_of := mdUnknown\<rparr>) (cells (mem s) x)"
    using strip_cells [OF m, of x] by simp_all
  show "indMap s' = indMap s" using arg_cong [OF assms [unfolded alike_def], of indMap] by simp
  show "xtab s' = xtab s" using arg_cong [OF assms [unfolded alike_def], of xtab] by simp
  show "changed s' = changed s" using arg_cong [OF assms [unfolded alike_def], of changed] by simp
  show "notices s' = notices s" using arg_cong [OF assms [unfolded alike_def], of notices] by simp
  show "modeController s' = modeController s"
    using arg_cong [OF assms [unfolded alike_def], of modeController] by simp
qed

lemma alike_node:
  assumes "alike s s'" "cells (mem s) x = Some n"
  obtains n' where "cells (mem s') x = Some n'" "held n' = held n" "ref_of n' = ref_of n"
    "in_pdf n' = in_pdf n" "wantDispatch n' = wantDispatch n"
proof -
  from alikeD(7) [OF assms(1), of x] assms(2) obtain n' where
    n': "cells (mem s') x = Some n'" "n'\<lparr>mode_of := mdUnknown\<rparr> = n\<lparr>mode_of := mdUnknown\<rparr>"
    by (cases "cells (mem s') x") auto
  have "held n' = held n" "ref_of n' = ref_of n" "in_pdf n' = in_pdf n" "wantDispatch n' = wantDispatch n"
    using n'(2) by (metis node.select_convs node.surjective node.update_convs(5))+
  with n'(1) show ?thesis by (rule that)
qed

lemma alike_sym: "alike s s' \<Longrightarrow> alike s' s"
  by (simp add: alike_def)

lemma alike_shape: "alike s s' \<Longrightarrow> shape (mem s') = shape (mem s)"
proof (rule ext)
  fix x assume a: "alike s s'"
  show "shape (mem s') x = shape (mem s) x"
  proof (cases "cells (mem s) x")
    case None
    then show ?thesis using alikeD(7) [OF a, of x] by (simp add: shape_def)
  next
    case (Some n)
    from alike_node [OF a Some] show ?thesis using Some by (metis option.simps(9) shape_def)
  qed
qed

lemma alike_mode: "alike s (s\<lparr>mem := modify a (\<lambda>x. x\<lparr>mode_of := md\<rparr>) (mem s)\<rparr>)"
  by (cases s) (auto simp: alike_def strip_def modify_def fun_eq_iff option.map_comp comp_def)

section \<open>The plumbing\<close>

lemma andThen_Inr: "f s = (Inr x, s1) \<Longrightarrow> andThen f g s = g x s1"
  by (simp add: andThen_def)

lemma andThen_Inl: "f s = (Inl e, s1) \<Longrightarrow> andThen f g s = (Inl e, s1)"
  by (simp add: andThen_def)

lemma look_at_Some: "cells (mem s) a = Some n \<Longrightarrow> look_at a s = (Inr n, s)"
  by (simp add: look_at_def)

lemma entries_of_Some: "cells (mem s) d = Some n \<Longrightarrow> held n = Entries kvs \<Longrightarrow> entries_of d s = (Inr (n, kvs), s)"
  by (simp add: entries_of_def andThen_def look_at_def pass_def)

lemma members_of_Some: "cells (mem s) d = Some n \<Longrightarrow> held n = Members xs \<Longrightarrow> members_of d s = (Inr (n, xs), s)"
  by (simp add: members_of_def andThen_def look_at_def pass_def)

lemma dict_setMode_alike:
  "cells (mem s) d \<noteq> None \<Longrightarrow> \<exists>s'. dict_setMode d a key s = (Inr (), s') \<and> alike s s'"
  using alike_mode [of s a]
  by (auto simp: dict_setMode_def andThen_def look_at_def pass_def on_memory_def Let_def
      split: option.split bool.split held.split)

lemma array_setMode_alike:
  "cells (mem s) d \<noteq> None \<Longrightarrow> \<exists>s'. array_setMode d a s = (Inr (), s') \<and> alike s s'"
  using alike_mode [of s a] by (auto simp: array_setMode_def andThen_def look_at_def on_memory_def)

section \<open>The object an instance is written as\<close>

lemma getLength_spec:
  assumes q: "shape (mem s) q = Some (Entries kvs)" "entry_at kvs ''Length'' = Some l"
    "shape (mem s) l = Some (Simple (XInt (int n)))"
  shows "\<exists>s'. getLength T q s = (Inr n, s') \<and> alike s s'"
proof -
  from q(1) obtain nq where nq: "cells (mem s) q = Some nq" "held nq = Entries kvs" by (auto simp: shape_Some)
  from dict_setMode_alike [of s q l "''Length''"] nq(1) obtain s1 where
    s1: "dict_setMode q l ''Length'' s = (Inr (), s1)" "alike s s1" by auto
  have get: "dict_getProperty q ''Length'' s = (Inr l, s1)"
    by (simp add: dict_getProperty_def andThen_def entries_of_Some [OF nq] q(2) andThen_def s1(1) pass_def)
  have "shape (mem s1) l = Some (Simple (XInt (int n)))" using q(3) alike_shape [OF s1(2)] by simp
  then obtain nl where nl: "cells (mem s1) l = Some nl" "held nl = Simple (XInt (int n))" by (auto simp: shape_Some)
  have "property_getReferencedObject T l s1 = (Inr l, s1)"
    using nl by (simp add: property_getReferencedObject_def andThen_def look_at_Some [OF nl(1)] pass_def)
  then have "andThen (dict_getProperty q ''Length'') (\<lambda>a. andThen (property_getReferencedObject T a) look_at) s = (Inr nl, s1)"
    by (simp add: andThen_def get andThen_def look_at_Some [OF nl(1)])
  then have "getLength T q s = (Inr n, s1)" using nl(2) by (simp add: getLength_def)
  with s1(2) show ?thesis by blast
qed

lemma make_spec:
  "treed (mem s) \<Longrightarrow> sound (shape (mem s)) \<Longrightarrow> rep (shape (mem s)) a v \<Longrightarrow> limit (mem s) \<le> a + k \<Longrightarrow>
     \<exists>s'. makeXpdfObject T k a s = (Inr v, s') \<and> alike s s'"
  "treed (mem s) \<Longrightarrow> sound (shape (mem s)) \<Longrightarrow> list_all2 (rep (shape (mem s))) as vs \<Longrightarrow>
     \<forall>a\<in>set as. limit (mem s) \<le> a + k \<Longrightarrow>
     \<exists>s'. make_list T k as s = (Inr vs, s') \<and> alike s s'"
proof (induction T k a s and T k as s arbitrary: v and vs rule: makeXpdfObject_make_list.induct)
  case (1 T a s)
  then show ?case using rep_alive by fastforce
next
  case (2 T k a s)
  from "2.prems"(3) obtain n where n: "cells (mem s) a = Some n" "fits (held n) v"
    "list_all2 (rep (shape (mem s))) (kids (held n)) (parts v)"
    by (auto simp: rep_iff [of "shape (mem s)" a] shape_Some)
  have c: "shape (mem s) a = Some (held n)" using n(1) by (simp add: shape_def)
  have fuel: "\<forall>x\<in>set (kids (held n)). limit (mem s) \<le> x + k"
    using forestD(3) [OF "2.prems"(1) [unfolded treed_def] c] "2.prems"(4) by fastforce
  have unf: "makeXpdfObject T (Suc k) a s = (case held n of
         Simple v \<Rightarrow> pass v
       | Members xs \<Rightarrow> andThen (make_list T k xs) (\<lambda>vs. pass (XArray vs))
       | Entries kvs \<Rightarrow> andThen (make_list T k (map snd kvs)) (\<lambda>vs. pass (XDict (zip (map fst kvs) vs)))
       | Streamed d buf \<Rightarrow>
           andThen (getLength T d) (\<lambda>_.
           andThen (makeXpdfObject T k d) (\<lambda>v.
             case v of XDict es \<Rightarrow> pass (XStream es buf) | _ \<Rightarrow> fail UndefinedBehaviour))) s"
    by (simp add: makeXpdfObject.simps andThen_def look_at_Some [OF n(1)])
  note look = look_at_Some [OF n(1)]
  from n(2) show ?case
  proof (cases rule: fits_cases)
    case simple
    then show ?thesis by (simp add: unf pass_def)
  next
    case (array xs vs)
    with "2.IH"(1) [OF look array(1), of s vs] "2.prems"(1,2) n(3) fuel obtain s' where
      "make_list T k xs s = (Inr vs, s')" "alike s s'" by auto
    with array show ?thesis by (simp add: unf andThen_def pass_def)
  next
    case (dict kvs d)
    with "2.IH"(2) [OF look dict(1), of s "map snd d"] "2.prems"(1,2) n(3) fuel obtain s' where
      s': "make_list T k (map snd kvs) s = (Inr (map snd d), s')" "alike s s'" by auto
    have "zip (map fst kvs) (map snd d) = d" using dict(3) by (simp add: zip_map_fst_snd)
    with s' dict show ?thesis by (simp add: unf andThen_def pass_def)
  next
    case (stream q b d)
    with soundD [OF "2.prems"(2) c] obtain kvs l where q: "shape (mem s) q = Some (Entries kvs)"
      "entry_at kvs ''Length'' = Some l" "shape (mem s) l = Some (Simple (XInt (int (length b))))" by auto
    from getLength_spec [OF q] obtain s1 where s1: "getLength T q s = (Inr (length b), s1)" "alike s s1" by blast
    have "shape (mem s1) = shape (mem s)" "limit (mem s1) = limit (mem s)"
      using alike_shape [OF s1(2)] alikeD(1) [OF s1(2)] .
    with "2.IH"(3) [OF look stream(1), of s1 "XDict d"] "2.prems"(1,2) n(3) fuel stream obtain s2 where
      s2: "makeXpdfObject T k q s1 = (Inr (XDict d), s2)" "alike s1 s2" by (auto simp: treed_def)
    with s1 stream show ?thesis
      using alike_trans [OF s1(2) s2(2)] by (simp add: unf andThen_def pass_def)
  qed
next
  case (3 T k s)
  then show ?case by (simp add: make_list.simps)
next
  case (4 T k a as s)
  from "4.prems"(3) obtain v ws where vs: "vs = v # ws" "rep (shape (mem s)) a v"
    "list_all2 (rep (shape (mem s))) as ws" by (auto simp: list_all2_Cons1)
  from "4.IH"(1) [OF "4.prems"(1,2) vs(2)] "4.prems"(4) obtain s1 where
    s1: "makeXpdfObject T k a s = (Inr v, s1)" "alike s s1" by auto
  have "shape (mem s1) = shape (mem s)" "limit (mem s1) = limit (mem s)"
    using alike_shape [OF s1(2)] alikeD(1) [OF s1(2)] .
  with "4.IH"(2) [OF s1(1)] "4.prems" vs(3) obtain s2 where
    s2: "make_list T k as s1 = (Inr ws, s2)" "alike s1 s2" by (auto simp: treed_def)
  with s1 vs(1) alike_trans [OF s1(2) s2(2)] show ?case by (simp add: make_list.simps andThen_def pass_def)
qed

section \<open>The invariant\<close>

definition flags :: "'t prop_table \<Rightarrow> 't \<Rightarrow> bool list" where
  "flags T t = [no_credentials T t, is_linearized T t, is_latest T t, is_read_only T t, is_encrypted T t]"

text \<open>
  The instance of a reference: it is no member of another one, everything in its tree belongs to the
  document and has its reference, and it has the value of the table, unless the reference is one of
  \<open>X\<close> whose change is on its way.
\<close>

definition root_ok :: "('t \<Rightarrow> ref \<Rightarrow> xobj) \<Rightarrow> ref set \<Rightarrow> 't pdf \<Rightarrow> ref \<Rightarrow> nat \<Rightarrow> bool" where
  "root_ok read X s r a \<longleftrightarrow>
     isRefValid r \<and> (\<exists>c. shape (mem s) a = Some c \<and> c \<noteq> Simple XNull) \<and>
     (\<forall>x. (x, a) \<notin> edge (shape (mem s))) \<and>
     (\<forall>x n. reach (shape (mem s)) a x \<longrightarrow> cells (mem s) x = Some n \<longrightarrow> owned_by r n) \<and>
     (\<forall>c. shape (mem s) a = Some c \<longrightarrow> sort_of c = getType (read (xtab s) r)) \<and>
     (r \<notin> X \<longrightarrow> rep (shape (mem s)) a (read (xtab s) r))"

definition doc_ok :: "('t \<Rightarrow> ref \<Rightarrow> xobj) \<Rightarrow> ('t \<Rightarrow> bool) \<Rightarrow> ref set \<Rightarrow> 't pdf \<Rightarrow> bool" where
  "doc_ok read good X s \<longleftrightarrow>
     treed (mem s) \<and> sound (shape (mem s)) \<and> good (xtab s) \<and>
     (\<forall>r a. indMap s r = Some a \<longrightarrow> root_ok read X s r a)"

lemma root_okD:
  assumes "root_ok read X s r a"
  shows "isRefValid r" "\<exists>c. shape (mem s) a = Some c \<and> c \<noteq> Simple XNull"
    "(x, a) \<notin> edge (shape (mem s))"
    "reach (shape (mem s)) a x \<Longrightarrow> cells (mem s) x = Some n \<Longrightarrow> owned_by r n"
    "r \<notin> X \<Longrightarrow> rep (shape (mem s)) a (read (xtab s) r)"
    "shape (mem s) a = Some c \<Longrightarrow> sort_of c = getType (read (xtab s) r)"
  using assms unfolding root_ok_def by blast+

lemma doc_okD:
  assumes "doc_ok read good X s"
  shows "treed (mem s)" "sound (shape (mem s))" "good (xtab s)"
    "indMap s r = Some a \<Longrightarrow> root_ok read X s r a"
  using assms unfolding doc_ok_def by blast+

definition attached :: "'t pdf \<Rightarrow> nat \<Rightarrow> bool" where
  "attached s d \<longleftrightarrow> (\<exists>r a. indMap s r = Some a \<and> reach (shape (mem s)) a d)"

text \<open>What an attached instance is: a member of the tree of its reference.\<close>

lemma attached_node:
  assumes "doc_ok read good X s" "attached s d" "cells (mem s) d = Some n" "held n \<noteq> Simple XNull"
  obtains a where "indMap s (ref_of n) = Some a" "reach (shape (mem s)) a d" "in_pdf n" "wantDispatch n"
proof -
  from assms(2) obtain r a where a: "indMap s r = Some a" "reach (shape (mem s)) a d"
    by (auto simp: attached_def)
  from root_okD(4) [OF doc_okD(4) [OF assms(1) a(1)] a(2) assms(3)] assms(4)
  have "in_pdf n" "ref_of n = r" "wantDispatch n" by (simp_all add: owned_by_def)
  with a that show thesis by simp
qed

lemma unique_root:
  assumes ok: "doc_ok read good X s" and a: "indMap s r = Some a" "indMap s q = Some b"
    and d: "reach (shape (mem s)) a d" "reach (shape (mem s)) b d"
  shows "a = b"
proof -
  have f: "forest (shape (mem s)) (limit (mem s))" using doc_okD(1) [OF ok] by (simp add: treed_def)
  have top: "x = y" if "reach (shape (mem s)) x y" "indMap s q' = Some y" for x y q'
    using that(1) root_okD(3) [OF doc_okD(4) [OF ok that(2)]] by (cases rule: rtranclE) auto
  from reach_linear [OF d f] top a show ?thesis by metis
qed

lemma doc_ok_mono: "doc_ok read good X s \<Longrightarrow> X \<subseteq> Y \<Longrightarrow> doc_ok read good Y s"
  unfolding doc_ok_def root_ok_def by blast

text \<open>Modes, notices and the rest of the document are not part of it.\<close>

lemma doc_ok_cong:
  assumes "doc_ok read good X s" "shape (mem s') = shape (mem s)" "limit (mem s') = limit (mem s)"
    "indMap s' = indMap s" "good (xtab s')" "read (xtab s') = read (xtab s)"
    and "\<And>r x n'. attached s x \<Longrightarrow> cells (mem s') x = Some n' \<Longrightarrow>
      \<exists>n. cells (mem s) x = Some n \<and> held n' = held n \<and> ref_of n' = ref_of n \<and> in_pdf n' = in_pdf n \<and>
        wantDispatch n' = wantDispatch n"
  shows "doc_ok read good X s'"
  unfolding doc_ok_def
proof (intro conjI allI impI)
  show "treed (mem s')" "sound (shape (mem s'))" "good (xtab s')"
    using assms doc_okD(1,2) [OF assms(1)] by (simp_all add: treed_def)
  fix r a assume a: "indMap s' r = Some a"
  then have ok: "root_ok read X s r a" using doc_okD(4) [OF assms(1)] assms(4) by simp
  have "owned_by r n'" if "reach (shape (mem s)) a x" "cells (mem s') x = Some n'" for x n'
  proof -
    have "attached s x" using a that(1) assms(4) unfolding attached_def by auto
    from assms(7) [OF this that(2)] root_okD(4) [OF ok that(1)] show ?thesis by (auto simp: owned_by_def)
  qed
  with ok show "root_ok read X s' r a" using assms(2,6) unfolding root_ok_def by simp
qed

lemma alike_ok:
  assumes "doc_ok read good X s" "alike s s'"
  shows "doc_ok read good X s'"
proof (rule doc_ok_cong [OF assms(1)])
  show "shape (mem s') = shape (mem s)" using assms(2) by (rule alike_shape)
  fix x n' assume "cells (mem s') x = Some n'"
  with alike_node [OF alike_sym [OF assms(2)]]
  show "\<exists>n. cells (mem s) x = Some n \<and> held n' = held n \<and> ref_of n' = ref_of n \<and> in_pdf n' = in_pdf n \<and>
        wantDispatch n' = wantDispatch n" by metis
qed (use alikeD [OF assms(2)] doc_okD(3) [OF assms(1)] in simp_all)

text \<open>A memory that grows keeps what is there.\<close>

lemma grown_root_ok:
  assumes ok: "root_ok read X s r a" and t: "treed (mem s)" "treed (mem s')" and g: "grown (mem s) (mem s')"
    and x: "read (xtab s') r = read (xtab s) r"
  shows "root_ok read X s' r a"
proof -
  from root_okD(2) [OF ok] obtain c where c: "shape (mem s) a = Some c" "c \<noteq> Simple XNull" by blast
  then have a: "a < limit (mem s)" using t(1) by (auto simp: treed_def dest: forestD(1))
  have "(y, a) \<notin> edge (shape (mem s'))" for y
  proof
    assume e: "(y, a) \<in> edge (shape (mem s'))"
    then have "y < limit (mem s)" using forest_edge [OF t(2) [unfolded treed_def] e] a by simp
    then have "(y, a) \<in> edge (shape (mem s))" using e grown_shape [OF g] by (simp add: edge_def)
    with root_okD(3) [OF ok] show False by blast
  qed
  moreover have "owned_by r n" if "reach (shape (mem s')) a y" "cells (mem s') y = Some n" for y n
  proof -
    have "y < limit (mem s)" using grown_reach_old [OF g t(1) a that(1)] .
    then have "cells (mem s) y = Some n" using that(2) g by (simp add: grown_def)
    then show ?thesis using root_okD(4) [OF ok] that(1) grown_reach [OF g t(1) a] by blast
  qed
  moreover have "shape (mem s') a = Some c" using grown_shape [OF g a] c(1) by simp
  ultimately show ?thesis
    using root_okD(1,5,6) [OF ok] c grown_rep [OF g t(1)] x unfolding root_ok_def by simp
qed

lemma grown_sound:
  assumes "grown m m'" "treed m" "sound (shape m)"
    "\<And>x n. limit m \<le> x \<Longrightarrow> cells m' x = Some n \<Longrightarrow> sound_at (shape m') (held n)"
  shows "sound (shape m')"
  unfolding sound_def
proof (intro allI impI)
  fix x c assume x: "shape m' x = Some c"
  show "sound_at (shape m') c"
  proof (cases "x < limit m")
    case True
    then have "shape m x = Some c" using x grown_shape [OF assms(1)] by simp
    then show ?thesis using sound_at_grown [OF assms(1,2)] soundD [OF assms(3)] by blast
  next
    case False
    from x obtain n where "cells m' x = Some n" "held n = c" by (auto simp: shape_Some)
    with assms(4) [of x n] False show ?thesis by simp
  qed
qed

lemma grown_ok:
  assumes ok: "doc_ok read good X s" and t: "treed (mem s')" and g: "grown (mem s) (mem s')"
    and new: "\<And>x n. limit (mem s) \<le> x \<Longrightarrow> cells (mem s') x = Some n \<Longrightarrow> sound_at (shape (mem s')) (held n)"
    and x: "good (xtab s')" "read (xtab s') = read (xtab s)"
    and i: "\<And>r a. indMap s' r = Some a \<Longrightarrow> indMap s r = Some a \<or> root_ok read X s' r a"
  shows "doc_ok read good X s'"
  unfolding doc_ok_def
proof (intro conjI allI impI)
  show "sound (shape (mem s'))" by (rule grown_sound [OF g doc_okD(1,2) [OF ok] new])
  fix r a assume "indMap s' r = Some a"
  with i [OF this] show "root_ok read X s' r a"
    using grown_root_ok [OF doc_okD(4) [OF ok] doc_okD(1) [OF ok] t g] x(2) by auto
qed (use t x in simp_all)

lemma built_ok:
  assumes "doc_ok read good X s" "built P (mem s) m' bs vs"
  shows "doc_ok read good X (s\<lparr>mem := m'\<rparr>)"
  by (rule grown_ok [OF assms(1)]) (use builtD [OF assms(2)] doc_okD(3) [OF assms(1)] in simp_all)

section \<open>Later states\<close>

text \<open>What a dispatch may do to the memory: new instances, other modes.\<close>

definition later :: "'t pdf \<Rightarrow> 't pdf \<Rightarrow> bool" where
  "later s s' \<longleftrightarrow> limit (mem s) \<le> limit (mem s') \<and>
     (\<forall>x<limit (mem s). map_option (\<lambda>n. n\<lparr>mode_of := mdUnknown\<rparr>) (cells (mem s') x) =
        map_option (\<lambda>n. n\<lparr>mode_of := mdUnknown\<rparr>) (cells (mem s) x)) \<and>
     (\<forall>r a. indMap s' r = Some a \<longrightarrow> indMap s r = Some a \<or> limit (mem s) \<le> a)"

lemma later_refl [simp]: "later s s"
  by (simp add: later_def)

lemma later_trans: "later s s1 \<Longrightarrow> later s1 s2 \<Longrightarrow> later s s2"
  unfolding later_def by (metis (no_types, lifting) le_trans less_le_trans)

lemma alike_later: "alike s s' \<Longrightarrow> later s s'"
  using alikeD [of s s'] by (simp add: later_def)

lemma later_shape:
  assumes "later s s'" "x < limit (mem s)"
  shows "shape (mem s') x = shape (mem s) x"
proof -
  have "map_option (\<lambda>n. n\<lparr>mode_of := mdUnknown\<rparr>) (cells (mem s') x) =
      map_option (\<lambda>n. n\<lparr>mode_of := mdUnknown\<rparr>) (cells (mem s) x)"
    using assms by (simp add: later_def)
  from arg_cong [OF this, of "map_option held"] show ?thesis
    by (simp add: shape_def option.map_comp comp_def)
qed

lemma later_cong:
  "mem s' = mem s2 \<Longrightarrow> indMap s' = indMap s2 \<Longrightarrow> later s s2 \<Longrightarrow> later s s'"
  by (simp add: later_def)

lemma grown_later:
  "grown (mem s) (mem s') \<Longrightarrow> (\<And>r a. indMap s' r = Some a \<Longrightarrow> indMap s r = Some a \<or> limit (mem s) \<le> a) \<Longrightarrow>
     later s s'"
  by (simp add: later_def grown_def)

section \<open>The contract of the table\<close>

text \<open>
  What the instances rely on: reading does not change what is read, a change that the document allows
  goes through and is read back, only plain values come out.
\<close>

locale prop_store =
  fixes T :: "'t prop_table" and read :: "'t \<Rightarrow> ref \<Rightarrow> xobj" and good :: "'t \<Rightarrow> bool"
  assumes fetch: "good t \<Longrightarrow> \<exists>t'. fetch_obj T t r = (Inr (read t r), t') \<and> read t' = read t \<and> good t' \<and>
      flags T t' = flags T t"
    and change: "good t \<Longrightarrow> \<not> is_read_only T t \<Longrightarrow> isRefValid r \<Longrightarrow> plain v \<Longrightarrow>
      getType v = getType (read t r) \<Longrightarrow> v \<noteq> XNull \<Longrightarrow>
      \<exists>t'. change_obj T t r v = (Inr (), t') \<and> read t' = (read t)(r := v) \<and> good t' \<and> flags T t' = flags T t"
    and ready: "good t \<Longrightarrow> \<not> no_credentials T t \<and> \<not> is_encrypted T t"
    and plain_read: "good t \<Longrightarrow> plain (read t r)"
    and valid: "good t \<Longrightarrow> \<not> isRefValid r \<Longrightarrow> read t r = XNull"
begin

abbreviation ok :: "ref set \<Rightarrow> 't pdf \<Rightarrow> bool" where
  "ok \<equiv> doc_ok read good"

lemma flags_simps:
  "flags T t' = flags T t \<Longrightarrow> is_read_only T t' = is_read_only T t"
  "flags T t' = flags T t \<Longrightarrow> no_credentials T t' = no_credentials T t"
  by (simp_all add: flags_def)

lemma mapped: "ok X s \<Longrightarrow> indMap s r = Some a \<Longrightarrow> getIndirectProperty T r s = (Inr a, s)"
  using ready [OF doc_okD(3) [of read good X s]] by (simp add: getIndirectProperty_def)

text \<open>\<open>getIndirectProperty\<close> gives the instance of a reference, a new one when there was none.\<close>

lemma getIndirect_spec:
  assumes "ok X s" "indMap s r = None"
  obtains a s' where "getIndirectProperty T r s = (Inr a, s')" "ok X s'" "later s s'"
    "grown (mem s) (mem s')" "flags T (xtab s') = flags T (xtab s)" "read (xtab s') = read (xtab s)"
    "notices s' = notices s" "changed s' = changed s" "limit (mem s) \<le> a"
    "rep (shape (mem s')) a (read (xtab s) r)"
    "read (xtab s) r = XNull \<longrightarrow> indMap s' = indMap s \<and> cells (mem s') a = Some (new_instance None (Simple XNull))"
    "read (xtab s) r \<noteq> XNull \<longrightarrow> indMap s' = (indMap s)(r \<mapsto> a)"
proof -
  have g: "good (xtab s)" and t: "treed (mem s)" using doc_okD(3,1) [OF assms(1)] .
  from fetch [OF g, of r] obtain t' where f: "fetch_obj T (xtab s) r = (Inr (read (xtab s) r), t')"
    "read t' = read (xtab s)" "good t'" "flags T t' = flags T (xtab s)" by blast
  have c: "\<not> no_credentials T (xtab s)" using ready [OF g] by simp
  show thesis
  proof (cases "read (xtab s) r = XNull")
    case True
    let ?n = "new_instance None (Simple XNull)"
    let ?s = "s\<lparr>xtab := t', mem := snd (alloc ?n (mem s))\<rparr>"
    have b: "built (\<lambda>_. True) (mem s) (snd (alloc ?n (mem s))) [limit (mem s)] [XNull]"
      by (rule built_simple [OF t]) simp_all
    have run: "getIndirectProperty T r s = (Inr (limit (mem s)), ?s)"
      using c assms(2) f(1) True by (simp add: getIndirectProperty_def alloc_def)
    show thesis
    proof (rule that [OF run])
      show "ok X ?s"
        by (rule grown_ok [OF assms(1)]) (use builtD [OF b] f in \<open>simp_all del: memory_simps\<close>)
      show "later s ?s" by (rule grown_later) (use builtD(1) [OF b] in simp_all)
      show "rep (shape (mem ?s)) (limit (mem s)) (read (xtab s) r)"
        using builtD(3) [OF b] True by simp
    qed (use f builtD(1) [OF b] True in simp_all)
  next
    case False
    let ?v = "read (xtab s) r"
    from create_spec(1) [OF t plain_read [OF g], of "\<lambda>q. fst (fetch_obj T t' q)" "Some r" r] obtain a m' where
      a: "createObjFromXpdfObj (\<lambda>q. fst (fetch_obj T t' q)) (Some r) ?v (mem s) = (Inr a, m')"
      "built (mine (Some r)) (mem s) m' [a] [?v]" by blast
    let ?s = "s\<lparr>xtab := t', mem := m', indMap := (indMap s)(r \<mapsto> a)\<rparr>"
    have run: "getIndirectProperty T r s = (Inr a, ?s)"
      using c assms(2) f(1) False a(1)
      by (cases ?v) (simp_all add: getIndirectProperty_def del: createObjFromXpdfObj.simps)
    have rp: "rep (shape m') a ?v" using builtD(3) [OF a(2)] by simp
    then obtain c' where c': "shape m' a = Some c'" "fits c' ?v" by (auto simp: rep_iff [of "shape m'"])
    have la: "limit (mem s) \<le> a" using builtD(5) [OF a(2)] by simp
    have fo: "forest (shape m') (limit m')" using builtD(2) [OF a(2)] by (simp add: treed_def)
    have root: "root_ok read X ?s r a"
      unfolding root_ok_def
    proof (intro conjI allI impI)
      show "isRefValid r" using valid [OF g, of r] False by blast
      show "\<exists>c. shape (mem ?s) a = Some c \<and> c \<noteq> Simple XNull" using c' False by (cases ?v) auto
      show "(x, a) \<notin> edge (shape (mem ?s))" for x using builtD(6) [OF a(2)] by simp
      show "rep (shape (mem ?s)) a (read (xtab ?s) r)" using rp f(2) by simp
      show "sort_of c = getType (read (xtab ?s) r)" if "shape (mem ?s) a = Some c" for c
        using fits_sort [OF c'(2)] c'(1) that f(2) by simp
      fix x n assume x: "reach (shape (mem ?s)) a x" "cells (mem ?s) x = Some n"
      then have "a \<le> x" using reach_le [OF _ fo] by simp
      with x la builtD(8) [OF a(2), of x n] show "owned_by r n" by (simp add: mine_def)
    qed
    show thesis
    proof (rule that [OF run])
      show "ok X ?s"
        by (rule grown_ok [OF assms(1)]) (use builtD [OF a(2)] f root in \<open>simp_all split: if_splits\<close>)
      show "later s ?s" by (rule grown_later) (use builtD(1) [OF a(2)] la in \<open>simp_all split: if_splits\<close>)
    qed (use f rp builtD(1) [OF a(2)] False la in simp_all)
  qed
qed

section \<open>Dispatching a change\<close>

lemma changeIndirect_spec:
  assumes ok: "ok X s" and r: "indMap s r = Some a" and v: "rep (shape (mem s)) a v"
    and ro: "\<not> is_read_only T (xtab s)"
  obtains s' where "changeIndirectProperty T a s = (Inr (), s')"
    "alike (s\<lparr>xtab := xtab s', changed := True\<rparr>) s'" "read (xtab s') = (read (xtab s))(r := v)"
    "good (xtab s')" "flags T (xtab s') = flags T (xtab s)"
proof -
  note d = doc_okD [OF ok]
  note root = root_okD [OF d(4) [OF r]]
  from root(2) obtain n where n: "cells (mem s) a = Some n" "held n \<noteq> Simple XNull" by (auto simp: shape_Some)
  then have own: "in_pdf n" "ref_of n = r" using root(4) [of a n] by (simp_all add: owned_by_def)
  obtain s1 where s1: "makeXpdfObject T (Suc (limit (mem s))) a s = (Inr v, s1)" "alike s s1"
    using make_spec(1) [OF d(1,2) v, of "Suc (limit (mem s))" T] by auto
  have x1: "indMap s1 = indMap s" "xtab s1 = xtab s" using alikeD(2,3) [OF s1(2)] .
  have "fits (held n) v" using v n(1) by (auto simp: rep_iff [of "shape (mem s)" a] shape_def)
  then have ty: "getType v = getType (read (xtab s) r)" "v \<noteq> XNull"
    using root(6) [of "held n"] n fits_sort by (auto simp: shape_def)
  from change [OF d(3) ro root(1) rep_plain [OF v d(2)] ty] obtain t' where
    t': "change_obj T (xtab s) r v = (Inr (), t')" "read t' = (read (xtab s))(r := v)" "good t'"
    "flags T t' = flags T (xtab s)" by blast
  let ?s2 = "s1\<lparr>xtab := t'\<rparr>"
  have get: "getIndirectProperty T r ?s2 = (Inr a, ?s2)"
    using ready [OF t'(3)] r x1(1) by (simp add: getIndirectProperty_def)
  let ?s3 = "?s2\<lparr>indMap := indMap ?s2, changed := True\<rparr>"
  have "changeIndirectProperty T a s = (Inr (), ?s3)"
    using ready [OF d(3)] ro n(1) own r s1(1) t'(1) get x1
    by (simp add: changeIndirectProperty_def andThen_def look_at_def)
  moreover have "alike (s\<lparr>xtab := xtab ?s3, changed := True\<rparr>) ?s3"
    using s1(2) unfolding alike_def by (cases s; cases s1) simp
  ultimately show thesis using that t' by simp
qed

lemma dispatch_root:
  assumes ok: "ok X s" and r: "indMap s r = Some a" and v: "rep (shape (mem s)) a v"
    and ro: "\<not> is_read_only T (xtab s)"
  obtains s' where "dispatchChange T (Suc k) a s = (Inr (), s')"
    "alike (s\<lparr>xtab := xtab s', changed := True\<rparr>) s'" "read (xtab s') = (read (xtab s))(r := v)"
    "good (xtab s')" "flags T (xtab s') = flags T (xtab s)"
proof -
  note root = root_okD [OF doc_okD(4) [OF ok r]]
  from root(2) obtain n where n: "cells (mem s) a = Some n" "held n \<noteq> Simple XNull" by (auto simp: shape_Some)
  then have own: "in_pdf n" "ref_of n = r" "wantDispatch n" using root(4) [of a n] by (simp_all add: owned_by_def)
  obtain s' where s': "changeIndirectProperty T a s = (Inr (), s')"
    "alike (s\<lparr>xtab := xtab s', changed := True\<rparr>) s'" "read (xtab s') = (read (xtab s))(r := v)"
    "good (xtab s')" "flags T (xtab s') = flags T (xtab s)"
    by (rule changeIndirect_spec [OF ok r v ro])
  have "dispatchChange T (Suc k) a s = (Inr (), s')"
    using own root(1) n(1) mapped [OF ok r] s'(1)
    by (simp add: dispatchChange.simps andThen_def look_at_def)
  with s' that show thesis by blast
qed

text \<open>A change that is dispatched arrives in the table with the value of the instance of the reference.\<close>

lemma dispatch_mapped:
  assumes ok: "ok X s" and n: "cells (mem s) d = Some n" "in_pdf n" "wantDispatch n"
    and r: "indMap s (ref_of n) = Some a" and v: "rep (shape (mem s)) a v"
    and ro: "\<not> is_read_only T (xtab s)"
  obtains s' where "dispatch T d s = (Inr (), s')"
    "alike (s\<lparr>xtab := xtab s', changed := True\<rparr>) s'" "read (xtab s') = (read (xtab s))(ref_of n := v)"
    "good (xtab s')" "flags T (xtab s') = flags T (xtab s)"
proof (cases "d = a")
  case True
  from dispatch_root [OF ok r v ro, of 1] that show thesis
    unfolding dispatch_def True by (metis One_nat_def Suc_1)
next
  case False
  note root = root_okD [OF doc_okD(4) [OF ok r]]
  from root(2) obtain na where na: "cells (mem s) a = Some na" "held na \<noteq> Simple XNull" by (auto simp: shape_Some)
  then have own: "ref_of na = ref_of n" using root(4) [of a na] by (simp add: owned_by_def)
  obtain s' where s': "dispatchChange T (Suc 0) a s = (Inr (), s')"
    "alike (s\<lparr>xtab := xtab s', changed := True\<rparr>) s'" "read (xtab s') = (read (xtab s))(ref_of n := v)"
    "good (xtab s')" "flags T (xtab s') = flags T (xtab s)"
    by (rule dispatch_root [OF ok r v ro, of 0])
  have "dispatch T d s = (Inr (), s')"
    unfolding dispatch_def numeral_2_eq_2 dispatchChange.simps(2) [of T "Suc 0"]
    using n root(1) mapped [OF ok r] na(1) own False s'(1) by (simp add: andThen_def look_at_def)
  with s' that show thesis by blast
qed

text \<open>The state after a change has arrived.\<close>

lemma arrived_ok:
  assumes ok: "ok X s" and X: "X \<subseteq> {r}" and r: "indMap s r = Some a" and v: "rep (shape (mem s)) a v"
    and s': "alike (s\<lparr>xtab := xtab s', changed := True\<rparr>) s'" "read (xtab s') = (read (xtab s))(r := v)"
      "good (xtab s')"
  shows "ok {} s'"
proof -
  let ?s = "s\<lparr>xtab := xtab s', changed := True\<rparr>"
  have "doc_ok read good {} ?s"
    unfolding doc_ok_def
  proof (intro conjI allI impI)
    fix q b assume b: "indMap ?s q = Some b"
    then have o: "root_ok read X s q b" using doc_okD(4) [OF ok] by simp
    have "rep (shape (mem s)) b (read (xtab s') q)"
    proof (cases "q = r")
      case True
      with b r v s'(2) show ?thesis by simp
    next
      case False
      with root_okD(5) [OF o] X s'(2) show ?thesis by auto
    qed
    moreover from this have "sort_of c = getType (read (xtab s') q)" if "shape (mem s) b = Some c" for c
      using that fits_sort by (auto simp: rep_iff [of "shape (mem s)" b])
    ultimately show "root_ok read {} ?s q b" using o by (simp add: root_ok_def)
  qed (use doc_okD(1,2) [OF ok] s'(3) in simp_all)
  from alike_ok [OF this s'(1)] show ?thesis .
qed

lemma unmapped_doc_ok:
  assumes "ok X s" "X \<subseteq> {r}" "indMap s r = None"
  shows "ok {} s"
proof -
  have "root_ok read {} s q b" if b: "indMap s q = Some b" for q b
  proof -
    have "q \<notin> X" using b assms(2,3) by auto
    then show ?thesis using doc_okD(4) [OF assms(1) b] by (simp add: root_ok_def)
  qed
  then show ?thesis using assms(1) by (simp add: doc_ok_def)
qed

lemma dispatch_ok:
  assumes ok: "ok X s" and n: "cells (mem s) d = Some n" "in_pdf n"
    and X: "X \<subseteq> {ref_of n}" "X \<noteq> {} \<Longrightarrow> wantDispatch n"
    and ro: "wantDispatch n \<Longrightarrow> \<not> is_read_only T (xtab s)"
  obtains res s' where "dispatch T d s = (res, s')" "ok {} s'" "later s s'"
    "flags T (xtab s') = flags T (xtab s)"
proof -
  have unf: "dispatch T d s = dispatchChange T (Suc (Suc 0)) d s" by (simp add: dispatch_def numeral_2_eq_2)
  have dl: "d < limit (mem s)" using treed_limit [OF doc_okD(1) [OF ok] n(1)] .
  consider (invalid) "\<not> isRefValid (ref_of n)" | (locked) "isRefValid (ref_of n)" "\<not> wantDispatch n"
    | (known) a where "isRefValid (ref_of n)" "wantDispatch n" "indMap s (ref_of n) = Some a"
    | (new) "isRefValid (ref_of n)" "wantDispatch n" "indMap s (ref_of n) = None" by fastforce
  then show thesis
  proof cases
    case invalid
    then have "indMap s (ref_of n) = None"
      using root_okD(1) [OF doc_okD(4) [OF ok]] by (cases "indMap s (ref_of n)") auto
    from unmapped_doc_ok [OF ok X(1) this] have "ok {} s" .
    moreover have "dispatch T d s = (Inl UndefinedBehaviour, s)"
      unfolding unf using n invalid by (simp add: dispatchChange.simps andThen_def look_at_def fail_def)
    ultimately show thesis using that by simp
  next
    case locked
    then have "ok {} s" using ok X(2) by (cases "X = {}") auto
    moreover have "dispatch T d s = (Inr (), s)"
      unfolding unf using n locked by (simp add: dispatchChange.simps andThen_def look_at_def pass_def)
    ultimately show thesis using that by simp
  next
    case (known a)
    from root_okD(2) [OF doc_okD(4) [OF ok known(3)]] rep_exists [OF _ doc_okD(2) [OF ok]] doc_okD(1) [OF ok]
    obtain v where v: "rep (shape (mem s)) a v" unfolding treed_def by metis
    obtain s' where s': "dispatch T d s = (Inr (), s')" "alike (s\<lparr>xtab := xtab s', changed := True\<rparr>) s'"
      "read (xtab s') = (read (xtab s))(ref_of n := v)" "good (xtab s')" "flags T (xtab s') = flags T (xtab s)"
      by (rule dispatch_mapped [OF ok n known(2,3) v ro [OF known(2)]])
    have "later s s'" using alike_later [OF s'(2)] by (simp add: later_def)
    with s' that arrived_ok [OF ok X(1) known(3) v s'(2,3,4)] show thesis by blast
  next
    case new
    have ok0: "ok {} s" by (rule unmapped_doc_ok [OF ok X(1) new(3)])
    obtain a s1 where a: "getIndirectProperty T (ref_of n) s = (Inr a, s1)" "ok {} s1" "later s s1"
      "flags T (xtab s1) = flags T (xtab s)" "limit (mem s) \<le> a"
      "read (xtab s) (ref_of n) = XNull \<longrightarrow> cells (mem s1) a = Some (new_instance None (Simple XNull))"
      "read (xtab s) (ref_of n) \<noteq> XNull \<longrightarrow> indMap s1 = (indMap s)(ref_of n \<mapsto> a)"
      using getIndirect_spec [OF ok0 new(3)] by metis
    have "a \<noteq> d" using a(5) dl by simp
    show thesis
    proof (cases "read (xtab s) (ref_of n) = XNull")
      case True
      have "ref_of n \<noteq> no_ref" using new(1) by (auto simp: isRefValid_def no_ref_def)
      then have "dispatch T d s = (Inl UndefinedBehaviour, s1)"
        unfolding unf dispatchChange.simps(2) [of T "Suc 0"] using n new(1,2) a(1,6) True \<open>a \<noteq> d\<close>
        by (simp add: andThen_def look_at_def fail_def new_instance_def)
      with that a show thesis by blast
    next
      case False
      with a(7) have m: "indMap s1 (ref_of n) = Some a" by simp
      from root_okD(2,4) [OF doc_okD(4) [OF a(2) m]] obtain na where
        na: "cells (mem s1) a = Some na" "ref_of na = ref_of n"
        by (auto simp: shape_Some owned_by_def)
      from root_okD(5) [OF doc_okD(4) [OF a(2) m]] have v: "rep (shape (mem s1)) a (read (xtab s1) (ref_of n))" by simp
      have ro1: "\<not> is_read_only T (xtab s1)" using ro [OF new(2)] flags_simps(1) [OF a(4)] by simp
      obtain s' where s': "dispatchChange T (Suc 0) a s1 = (Inr (), s')"
        "alike (s1\<lparr>xtab := xtab s', changed := True\<rparr>) s'"
        "read (xtab s') = (read (xtab s1))(ref_of n := read (xtab s1) (ref_of n))"
        "good (xtab s')" "flags T (xtab s') = flags T (xtab s1)"
        by (rule dispatch_root [OF a(2) m v ro1, of 0])
      have "dispatch T d s = (Inr (), s')"
        unfolding unf dispatchChange.simps(2) [of T "Suc 0"] using n new(1,2) a(1) na \<open>a \<noteq> d\<close> s'(1)
        by (simp add: andThen_def look_at_def)
      moreover have "later s1 s'" using alike_later [OF s'(2)] by (simp add: later_def)
      then have "later s s'" by (rule later_trans [OF a(3)])
      moreover have "ok {} s'" by (rule arrived_ok [OF a(2) _ m v s'(2,3,4)]) simp
      ultimately show thesis using that s'(5) a(4) by simp
    qed
  qed
qed

end

end
