(* ===== verification/Property_Changes.thy ===== *)
theory Property_Changes
  imports Property_Document
begin

text \<open>
  The parts the changes of containers are made of: a cell that gets other members, a copy that becomes a
  member, an instance that leaves, and the notice to the document.  Each keeps the invariant.
\<close>

section \<open>Changing one cell\<close>

text \<open>
  A member that is put into the cell \<open>d\<close> of the instance \<open>n\<close>: younger, nobody's member, no instance of
  a reference, and with the document and the reference of its container.
\<close>

definition fresh_kid :: "'t pdf \<Rightarrow> nat \<Rightarrow> node \<Rightarrow> nat \<Rightarrow> bool" where
  "fresh_kid s d n k \<longleftrightarrow>
     d < k \<and> shape (mem s) k \<noteq> None \<and> (\<forall>x. (x, k) \<notin> edge (shape (mem s))) \<and>
     (\<forall>r. indMap s r \<noteq> Some k) \<and>
     (in_pdf n \<longrightarrow> (\<forall>x nx. reach (shape (mem s)) k x \<longrightarrow> cells (mem s) x = Some nx \<longrightarrow> owned_by (ref_of n) nx))"

definition new_kids :: "'t pdf \<Rightarrow> nat \<Rightarrow> node \<Rightarrow> held \<Rightarrow> bool" where
  "new_kids s d n c \<longleftrightarrow> distinct (kids c) \<and> (\<forall>k\<in>set (kids c). k \<in> set (kids (held n)) \<or> fresh_kid s d n k)"

lemma shape_put: "cells m d = Some n \<Longrightarrow> shape (hold d c m) = (shape m)(d \<mapsto> c)"
  by (simp add: shape_hold shape_def)

lemma edge_put:
  assumes "cells (mem s) d = Some n"
  shows "edge ((shape (mem s))(d \<mapsto> c)) = {(x, y) \<in> edge (shape (mem s)). x \<noteq> d} \<union> {d} \<times> set (kids c)"
  by (auto simp: edge_def split: if_splits)

lemma reach_put:
  assumes t: "treed (mem s)" and n: "cells (mem s) d = Some n" and k: "new_kids s d n c"
    and r: "reach ((shape (mem s))(d \<mapsto> c)) a x"
  shows "reach (shape (mem s)) a x \<or>
    (reach (shape (mem s)) a d \<and> (\<exists>k\<in>set (kids c). fresh_kid s d n k \<and> reach (shape (mem s)) k x))"
  using r
proof (induction rule: rtrancl_induct)
  case (step y z)
  have f: "forest (shape (mem s)) (limit (mem s))" using t by (simp add: treed_def)
  have late: "y \<noteq> d" if "fresh_kid s d n k" "reach (shape (mem s)) k y" for k
    using reach_le [OF that(2) f] that(1) by (auto simp: fresh_kid_def)
  show ?case
  proof (cases "y = d")
    case False
    with step.hyps(2) have "(y, z) \<in> edge (shape (mem s))" by (simp add: edge_put [OF n])
    with step.IH show ?thesis by (auto intro: rtrancl_into_rtrancl)
  next
    case True
    with step.IH late have d: "reach (shape (mem s)) a d" by auto
    from True step.hyps(2) have z: "z \<in> set (kids c)" by (simp add: edge_put [OF n])
    show ?thesis
    proof (cases "z \<in> set (kids (held n))")
      case True
      then have "(d, z) \<in> edge (shape (mem s))" using n by (auto simp: edge_def shape_def)
      with d show ?thesis by (auto intro: rtrancl_into_rtrancl)
    next
      case False
      with z k d show ?thesis by (auto simp: new_kids_def)
    qed
  qed
qed simp

lemma treed_put:
  assumes t: "treed (mem s)" and n: "cells (mem s) d = Some n" and k: "new_kids s d n c"
  shows "treed (hold d c (mem s))"
  unfolding treed_def forest_def shape_put [OF n]
proof (intro conjI allI impI)
  have f: "forest (shape (mem s)) (limit (mem s))" using t by (simp add: treed_def)
  have sd: "shape (mem s) d = Some (held n)" using n by (simp add: shape_def)
  fix x b assume x: "((shape (mem s))(d \<mapsto> c)) x = Some b"
  show "x < limit (hold d c (mem s))" using x forestD(1) [OF f] sd by (auto split: if_splits)
  show "distinct (kids b)" using x forestD(2) [OF f, of x b] k by (auto simp: new_kids_def split: if_splits)
  show "\<forall>k\<in>set (kids b). x < k \<and> ((shape (mem s))(d \<mapsto> c)) k \<noteq> None"
  proof (cases "x = d")
    case True
    with x have "b = c" by simp
    with True k forestD(3,4) [OF f sd] show ?thesis by (auto simp: new_kids_def fresh_kid_def)
  next
    case False
    with x forestD(3,4) [OF f, of x b] show ?thesis by auto
  qed
next
  have f: "forest (shape (mem s)) (limit (mem s))" using t by (simp add: treed_def)
  have kid: "y \<in> set (kids c) \<Longrightarrow> (x, y) \<in> edge (shape (mem s)) \<Longrightarrow> x = d" for x y
  proof -
    assume y: "y \<in> set (kids c)" "(x, y) \<in> edge (shape (mem s))"
    then have "y \<in> set (kids (held n))" using k by (auto simp: new_kids_def fresh_kid_def)
    then have "(d, y) \<in> edge (shape (mem s))" using n by (auto simp: edge_def shape_def)
    with y(2) forestD(5) [OF f] show "x = d" by blast
  qed
  fix x y z
  assume "(x, z) \<in> edge ((shape (mem s))(d \<mapsto> c))" "(y, z) \<in> edge ((shape (mem s))(d \<mapsto> c))"
  then show "x = y" using kid forestD(5) [OF f] by (auto simp: edge_put [OF n])
qed

text \<open>The invariant without the lengths of streams.\<close>

definition roots_ok :: "('t \<Rightarrow> ref \<Rightarrow> xobj) \<Rightarrow> ('t \<Rightarrow> bool) \<Rightarrow> ref set \<Rightarrow> 't pdf \<Rightarrow> bool" where
  "roots_ok read good X s \<longleftrightarrow>
     treed (mem s) \<and> good (xtab s) \<and> (\<forall>r a. indMap s r = Some a \<longrightarrow> root_ok read X s r a)"

lemma roots_okD:
  assumes "roots_ok read good X s"
  shows "treed (mem s)" "good (xtab s)" "indMap s r = Some a \<Longrightarrow> root_ok read X s r a"
  using assms unfolding roots_ok_def by blast+

lemma doc_ok_roots: "doc_ok read good X s \<longleftrightarrow> roots_ok read good X s \<and> sound (shape (mem s))"
  unfolding doc_ok_def roots_ok_def by blast

text \<open>After the change of a cell only the reference of an attached instance waits to be told.\<close>

lemma put_roots:
  assumes ok: "roots_ok read good Y s" and n: "cells (mem s) d = Some n" and k: "new_kids s d n c"
    and c: "held n \<noteq> Simple XNull" "sort_of c = sort_of (held n)"
  shows "roots_ok read good (Y \<union> (if attached s d then {ref_of n} else {})) (s\<lparr>mem := hold d c (mem s)\<rparr>)"
proof -
  note D = roots_okD [OF ok]
  have cn: "c \<noteq> Simple XNull" using c by (cases "held n") (auto simp: null_type)
  let ?G = "shape (mem s)" and ?s = "s\<lparr>mem := hold d c (mem s)\<rparr>"
  have sh: "shape (mem ?s) = ?G(d \<mapsto> c)" using shape_put [OF n] by simp
  have "root_ok read (Y \<union> (if attached s d then {ref_of n} else {})) ?s r a" if a: "indMap s r = Some a" for r a
  proof -
    note R = root_okD [OF D(3) [OF a]]
    have "(x, a) \<notin> edge (?G(d \<mapsto> c))" for x
    proof
      assume e: "(x, a) \<in> edge (?G(d \<mapsto> c))"
      then have "x = d \<and> a \<in> set (kids c)" using R(3) by (auto simp: edge_put [OF n])
      then have "a \<in> set (kids (held n))" using k a by (auto simp: new_kids_def fresh_kid_def)
      then have "(d, a) \<in> edge ?G" using n by (auto simp: edge_def shape_def)
      with R(3) show False by blast
    qed
    moreover have "\<exists>e. (?G(d \<mapsto> c)) a = Some e \<and> e \<noteq> Simple XNull" using R(2) cn by auto
    moreover have "owned_by r nx" if x: "reach (?G(d \<mapsto> c)) a x" "cells (hold d c (mem s)) x = Some nx" for x nx
      using reach_put [OF D(1) n k x(1)]
    proof
      assume old: "reach ?G a x"
      show ?thesis
      proof (cases "x = d")
        case True
        with x(2) n have "nx = n\<lparr>held := c\<rparr>" by (simp add: hold_def)
        moreover have "owned_by r n" using R(4) old n True by simp
        ultimately show ?thesis using c(1) by (simp add: owned_by_def)
      next
        case False
        with x(2) R(4) [OF old] show ?thesis by (simp add: hold_def)
      qed
    next
      assume "reach ?G a d \<and> (\<exists>k\<in>set (kids c). fresh_kid s d n k \<and> reach ?G k x)"
      then obtain k' where k': "reach ?G a d" "fresh_kid s d n k'" "reach ?G k' x" by blast
      have "x \<noteq> d" using k'(2) reach_le [OF k'(3) D(1) [unfolded treed_def]] by (auto simp: fresh_kid_def)
      have "owned_by r n" by (rule R(4) [OF k'(1) n])
      then have "in_pdf n" "ref_of n = r" using c(1) by (simp_all add: owned_by_def)
      with k'(2,3) x(2) \<open>x \<noteq> d\<close> show ?thesis by (auto simp: fresh_kid_def hold_def)
    qed
    moreover have "rep (?G(d \<mapsto> c)) a (read (xtab s) r)" if r: "r \<notin> Y \<union> (if attached s d then {ref_of n} else {})"
    proof (rule rep_frame)
      show "rep ?G a (read (xtab s) r)" using R(5) r by simp
      fix x assume x: "reach ?G a x"
      have "x \<noteq> d"
      proof
        assume "x = d"
        with x a have att: "attached s d" by (auto simp: attached_def)
        have "owned_by r n" using R(4) [OF x] n \<open>x = d\<close> by simp
        with att r c(1) show False by (simp add: owned_by_def)
      qed
      then show "(?G(d \<mapsto> c)) x = ?G x" by simp
    qed
    moreover have "sort_of e = getType (read (xtab s) r)" if "(?G(d \<mapsto> c)) a = Some e" for e
      using that R(6) [of "held n"] R(6) [of e] c(2) n by (auto simp: shape_def split: if_splits)
    ultimately show ?thesis using R(1) unfolding root_ok_def sh by simp
  qed
  then show ?thesis using D(2) treed_put [OF D(1) n k] unfolding roots_ok_def by simp
qed

lemma put_ok:
  assumes ok: "doc_ok read good {} s" and n: "cells (mem s) d = Some n" and k: "new_kids s d n c"
    and c: "held n \<noteq> Simple XNull" "sort_of c = sort_of (held n)" and snd: "sound ((shape (mem s))(d \<mapsto> c))"
  shows "doc_ok read good (if attached s d then {ref_of n} else {}) (s\<lparr>mem := hold d c (mem s)\<rparr>)"
  using put_roots [of read good "{}" s d n c] assms shape_put [OF n] by (simp add: doc_ok_roots)

text \<open>The length of a stream is the one entry that others rely on.\<close>

definition length_leaf :: "shape \<Rightarrow> nat \<Rightarrow> bool" where
  "length_leaf G l \<longleftrightarrow> (\<exists>a q b kvs. G a = Some (Streamed q b) \<and> G q = Some (Entries kvs) \<and>
     entry_at kvs ''Length'' = Some l)"

definition stream_dict :: "shape \<Rightarrow> nat \<Rightarrow> bool" where
  "stream_dict G q \<longleftrightarrow> (\<exists>a b. G a = Some (Streamed q b))"

lemma sound_put:
  assumes s: "sound G" and l: "\<not> length_leaf G d" and n: "G d = Some c0"
    and q: "stream_dict G d \<Longrightarrow> \<exists>kvs kvs'. c0 = Entries kvs \<and> c = Entries kvs' \<and>
      entry_at kvs' ''Length'' = entry_at kvs ''Length''"
    and c: "case c of Simple v \<Rightarrow> simple v | Streamed q b \<Rightarrow> False | _ \<Rightarrow> True"
  shows "sound (G(d \<mapsto> c))"
  unfolding sound_def
proof (intro allI impI)
  fix x e assume x: "(G(d \<mapsto> c)) x = Some e"
  show "sound_at (G(d \<mapsto> c)) e"
  proof (cases "x = d")
    case True
    with x c show ?thesis by (cases c) auto
  next
    case False
    with x have e: "G x = Some e" by simp
    note se = soundD [OF s e]
    show ?thesis
    proof (cases e)
      case (Streamed p b)
      with se obtain kvs k where k: "G p = Some (Entries kvs)" "entry_at kvs ''Length'' = Some k"
        "G k = Some (Simple (XInt (int (length b))))" by auto
      have kd: "k \<noteq> d" using l e k Streamed unfolding length_leaf_def by blast
      show ?thesis
      proof (cases "p = d")
        case True
        then have "stream_dict G d" using e Streamed by (auto simp: stream_dict_def)
        from q [OF this] n k(1) True obtain kvs' where "c = Entries kvs'"
          "entry_at kvs' ''Length'' = entry_at kvs ''Length''" by auto
        then show ?thesis using k kd True Streamed by simp
      next
        case False
        then show ?thesis using k kd Streamed by simp
      qed
    qed (use se in simp_all)
  qed
qed

section \<open>Copies that become members\<close>

definition placed :: "ref \<Rightarrow> bool \<Rightarrow> node \<Rightarrow> bool" where
  "placed r p n \<longleftrightarrow> ref_of n = r \<and> in_pdf n = p \<and> wantDispatch n"

lemma clone_of_spec:
  assumes t: "treed (mem s)" and v: "rep (shape (mem s)) b w" "plain w"
  obtains c m where "clone_of b s = (Inr c, s\<lparr>mem := m\<rparr>)" "built loose (mem s) m [c] [w]"
proof -
  have "\<forall>x. reach (shape (mem s)) b x \<longrightarrow> x < limit (mem s)"
    using grown_reach_old [of "mem s" "mem s"] t rep_alive [OF v(1) t] by simp
  then have "inside (mem s) (limit (mem s)) b w" using v by (simp add: inside_def)
  from clone_spec(1) [OF t this, of "Suc (limit (mem s))"] obtain c m where
    "clone (Suc (limit (mem s))) b (mem s) = Some (c, m)" "built loose (mem s) m [c] [w]" by auto
  with that show thesis by (simp add: clone_of_def try_memory_def)
qed

lemma set_ref_built:
  assumes b: "built P m0 (mem s) [c] [w]" and Q: "\<And>n. P n \<Longrightarrow> Q (n\<lparr>ref_of := r\<rparr>)"
  obtains m where "set_ref r c s = (Inr (), s\<lparr>mem := m\<rparr>)" "built Q m0 m [c] [w]"
proof -
  have "shape (mem s) c \<noteq> None" using builtD(3) [OF b] by (auto elim: repE)
  from setIndiRef_spec [OF builtD(2) [OF b] this, of r] obtain m where
    m: "setIndiRef r c (mem s) = Some m" "below_changed (\<lambda>n. n\<lparr>ref_of := r\<rparr>) {c} (mem s) m" by blast
  have "built Q m0 m [c] [w]" by (rule built_each [OF b neutral_ref m(2)]) (rule Q)
  with m(1) that show thesis by (simp add: set_ref_def try_memory_def)
qed

lemma set_pdf_built:
  assumes b: "built P m0 (mem s) [c] [w]" and Q: "\<And>n. P n \<Longrightarrow> Q (n\<lparr>in_pdf := p\<rparr>)"
  obtains m where "set_pdf p c s = (Inr (), s\<lparr>mem := m\<rparr>)" "built Q m0 m [c] [w]"
proof -
  have "shape (mem s) c \<noteq> None" using builtD(3) [OF b] by (auto elim: repE)
  from setPdf_spec [OF builtD(2) [OF b] this, of p] obtain m where
    m: "setPdf p c (mem s) = Some m" "below_changed (\<lambda>n. n\<lparr>in_pdf := p\<rparr>) {c} (mem s) m" by blast
  have "built Q m0 m [c] [w]" by (rule built_each [OF b neutral_pdf m(2)]) (rule Q)
  with m(1) that show thesis by (simp add: set_pdf_def try_memory_def)
qed

text \<open>The steps of a copy: the clone, its reference and its document, in either order.\<close>

definition copies :: "'t pdf \<Rightarrow> ref \<Rightarrow> bool \<Rightarrow> nat \<Rightarrow> nat \<Rightarrow> memory \<Rightarrow> memory \<Rightarrow> memory \<Rightarrow> memory \<Rightarrow> memory \<Rightarrow> bool" where
  "copies s r p b c m1 m2 m3 k2 k3 \<longleftrightarrow>
     clone_of b s = (Inr c, s\<lparr>mem := m1\<rparr>) \<and>
     set_ref r c (s\<lparr>mem := m1\<rparr>) = (Inr (), s\<lparr>mem := m2\<rparr>) \<and>
     set_pdf p c (s\<lparr>mem := m2\<rparr>) = (Inr (), s\<lparr>mem := m3\<rparr>) \<and>
     set_pdf p c (s\<lparr>mem := m1\<rparr>) = (Inr (), s\<lparr>mem := k2\<rparr>) \<and>
     set_ref r c (s\<lparr>mem := k2\<rparr>) = (Inr (), s\<lparr>mem := k3\<rparr>)"

lemma copies_spec:
  assumes t: "treed (mem s)" and v: "rep (shape (mem s)) b w" "plain w"
  obtains c m1 m2 m3 k2 k3 where "copies s r p b c m1 m2 m3 k2 k3"
    "built (placed r p) (mem s) m3 [c] [w]" "built (placed r p) (mem s) k3 [c] [w]"
proof -
  obtain c m1 where 1: "clone_of b s = (Inr c, s\<lparr>mem := m1\<rparr>)" "built loose (mem s) m1 [c] [w]"
    by (rule clone_of_spec [OF t v])
  have b1: "built loose (mem s) (mem (s\<lparr>mem := m1\<rparr>)) [c] [w]" using 1(2) by simp
  obtain m2 where 2: "set_ref r c (s\<lparr>mem := m1\<rparr>) = (Inr (), s\<lparr>mem := m1\<rparr>\<lparr>mem := m2\<rparr>)"
    "built (\<lambda>n. ref_of n = r \<and> wantDispatch n) (mem s) m2 [c] [w]"
    by (rule set_ref_built [OF b1, where Q = "\<lambda>n. ref_of n = r \<and> wantDispatch n"]) (auto simp: loose_def)
  have b2: "built (\<lambda>n. ref_of n = r \<and> wantDispatch n) (mem s) (mem (s\<lparr>mem := m2\<rparr>)) [c] [w]" using 2(2) by simp
  obtain m3 where 3: "set_pdf p c (s\<lparr>mem := m2\<rparr>) = (Inr (), s\<lparr>mem := m2\<rparr>\<lparr>mem := m3\<rparr>)"
    "built (placed r p) (mem s) m3 [c] [w]"
    by (rule set_pdf_built [OF b2, where Q = "placed r p"]) (auto simp: placed_def)
  obtain k2 where 4: "set_pdf p c (s\<lparr>mem := m1\<rparr>) = (Inr (), s\<lparr>mem := m1\<rparr>\<lparr>mem := k2\<rparr>)"
    "built (\<lambda>n. in_pdf n = p \<and> wantDispatch n) (mem s) k2 [c] [w]"
    by (rule set_pdf_built [OF b1, where Q = "\<lambda>n. in_pdf n = p \<and> wantDispatch n"]) (auto simp: loose_def)
  have b4: "built (\<lambda>n. in_pdf n = p \<and> wantDispatch n) (mem s) (mem (s\<lparr>mem := k2\<rparr>)) [c] [w]" using 4(2) by simp
  obtain k3 where 5: "set_ref r c (s\<lparr>mem := k2\<rparr>) = (Inr (), s\<lparr>mem := k2\<rparr>\<lparr>mem := k3\<rparr>)"
    "built (placed r p) (mem s) k3 [c] [w]"
    by (rule set_ref_built [OF b4, where Q = "placed r p"]) (auto simp: placed_def)
  show thesis by (rule that [of c m1 m2 m3 k2 k3]) (use 1 2 3 4 5 in \<open>simp_all add: copies_def\<close>)
qed

lemma built_fresh:
  assumes ok: "doc_ok read good X s" and n: "cells (mem s) d = Some n"
    and b: "built (placed (ref_of n) (in_pdf n)) (mem s) m [c] [w]"
  shows "fresh_kid (s\<lparr>mem := m\<rparr>) d n c" "cells m d = Some n" "attached (s\<lparr>mem := m\<rparr>) d = attached s d"
proof -
  have t: "treed (mem s)" by (rule doc_okD(1) [OF ok])
  have d: "d < limit (mem s)" by (rule treed_limit [OF t n])
  have alive: "indMap s r = Some a \<Longrightarrow> a < limit (mem s)" for r a
    using root_okD(2) [OF doc_okD(4) [OF ok]] forestD(1) [OF t [unfolded treed_def]] by blast
  have c: "limit (mem s) \<le> c" "shape m c \<noteq> None"
    using builtD(5) [OF b] builtD(3) [OF b] by (auto elim: repE)
  have own: "owned_by (ref_of n) nx" if "reach (shape m) c x" "cells m x = Some nx" "in_pdf n" for x nx
    using builtD(8) [OF b _ that(2)] reach_le [OF that(1) builtD(2) [OF b, unfolded treed_def]] c(1) that(3)
    by (auto simp: placed_def owned_by_def)
  have un: "indMap s r \<noteq> Some c" for r
  proof
    assume "indMap s r = Some c"
    from alive [OF this] c(1) show False by simp
  qed
  show "fresh_kid (s\<lparr>mem := m\<rparr>) d n c"
    unfolding fresh_kid_def using d c builtD(6) [OF b] un own by simp
  show "cells m d = Some n" using builtD(1) [OF b] d n by (simp add: grown_def)
  show "attached (s\<lparr>mem := m\<rparr>) d = attached s d"
    using grown_reach [OF builtD(1) [OF b] t] alive by (simp add: attached_def cong: conj_cong)
qed

section \<open>Instances that leave\<close>

definition unbound :: "'t pdf \<Rightarrow> nat \<Rightarrow> bool" where
  "unbound s a \<longleftrightarrow> shape (mem s) a \<noteq> None \<and> (\<forall>x. (x, a) \<notin> edge (shape (mem s))) \<and> (\<forall>r. indMap s r \<noteq> Some a)"

lemma unbound_apart:
  assumes ok: "doc_ok read good X s" and u: "unbound s old" and x: "attached s x"
  shows "\<not> reach (shape (mem s)) old x"
proof
  assume r: "reach (shape (mem s)) old x"
  from x obtain q a where a: "indMap s q = Some a" "reach (shape (mem s)) a x" by (auto simp: attached_def)
  have no: "y = z" if "reach (shape (mem s)) y z" "\<forall>w. (w, z) \<notin> edge (shape (mem s))" for y z
    using that(1) by (cases rule: rtranclE) (use that(2) in auto)
  from reach_linear [OF r a(2) doc_okD(1) [OF ok, unfolded treed_def]] no u
    root_okD(3) [OF doc_okD(4) [OF ok a(1)]] a(1) show False unfolding unbound_def by metis
qed

lemma release_spec:
  assumes ok: "doc_ok read good X s" and n: "cells (mem s) d = Some n" and u: "unbound s old"
  obtains m where "release d old s = (Inr (), s\<lparr>mem := m\<rparr>)" "doc_ok read good X (s\<lparr>mem := m\<rparr>)"
    "shape m = shape (mem s)" "limit m = limit (mem s)"
    "\<And>x. cells m x = (if in_pdf n \<and> reach (shape (mem s)) old x
       then map_option (\<lambda>n. n\<lparr>in_pdf := False, ref_of := no_ref\<rparr>) (cells (mem s) x) else cells (mem s) x)"
proof (cases "in_pdf n")
  case False
  have "release d old s = (Inr (), s)" using n False by (simp add: release_def andThen_def look_at_def pass_def)
  with that [of "mem s"] ok False show thesis by simp
next
  case True
  have t: "treed (mem s)" by (rule doc_okD(1) [OF ok])
  have alive: "shape (mem s) old \<noteq> None" using u by (simp add: unbound_def)
  from setPdf_spec [OF t alive, of False] obtain m1 where
    m1: "setPdf False old (mem s) = Some m1" "below_changed (\<lambda>n. n\<lparr>in_pdf := False\<rparr>) {old} (mem s) m1" by blast
  have sh1: "shape m1 = shape (mem s)" using m1(2) by (rule below_changed_shape) simp
  have l1: "limit m1 = limit (mem s)" using m1(2) by (simp add: below_changed_def)
  have "treed m1" using t by (simp add: treed_def sh1 l1)
  from setIndiRef_spec [OF this, of old no_ref] alive sh1 obtain m2 where
    m2: "setIndiRef no_ref old m1 = Some m2" "below_changed (\<lambda>n. n\<lparr>ref_of := no_ref\<rparr>) {old} m1 m2" by auto
  have sh2: "shape m2 = shape m1" using m2(2) by (rule below_changed_shape) simp
  have l2: "limit m2 = limit m1" using m2(2) by (simp add: below_changed_def)
  have cells: "cells m2 x = (if reach (shape (mem s)) old x
       then map_option (\<lambda>n. n\<lparr>in_pdf := False, ref_of := no_ref\<rparr>) (cells (mem s) x) else cells (mem s) x)" for x
    using m1(2) m2(2) unfolding below_changed_def sh1 by (simp add: option.map_comp comp_def)
  have run: "release d old s = (Inr (), s\<lparr>mem := m2\<rparr>)"
    using n True m1(1) m2(1)
    by (simp add: release_def andThen_def look_at_def set_pdf_def set_ref_def try_memory_def)
  have "doc_ok read good X (s\<lparr>mem := m2\<rparr>)"
  proof (rule doc_ok_cong [OF ok])
    fix x n' assume x: "attached s x" "cells (mem (s\<lparr>mem := m2\<rparr>)) x = Some n'"
    with unbound_apart [OF ok u x(1)] cells [of x]
    show "\<exists>n. cells (mem s) x = Some n \<and> held n' = held n \<and> ref_of n' = ref_of n \<and> in_pdf n' = in_pdf n \<and>
        wantDispatch n' = wantDispatch n" by simp
  qed (use sh1 sh2 l1 l2 doc_okD(3) [OF ok] in simp_all)
  with run that [of m2] sh1 sh2 l1 l2 cells True show thesis by simp
qed

lemma later_unbound:
  assumes l: "later s s'" and t: "treed (mem s)" "treed (mem s')" and u: "unbound s a"
  shows "unbound s' a"
proof -
  have a: "a < limit (mem s)" using u forestD(1) [OF t(1) [unfolded treed_def]] by (auto simp: unbound_def)
  have "(x, a) \<notin> edge (shape (mem s'))" for x
  proof
    assume e: "(x, a) \<in> edge (shape (mem s'))"
    then have "x < limit (mem s)" using forest_edge [OF t(2) [unfolded treed_def] e] a by simp
    then have "(x, a) \<in> edge (shape (mem s))" using e later_shape [OF l] by (simp add: edge_def)
    with u show False by (simp add: unbound_def)
  qed
  then show ?thesis
    using u later_shape [OF l a] l a unfolding unbound_def later_def by (metis not_le)
qed

lemma later_node:
  assumes "later s s'" "treed (mem s)" "cells (mem s) x = Some n"
  obtains n' where "cells (mem s') x = Some n'" "held n' = held n" "ref_of n' = ref_of n"
    "in_pdf n' = in_pdf n" "wantDispatch n' = wantDispatch n"
proof -
  have "x < limit (mem s)" using treed_limit [OF assms(2,3)] .
  then have "map_option (\<lambda>n. n\<lparr>mode_of := mdUnknown\<rparr>) (cells (mem s') x) =
      map_option (\<lambda>n. n\<lparr>mode_of := mdUnknown\<rparr>) (cells (mem s) x)" using assms(1) by (simp add: later_def)
  with assms(3) obtain n' where
    n': "cells (mem s') x = Some n'" "n'\<lparr>mode_of := mdUnknown\<rparr> = n\<lparr>mode_of := mdUnknown\<rparr>"
    by (cases "cells (mem s') x") auto
  have "held n' = held n" "ref_of n' = ref_of n" "in_pdf n' = in_pdf n" "wantDispatch n' = wantDispatch n"
    using n'(2) by (metis node.select_convs node.surjective node.update_convs(5))+
  with n'(1) show thesis by (rule that)
qed

section \<open>Telling the document\<close>

context prop_store
begin

lemma objectChanged_ok:
  assumes ok: "ok X s" and n: "cells (mem s) d = Some n"
    and X: "X \<subseteq> {ref_of n}" "X \<noteq> {} \<Longrightarrow> in_pdf n \<and> wantDispatch n"
    and ro: "in_pdf n \<Longrightarrow> wantDispatch n \<Longrightarrow> \<not> is_read_only T (xtab s)"
  obtains res s' where "property_objectChanged T d note s = (res, s')" "ok {} s'" "later s s'"
proof (cases "in_pdf n")
  case False
  then have "property_objectChanged T d note s = (Inr (), s)"
    using n by (simp add: property_objectChanged_def andThen_def look_at_def pass_def)
  moreover have "ok {} s" using ok X(2) False by (cases "X = {}") auto
  ultimately show thesis using that by simp
next
  case True
  show thesis
  proof (cases "isRefValid (ref_of n)")
    case False
    then have "indMap s (ref_of n) = None"
      using root_okD(1) [OF doc_okD(4) [OF ok]] by (cases "indMap s (ref_of n)") auto
    from unmapped_doc_ok [OF ok X(1) this] have "ok {} s" .
    moreover have "property_objectChanged T d note s = (Inl UndefinedBehaviour, s)"
      using n True False by (simp add: property_objectChanged_def andThen_def look_at_def assert_that_def fail_def)
    ultimately show thesis using that by simp
  next
    case valid: True
    have want: "X \<noteq> {} \<Longrightarrow> wantDispatch n" using X(2) by blast
    have ro': "wantDispatch n \<Longrightarrow> \<not> is_read_only T (xtab s)" using ro True by blast
    obtain res s' where s': "dispatch T d s = (res, s')" "ok {} s'" "later s s'"
      by (rule dispatch_ok [OF ok n True X(1) want ro'])
    have nn: "ok {} (s'\<lparr>notices := notices s' @ [note]\<rparr>)"
      by (rule doc_ok_cong [OF s'(2)]) (use doc_okD(3) [OF s'(2)] in simp_all)
    have ll: "later s (s'\<lparr>notices := notices s' @ [note]\<rparr>)" using s'(3) by (rule later_cong [rotated 2]) simp_all
    show thesis
    proof (cases res)
      case (Inl e)
      then have "property_objectChanged T d note s = (Inl e, s')"
        using n True valid s'(1)
        by (simp add: property_objectChanged_def andThen_def look_at_def assert_that_def pass_def)
      with s' that show thesis by blast
    next
      case (Inr u)
      then have "property_objectChanged T d note s = (Inr (), s'\<lparr>notices := notices s' @ [note]\<rparr>)"
        using n True valid s'(1)
        by (simp add: property_objectChanged_def andThen_def look_at_def assert_that_def pass_def notify_def)
      with nn ll that show thesis by blast
    qed
  qed
qed

lemma announce_ok:
  assumes ok: "ok X s" and n: "cells (mem s) d = Some n"
    and X: "X \<subseteq> {ref_of n}" "X \<noteq> {} \<Longrightarrow> in_pdf n \<and> wantDispatch n"
    and ro: "in_pdf n \<Longrightarrow> wantDispatch n \<Longrightarrow> \<not> is_read_only T (xtab s)"
  obtains res s' where "announce T d note s = (res, s')" "ok {} s'" "later s s'"
proof (cases "in_pdf n \<and> isRefValid (ref_of n)")
  case True
  obtain res s' where s': "property_objectChanged T d note s = (res, s')" "ok {} s'" "later s s'"
    by (rule objectChanged_ok [OF ok n X ro])
  have "announce T d note s = (res, s')"
    using n True s'(1) by (simp add: announce_def andThen_def look_at_def assert_that_def pass_def)
  with s' that show thesis by blast
next
  case False
  have "ok {} s"
  proof (cases "in_pdf n")
    case True
    with False have "indMap s (ref_of n) = None"
      using root_okD(1) [OF doc_okD(4) [OF ok]] by (cases "indMap s (ref_of n)") auto
    from unmapped_doc_ok [OF ok X(1) this] show ?thesis .
  next
    case False
    then show ?thesis using ok X(2) by (cases "X = {}") auto
  qed
  moreover have "\<exists>res. announce T d note s = (res, s)"
    using n False by (auto simp: announce_def andThen_def look_at_def assert_that_def pass_def fail_def)
  ultimately show thesis using that by (metis later_refl)
qed

text \<open>An attached instance is heard: the table has the new value of its indirect object.\<close>

lemma objectChanged_heard:
  assumes ok: "ok X s" and X: "X \<subseteq> {ref_of n}" and n: "cells (mem s) d = Some n" "in_pdf n" "wantDispatch n"
    and r: "indMap s (ref_of n) = Some a" and v: "rep (shape (mem s)) a v"
    and ro: "\<not> is_read_only T (xtab s)"
  obtains s' where "property_objectChanged T d note s = (Inr (), s')" "announce T d note s = (Inr (), s')" "ok {} s'"
    "alike (s\<lparr>xtab := xtab s', changed := True, notices := notices s @ [note]\<rparr>) s'"
    "read (xtab s') = (read (xtab s))(ref_of n := v)"
proof -
  obtain s1 where s1: "dispatch T d s = (Inr (), s1)"
    "alike (s\<lparr>xtab := xtab s1, changed := True\<rparr>) s1" "read (xtab s1) = (read (xtab s))(ref_of n := v)"
    "good (xtab s1)" by (rule dispatch_mapped [OF ok n r v ro])
  have valid: "isRefValid (ref_of n)" by (rule root_okD(1) [OF doc_okD(4) [OF ok r]])
  let ?s = "s1\<lparr>notices := notices s1 @ [note]\<rparr>"
  have ok1: "ok {} s1" by (rule arrived_ok [OF ok X r v s1(2,3,4)])
  have ns: "notices s1 = notices s" using alikeD(5) [OF s1(2)] by simp
  have 1: "property_objectChanged T d note s = (Inr (), ?s)"
    using n valid s1(1) by (simp add: property_objectChanged_def andThen_def look_at_def assert_that_def pass_def notify_def)
  have 2: "announce T d note s = (Inr (), ?s)"
    using n valid 1 by (simp add: announce_def andThen_def look_at_def assert_that_def pass_def)
  have 3: "ok {} ?s" by (rule doc_ok_cong [OF ok1]) (use doc_okD(3) [OF ok1] in simp_all)
  have 4: "alike (s\<lparr>xtab := xtab ?s, changed := True, notices := notices s @ [note]\<rparr>) ?s"
    using s1(2) ns unfolding alike_def by (cases s; cases s1) simp
  show thesis using that [OF 1 2 3 4] s1(3) by simp
qed

end

end
