(* ===== verification/Property_Editing.thy ===== *)
theory Property_Editing
  imports Property_Changes
begin

text \<open>
  The changes of instances (\<^verbatim>\<open>setValue\<close>, \<^verbatim>\<open>setProperty\<close>, \<^verbatim>\<open>addProperty\<close>, \<^verbatim>\<open>delProperty\<close>,
  \<^verbatim>\<open>setRawBuffer\<close>): each keeps the table true to the instances, and each does to the object in the
  table what its name says, at the place of the instance.
\<close>

section \<open>One change\<close>

lemma andThen_pass [simp]: "andThen (pass x) g = g x"
  by (rule ext) (simp add: andThen_def pass_def)

lemma rep_put_self:
  assumes f: "forest G l" and d: "\<And>k. k \<in> set (kids c) \<Longrightarrow> d < k"
    and c: "fits c u" "list_all2 (rep G) (kids c) (parts u)"
  shows "rep (G(d \<mapsto> c)) d u"
proof -
  have "list_all2 (rep (G(d \<mapsto> c))) (kids c) (parts u)"
    using c(2)
  proof (rule list.rel_mono_strong)
    fix k w assume k: "k \<in> set (kids c)" "rep G k w"
    show "rep (G(d \<mapsto> c)) k w"
      using k(2) by (rule rep_frame) (use reach_le [OF _ f] d [OF k(1)] in fastforce)
  qed
  with c(1) show ?thesis by (simp add: rep_iff [of "G(d \<mapsto> c)" d])
qed

lemma new_kids_bound:
  assumes "treed (mem s)" "cells (mem s) d = Some n" "new_kids s d n c" "k \<in> set (kids c)"
  shows "d < k"
proof -
  have sd: "shape (mem s) d = Some (held n)" using assms(2) by (simp add: shape_def)
  from assms(3,4) show ?thesis
    using forestD(3) [OF assms(1) [unfolded treed_def] sd] by (auto simp: new_kids_def fresh_kid_def)
qed

text \<open>What a client may rely on when an attached instance has changed to the value \<open>u'\<close>.\<close>

definition heard :: "('t \<Rightarrow> ref \<Rightarrow> xobj) \<Rightarrow> 't pdf \<Rightarrow> nat \<Rightarrow> node \<Rightarrow> held \<Rightarrow> notice \<Rightarrow> 'a \<Rightarrow> 'a result \<Rightarrow> 't pdf \<Rightarrow> bool" where
  "heard read s d n c note x res s' \<longleftrightarrow>
     (\<forall>a p u u'. indMap s (ref_of n) = Some a \<longrightarrow> walk (shape (mem s)) a p = Some d \<longrightarrow>
        rep (shape (mem s)) d u \<longrightarrow> fits c u' \<longrightarrow> list_all2 (rep (shape (mem s))) (kids c) (parts u') \<longrightarrow>
        getType u' = getType u \<longrightarrow>
        res = Inr x \<and> shape (mem s') = (shape (mem s))(d \<mapsto> c) \<and> indMap s' = indMap s \<and>
        changed s' \<and> notices s' = notices s @ [note] \<and>
        read (xtab s') = (read (xtab s))(ref_of n := put_at p u' (read (xtab s) (ref_of n))))"

text \<open>The old member of a changed container leaves.\<close>

definition leaves :: "nat \<Rightarrow> nat option \<Rightarrow> (unit, 't) action" where
  "leaves d old = (case old of None \<Rightarrow> pass () | Some a \<Rightarrow> release d a)"

context prop_store
begin

lemma put_announce:
  assumes ok: "ok {} s" and n: "cells (mem s) d = Some n" and k: "new_kids s d n c"
    and c: "held n \<noteq> Simple XNull" "sort_of c = sort_of (held n)" and snd: "sound ((shape (mem s))(d \<mapsto> c))"
    and ro: "in_pdf n \<Longrightarrow> wantDispatch n \<Longrightarrow> \<not> is_read_only T (xtab s)"
    and how: "act = announce T d note \<or> act = property_objectChanged T d note"
  obtains res s' where "act (s\<lparr>mem := hold d c (mem s)\<rparr>) = (res, s')" "ok {} s'"
    "later (s\<lparr>mem := hold d c (mem s)\<rparr>) s'" "heard read s d n c note () res s'"
proof -
  let ?s = "s\<lparr>mem := hold d c (mem s)\<rparr>" and ?n = "n\<lparr>held := c\<rparr>"
  let ?X = "if attached s d then {ref_of n} else {}"
  have okX: "ok ?X ?s" by (rule put_ok [OF ok n k c snd])
  have n': "cells (mem ?s) d = Some ?n" using n by (simp add: hold_def)
  have X: "?X \<subseteq> {ref_of ?n}" by simp
  have att: "in_pdf ?n \<and> wantDispatch ?n" if "?X \<noteq> {}"
  proof -
    from that have "attached s d" by (simp split: if_splits)
    then show ?thesis by (rule attached_node [OF ok _ n c(1)]) simp
  qed
  have ro': "in_pdf ?n \<Longrightarrow> wantDispatch ?n \<Longrightarrow> \<not> is_read_only T (xtab ?s)" using ro by simp
  have sh: "shape (mem ?s) = (shape (mem s))(d \<mapsto> c)" using shape_put [OF n] by simp
  show thesis
  proof (cases "attached s d")
    case False
    obtain res s' where s': "act ?s = (res, s')" "ok {} s'" "later ?s s'"
      using how announce_ok [OF okX n' X att ro', of "note"] objectChanged_ok [OF okX n' X att ro', of "note"] by metis
    have "heard read s d n c note () res s'"
      using False walk_reach unfolding heard_def attached_def by blast
    with s' that show thesis by blast
  next
    case True
    obtain a where a: "indMap s (ref_of n) = Some a" "reach (shape (mem s)) a d" "in_pdf n" "wantDispatch n"
      by (rule attached_node [OF ok True n c(1)])
    obtain p where p: "walk (shape (mem s)) a p = Some d" using reach_walk [OF a(2)] by blast
    have f: "forest (shape (mem s)) (limit (mem s))" using doc_okD(1) [OF ok] by (simp add: treed_def)
    from rep_exists [of "shape (mem ?s)" "limit (mem ?s)" a] doc_okD(1,2) [OF okX]
      root_okD(2) [OF doc_okD(4) [OF okX, of "ref_of n" a]] a(1)
    obtain v' where v': "rep (shape (mem ?s)) a v'" by (auto simp: treed_def)
    have a': "indMap ?s (ref_of ?n) = Some a" "in_pdf ?n" "wantDispatch ?n" using a by simp_all
    have ro2: "\<not> is_read_only T (xtab ?s)" using ro a(3,4) by simp
    obtain s' where s': "property_objectChanged T d note ?s = (Inr (), s')" "announce T d note ?s = (Inr (), s')" "ok {} s'"
      "alike (?s\<lparr>xtab := xtab s', changed := True, notices := notices ?s @ [note]\<rparr>) s'"
      "read (xtab s') = (read (xtab ?s))(ref_of ?n := v')"
      by (rule objectChanged_heard [OF okX X n' a'(2,3,1) v' ro2])
    have "heard read s d n c note () (Inr ()) s'"
      unfolding heard_def
    proof (intro allI impI)
      fix b q u u'
      assume h: "indMap s (ref_of n) = Some b" "walk (shape (mem s)) b q = Some d" "rep (shape (mem s)) d u"
        "fits c u'" "list_all2 (rep (shape (mem s))) (kids c) (parts u')" "getType u' = getType u"
      have b: "b = a" using h(1) a(1) by simp
      have u': "rep ((shape (mem s))(d \<mapsto> c)) d u'"
        by (rule rep_put_self [OF f new_kids_bound [OF doc_okD(1) [OF ok] n k] h(4,5)])
      have v: "rep (shape (mem s)) a (read (xtab s) (ref_of n))"
        using root_okD(5) [OF doc_okD(4) [OF ok a(1)]] by simp
      have "rep ((shape (mem s))(d \<mapsto> c)) a (put_at q u' (read (xtab s) (ref_of n)))"
        by (rule rep_put [OF f _ h(3) u' h(6) h(2) [unfolded b] v]) simp
      then have "v' = put_at q u' (read (xtab s) (ref_of n))" using v' sh by (auto dest: rep_unique)
      then show "Inr () = Inr () \<and> shape (mem s') = (shape (mem s))(d \<mapsto> c) \<and> indMap s' = indMap s \<and>
        changed s' \<and> notices s' = notices s @ [note] \<and>
        read (xtab s') = (read (xtab s))(ref_of n := put_at q u' (read (xtab s) (ref_of n)))"
        using alike_shape [OF s'(4)] alikeD(2,4,5) [OF s'(4)] s'(5) sh by simp
    qed
    moreover have "later ?s s'" using alike_later [OF s'(4)] by (simp add: later_def)
    moreover have "act ?s = (Inr (), s')" using how s'(1,2) by auto
    ultimately show thesis using that s'(3) by blast
  qed
qed

text \<open>The change with what comes behind it: the old member leaves, the new one gets its mode.\<close>

lemma member_change:
  assumes ok: "ok {} s" and n: "cells (mem s) d = Some n" and k: "new_kids s d n c"
    and c: "held n \<noteq> Simple XNull" "sort_of c = sort_of (held n)" and snd: "sound ((shape (mem s))(d \<mapsto> c))"
    and ro: "in_pdf n \<Longrightarrow> wantDispatch n \<Longrightarrow> \<not> is_read_only T (xtab s)"
    and old: "\<And>a. old = Some a \<Longrightarrow> a \<in> set (kids (held n)) \<and> a \<notin> set (kids c)"
    and g: "\<And>s. cells (mem s) d \<noteq> None \<Longrightarrow> \<exists>s'. g s = (Inr x, s') \<and> alike s s'"
  obtains res s' where
    "andThen (announce T d note) (\<lambda>_. andThen (leaves d old) (\<lambda>_. g)) (s\<lparr>mem := hold d c (mem s)\<rparr>) = (res, s')"
    "ok {} s'" "heard read s d n c note x res s'"
proof -
  let ?s = "s\<lparr>mem := hold d c (mem s)\<rparr>"
  obtain res s1 where s1: "announce T d note ?s = (res, s1)" "ok {} s1" "later ?s s1" "heard read s d n c note () res s1"
    by (rule put_announce [OF ok n k c snd ro, of "announce T d note" "note"]) auto
  have t: "treed (mem ?s)" using treed_put [OF doc_okD(1) [OF ok] n k] by simp
  have n': "cells (mem ?s) d = Some (n\<lparr>held := c\<rparr>)" using n by (simp add: hold_def)
  obtain n1 where n1: "cells (mem s1) d = Some n1" by (rule later_node [OF s1(3) t n'])
  show thesis
  proof (cases res)
    case (Inl e)
    then have "heard read s d n c note x (Inl e) s1" using s1(4) by (simp add: heard_def)
    with Inl that s1(1,2) show thesis by (simp add: andThen_def)
  next
    case (Inr u)
    have "\<exists>m. leaves d old s1 = (Inr (), s1\<lparr>mem := m\<rparr>) \<and> ok {} (s1\<lparr>mem := m\<rparr>) \<and>
        shape m = shape (mem s1) \<and> cells m d \<noteq> None"
    proof (cases old)
      case None
      then show ?thesis using s1(2) n1 by (intro exI [of _ "mem s1"]) (simp add: leaves_def pass_def)
    next
      case (Some a)
      from old [OF Some] have a: "a \<in> set (kids (held n))" "a \<notin> set (kids c)" by simp_all
      have sd: "shape (mem s) d = Some (held n)" using n by (simp add: shape_def)
      have ea: "(d, a) \<in> edge (shape (mem s))" using a(1) sd by (auto simp: edge_def)
      have "unbound ?s a"
        unfolding unbound_def
      proof (intro conjI allI)
        show "shape (mem ?s) a \<noteq> None"
          using shape_put [OF n] forest_edge [OF doc_okD(1) [OF ok, unfolded treed_def] ea] by simp
        show "(y, a) \<notin> edge (shape (mem ?s))" for y
          using forestD(5) [OF doc_okD(1) [OF ok, unfolded treed_def] ea] a(2) by (auto simp: shape_put [OF n] edge_put [OF n])
        show "indMap ?s r \<noteq> Some a" for r
        proof
          assume "indMap ?s r = Some a"
          then have "indMap s r = Some a" by simp
          from root_okD(3) [OF doc_okD(4) [OF ok this]] ea show False by blast
        qed
      qed
      from later_unbound [OF s1(3) t doc_okD(1) [OF s1(2)] this] have u: "unbound s1 a" .
      obtain m where "release d a s1 = (Inr (), s1\<lparr>mem := m\<rparr>)" "ok {} (s1\<lparr>mem := m\<rparr>)" "shape m = shape (mem s1)"
        by (rule release_spec [OF s1(2) n1 u])
      moreover from this(3) n1 have "cells m d \<noteq> None" using shape_None [of m d] shape_None [of "mem s1" d] by simp
      ultimately show ?thesis using Some by (intro exI [of _ m]) (simp add: leaves_def)
    qed
    then obtain m where m: "leaves d old s1 = (Inr (), s1\<lparr>mem := m\<rparr>)" "ok {} (s1\<lparr>mem := m\<rparr>)"
      "shape m = shape (mem s1)" "cells m d \<noteq> None" by blast
    from g [of "s1\<lparr>mem := m\<rparr>"] m(4) obtain s2 where s2: "g (s1\<lparr>mem := m\<rparr>) = (Inr x, s2)" "alike (s1\<lparr>mem := m\<rparr>) s2" by auto
    have "heard read s d n c note x (Inr x) s2"
      using s1(4) alike_shape [OF s2(2)] alikeD(2,3,4,5) [OF s2(2)] m(3) unfolding heard_def by simp
    moreover have "ok {} s2" by (rule alike_ok [OF m(2) s2(2)])
    ultimately show thesis using that s1(1) Inr m(1) s2(1) by (simp add: andThen_def)
  qed
qed

lemma canChange_state: "\<exists>res. canChange T a s = (res, s)"
  by (cases "cells (mem s) a")
     (simp_all add: canChange_def andThen_def look_at_def pdf_canChange_def pass_def)

lemma canChange_Inr:
  "canChange T a s = (Inr u, s) \<Longrightarrow> cells (mem s) a = Some n \<Longrightarrow> in_pdf n \<Longrightarrow> wantDispatch n \<Longrightarrow>
     \<not> is_read_only T (xtab s)"
  by (simp add: canChange_def andThen_def look_at_def pdf_canChange_def split: if_splits)

end

lemma clone_of_dead: "cells (mem s) b = None \<Longrightarrow> clone_of b s = (Inl UndefinedBehaviour, s)"
  by (simp add: clone_of_def try_memory_def clone.simps)

lemma length_leaf_int: "sound G \<Longrightarrow> length_leaf G l \<Longrightarrow> \<exists>n. G l = Some (Simple (XInt n))"
proof -
  assume s: "sound G" and l: "length_leaf G l"
  from l obtain a q b kvs where *: "G a = Some (Streamed q b)" "G q = Some (Entries kvs)"
    "entry_at kvs ''Length'' = Some l" by (auto simp: length_leaf_def)
  from soundD [OF s *(1)] * show ?thesis by auto
qed

lemma grown_stream_dict:
  assumes "grown m m'" "treed m" "treed m'" "d < limit m" "stream_dict (shape m') d"
  shows "stream_dict (shape m) d"
proof -
  from assms(5) obtain a b where a: "shape m' a = Some (Streamed d b)" by (auto simp: stream_dict_def)
  have "a < d" using forestD(3) [OF assms(3) [unfolded treed_def] a, of d] by simp
  then have "shape m a = Some (Streamed d b)" using a grown_shape [OF assms(1), of a] assms(4) by simp
  then show ?thesis by (auto simp: stream_dict_def)
qed

lemma grown_length_leaf:
  assumes "grown m m'" "treed m" "treed m'" "d < limit m" "length_leaf (shape m') d"
  shows "length_leaf (shape m) d"
proof -
  from assms(5) obtain a q b kvs where a: "shape m' a = Some (Streamed q b)" "shape m' q = Some (Entries kvs)"
    "entry_at kvs ''Length'' = Some d" by (auto simp: length_leaf_def)
  have "a < q" using forestD(3) [OF assms(3) [unfolded treed_def] a(1), of q] by simp
  moreover have "d \<in> snd ` set kvs" using a(3) by (induction kvs) (auto split: if_splits)
  then have "q < d" using forestD(3) [OF assms(3) [unfolded treed_def] a(2), of d] by simp
  ultimately have "shape m a = Some (Streamed q b)" "shape m q = Some (Entries kvs)"
    using a(1,2) grown_shape [OF assms(1)] assms(4) by simp_all
  with a(3) show ?thesis by (auto simp: length_leaf_def)
qed

section \<open>Changes with a copy\<close>

text \<open>The copy of an instance, in the two orders the code has.\<close>

definition copy_then :: "bool \<Rightarrow> ref \<Rightarrow> bool \<Rightarrow> nat \<Rightarrow> (nat \<Rightarrow> ('a, 't) action) \<Rightarrow> ('a, 't) action" where
  "copy_then pdf_first r p b k =
     andThen (clone_of b) (\<lambda>c.
       if pdf_first then andThen (set_pdf p c) (\<lambda>_. andThen (set_ref r c) (\<lambda>_. k c))
       else andThen (set_ref r c) (\<lambda>_. andThen (set_pdf p c) (\<lambda>_. k c)))"

lemma copy_then_run:
  assumes "treed (mem s)" "rep (shape (mem s)) b w" "plain w"
  obtains c m where "copy_then first r p b k s = k c (s\<lparr>mem := m\<rparr>)" "built (placed r p) (mem s) m [c] [w]"
proof -
  obtain c m1 m2 m3 k2 k3 where c: "copies s r p b c m1 m2 m3 k2 k3"
    "built (placed r p) (mem s) m3 [c] [w]" "built (placed r p) (mem s) k3 [c] [w]"
    by (rule copies_spec [OF assms])
  show thesis
  proof (cases first)
    case True
    then have "copy_then first r p b k s = k c (s\<lparr>mem := k3\<rparr>)"
      using c(1) by (simp add: copies_def copy_then_def andThen_def)
    with c(3) that show thesis by blast
  next
    case False
    then have "copy_then first r p b k s = k c (s\<lparr>mem := m3\<rparr>)"
      using c(1) by (simp add: copies_def copy_then_def andThen_def)
    with c(2) that show thesis by blast
  qed
qed

text \<open>
  How the cell of a container is to change when \<open>c\<close> comes in: \<open>F c\<close> is the new content.  It has no
  other members than the old one and \<open>c\<close>, and leaves the length of a stream alone.
\<close>

definition takes_in :: "shape \<Rightarrow> nat \<Rightarrow> held \<Rightarrow> (nat \<Rightarrow> held) \<Rightarrow> nat option \<Rightarrow> bool" where
  "takes_in G d c0 F old \<longleftrightarrow>
     \<not> length_leaf G d \<and>
     (\<forall>c. c \<notin> set (kids c0) \<longrightarrow>
        distinct (kids (F c)) \<and> set (kids (F c)) \<subseteq> insert c (set (kids c0)) \<and>
        sort_of (F c) = sort_of c0 \<and> (case F c of Simple v \<Rightarrow> False | Streamed q b \<Rightarrow> False | _ \<Rightarrow> True) \<and>
        (\<forall>a. old = Some a \<longrightarrow> a \<in> set (kids c0) \<and> a \<notin> set (kids (F c))) \<and>
        (stream_dict G d \<longrightarrow> (\<exists>kvs kvs'. c0 = Entries kvs \<and> F c = Entries kvs' \<and>
           entry_at kvs' ''Length'' = entry_at kvs ''Length'')))"

text \<open>The same change of the value: it needs the values of the members only.\<close>

definition carries :: "held \<Rightarrow> (nat \<Rightarrow> held) \<Rightarrow> xobj \<Rightarrow> xobj \<Rightarrow> xobj \<Rightarrow> bool" where
  "carries c0 F w u u' \<longleftrightarrow>
     getType u' = getType u \<and>
     (\<forall>R c. list_all2 R (kids c0) (parts u) \<longrightarrow> R c w \<longrightarrow> fits (F c) u' \<and> list_all2 R (kids (F c)) (parts u'))"

text \<open>What has happened when a change of \<open>d\<close> to \<open>u'\<close> was heard.\<close>

definition done_at :: "('t \<Rightarrow> ref \<Rightarrow> xobj) \<Rightarrow> 't pdf \<Rightarrow> ref \<Rightarrow> nat list \<Rightarrow> nat \<Rightarrow> xobj \<Rightarrow> 't pdf \<Rightarrow> bool" where
  "done_at read s r p d u' s' \<longleftrightarrow>
     read (xtab s') = (read (xtab s))(r := put_at p u' (read (xtab s) r)) \<and> indMap s' = indMap s \<and> changed s' \<and>
     rep (shape (mem s')) d u' \<and>
     (\<forall>x v. rep (shape (mem s)) x v \<longrightarrow> \<not> reach (shape (mem s)) x d \<longrightarrow> rep (shape (mem s')) x v) \<and>
     (\<exists>e. notices s' = notices s @ [e] \<and> subject e = d)"

lemma grown_walk: "grown m m' \<Longrightarrow> treed m \<Longrightarrow> walk (shape m) a p = Some d \<Longrightarrow> walk (shape m') a p = Some d"
proof (induction p arbitrary: a)
  case (Cons i p)
  then obtain e where "shape m a = Some e" "i < length (kids e)" "walk (shape m) (kids e ! i) p = Some d"
    by (auto split: option.splits if_splits)
  then show ?case using grown_alive [OF Cons.prems(1,2)] Cons by simp
qed simp

text \<open>A change that was heard, with a memory that has grown before.\<close>

lemma heard_done:
  assumes t: "treed (mem s)" "treed m" and g: "grown (mem s) m"
    and n: "cells m d = Some n" and k: "new_kids (s\<lparr>mem := m\<rparr>) d n c"
    and h: "heard read (s\<lparr>mem := m\<rparr>) d n c note x res s'" and N: "subject note = d"
    and a: "indMap s (ref_of n) = Some a" and p: "walk (shape (mem s)) a p = Some d"
    and u: "rep (shape (mem s)) d u"
    and u': "fits c u'" "list_all2 (rep (shape m)) (kids c) (parts u')" "getType u' = getType u"
  shows "res = Inr x \<and> done_at read s (ref_of n) p d u' s'"
proof -
  let ?s = "s\<lparr>mem := m\<rparr>"
  have H: "res = Inr x \<and> shape (mem s') = (shape m)(d \<mapsto> c) \<and> indMap s' = indMap s \<and> changed s' \<and>
      notices s' = notices s @ [note] \<and>
      read (xtab s') = (read (xtab s))(ref_of n := put_at p u' (read (xtab s) (ref_of n)))"
    using h [unfolded heard_def, rule_format, of a p u u'] a grown_walk [OF g t(1) p] grown_rep [OF g t(1) u] u' by simp
  have "rep ((shape m)(d \<mapsto> c)) d u'"
    by (rule rep_put_self [OF t(2) [unfolded treed_def] _ u'(1,2)]) (use new_kids_bound [OF _ _ k] t(2) n in simp)
  moreover have "rep ((shape m)(d \<mapsto> c)) y v" if y: "rep (shape (mem s)) y v" "\<not> reach (shape (mem s)) y d" for y v
  proof (rule rep_frame [OF grown_rep [OF g t(1) y(1)]])
    fix z assume "reach (shape m) y z"
    then have "z \<noteq> d" using grown_reach [OF g t(1) rep_alive [OF y(1) t(1)]] y(2) by auto
    then show "((shape m)(d \<mapsto> c)) z = shape m z" by simp
  qed
  ultimately show ?thesis using H N unfolding done_at_def by auto
qed

context prop_store
begin

lemma taking_in:
  fixes act :: "('a, 't) action"
  assumes ok: "ok {} s" and n: "cells (mem s) d = Some n" and c0: "held n \<noteq> Simple XNull"
    and t: "takes_in (shape (mem s)) d (held n) F old"
    and ro: "in_pdf n \<Longrightarrow> wantDispatch n \<Longrightarrow> \<not> is_read_only T (xtab s)"
    and g: "\<And>c s. cells (mem s) d \<noteq> None \<Longrightarrow> \<exists>s'. g c s = (Inr (h c), s') \<and> alike s s'"
    and N: "\<And>c. subject (N c) = d"
    and act: "act = copy_then first (ref_of n) (in_pdf n) b (\<lambda>c. andThen (on_memory (hold d (F c))) (\<lambda>_.
        andThen (announce T d (N c)) (\<lambda>_. andThen (leaves d old) (\<lambda>_. g c))))"
  obtains res s' where "act s = (res, s')" "ok {} s'"
    "\<And>a p u w u'. indMap s (ref_of n) = Some a \<Longrightarrow> walk (shape (mem s)) a p = Some d \<Longrightarrow>
       rep (shape (mem s)) d u \<Longrightarrow> rep (shape (mem s)) b w \<Longrightarrow> carries (held n) F w u u' \<Longrightarrow>
       (\<exists>c. res = Inr (h c) \<and> limit (mem s) \<le> c) \<and> done_at read s (ref_of n) p d u' s'"
proof (cases "cells (mem s) b")
  case None
  then have "act s = (Inl UndefinedBehaviour, s)"
    by (simp add: act copy_then_def andThen_def clone_of_dead)
  moreover have False if "rep (shape (mem s)) b w" for w
    using that None by (auto simp: shape_def elim: repE)
  ultimately show thesis using that ok by blast
next
  case (Some nb)
  have T0: "treed (mem s)" by (rule doc_okD(1) [OF ok])
  have snd: "sound (shape (mem s))" by (rule doc_okD(2) [OF ok])
  from Some have "shape (mem s) b = Some (held nb)" by (simp add: shape_def)
  from rep_exists [OF T0 [unfolded treed_def] snd this] obtain w where w: "rep (shape (mem s)) b w" by blast
  obtain c m where run: "act s = andThen (on_memory (hold d (F c))) (\<lambda>_.
        andThen (announce T d (N c)) (\<lambda>_. andThen (leaves d old) (\<lambda>_. g c))) (s\<lparr>mem := m\<rparr>)"
    and bu: "built (placed (ref_of n) (in_pdf n)) (mem s) m [c] [w]"
    unfolding act by (rule copy_then_run [OF T0 w rep_plain [OF w snd]])
  let ?s = "s\<lparr>mem := m\<rparr>"
  have ok1: "ok {} ?s" by (rule built_ok [OF ok bu])
  note fr = built_fresh [OF ok n bu]
  have n1: "cells (mem ?s) d = Some n" using fr(2) by simp
  have d: "d < limit (mem s)" by (rule treed_limit [OF T0 n])
  have T1: "treed m" and g1: "grown (mem s) m" using builtD(2,1) [OF bu] .
  have sd: "shape (mem s) d = Some (held n)" "shape m d = Some (held n)" using n fr(2) by (simp_all add: shape_def)
  have notin: "c \<notin> set (kids (held n))"
  proof
    assume "c \<in> set (kids (held n))"
    then have "(d, c) \<in> edge (shape m)" using sd(2) by (auto simp: edge_def)
    with builtD(6) [OF bu] show False by simp
  qed
  note ti = t [unfolded takes_in_def]
  have Fc: "distinct (kids (F c))" "set (kids (F c)) \<subseteq> insert c (set (kids (held n)))"
    "case F c of Simple v \<Rightarrow> False | Streamed q b \<Rightarrow> False | _ \<Rightarrow> True"
    "\<And>a. old = Some a \<Longrightarrow> a \<in> set (kids (held n)) \<and> a \<notin> set (kids (F c))"
    "stream_dict (shape (mem s)) d \<Longrightarrow> \<exists>kvs kvs'. held n = Entries kvs \<and> F c = Entries kvs' \<and>
       entry_at kvs' ''Length'' = entry_at kvs ''Length''"
    using ti notin by blast+
  have k: "new_kids ?s d n (F c)" using Fc(1,2) fr(1) unfolding new_kids_def by blast
  have nn: "sort_of (F c) = sort_of (held n)" using ti notin by blast
  have ll: "\<not> length_leaf (shape m) d" using ti grown_length_leaf [OF g1 T0 T1 d] by blast
  have "sound ((shape m)(d \<mapsto> F c))"
  proof (rule sound_put [OF doc_okD(2) [OF ok1, simplified] ll sd(2)])
    show "case F c of Simple v \<Rightarrow> simple v | Streamed q b \<Rightarrow> False | _ \<Rightarrow> True"
      using Fc(3) by (auto split: held.splits)
  qed (use Fc(5) grown_stream_dict [OF g1 T0 T1 d] in blast)
  then have s2: "sound ((shape (mem ?s))(d \<mapsto> F c))" by simp
  have rfirst: "in_pdf n \<Longrightarrow> wantDispatch n \<Longrightarrow> \<not> is_read_only T (xtab ?s)" using ro by simp
  obtain res s' where s': "andThen (announce T d (N c)) (\<lambda>_. andThen (leaves d old) (\<lambda>_. g c))
      (?s\<lparr>mem := hold d (F c) (mem ?s)\<rparr>) = (res, s')" "ok {} s'" "heard read ?s d n (F c) (N c) (h c) res s'"
    by (rule member_change [OF ok1 n1 k c0 nn s2 rfirst Fc(4) g])
  have "act s = (res, s')" using s'(1) by (simp add: run andThen_def on_memory_def)
  moreover have "(\<exists>c. res = Inr (h c) \<and> limit (mem s) \<le> c) \<and> done_at read s (ref_of n) p d u' s'"
    if a: "indMap s (ref_of n) = Some a" and p: "walk (shape (mem s)) a p = Some d"
      and u: "rep (shape (mem s)) d u" and w': "rep (shape (mem s)) b w'" and ca: "carries (held n) F w' u u'"
    for a p u w' u'
  proof -
    have ww: "w' = w" using w w' by (rule rep_unique [symmetric])
    have u1: "rep (shape m) d u" by (rule grown_rep [OF g1 T0 u])
    have cw: "rep (shape m) c w" using builtD(3) [OF bu] by simp
    have "list_all2 (rep (shape m)) (kids (held n)) (parts u)"
      using u1 sd(2) by (simp add: rep_iff [of "shape m" d])
    with ca cw ww have fi: "fits (F c) u'" "list_all2 (rep (shape m)) (kids (F c)) (parts u')" "getType u' = getType u"
      unfolding carries_def by blast+
    have "res = Inr (h c) \<and> done_at read s (ref_of n) p d u' s'"
      by (rule heard_done [OF T0 T1 g1 _ k s'(3) N a p u fi]) (use n1 in simp)
    moreover have "limit (mem s) \<le> c" using builtD(5) [OF bu] by simp
    ultimately show ?thesis by blast
  qed
  ultimately show thesis using that s'(2) by blast
qed

text \<open>A change without a copy.\<close>

lemma giving_up:
  assumes ok: "ok {} s" and n: "cells (mem s) d = Some n" and c0: "held n \<noteq> Simple XNull"
    and t: "takes_in (shape (mem s)) d (held n) (\<lambda>_. c) old"
    and ks: "set (kids c) \<subseteq> set (kids (held n))"
    and ro: "in_pdf n \<Longrightarrow> wantDispatch n \<Longrightarrow> \<not> is_read_only T (xtab s)"
    and N: "subject N = d"
    and act: "act = andThen (on_memory (hold d c)) (\<lambda>_. andThen (announce T d N) (\<lambda>_. leaves d old))"
  obtains res s' where "act s = (res, s')" "ok {} s'"
    "\<And>a p u u'. indMap s (ref_of n) = Some a \<Longrightarrow> walk (shape (mem s)) a p = Some d \<Longrightarrow>
       rep (shape (mem s)) d u \<Longrightarrow> fits c u' \<Longrightarrow>
       list_all2 (rep (shape (mem s))) (kids c) (parts u') \<Longrightarrow> getType u' = getType u \<Longrightarrow>
       res = Inr () \<and> done_at read s (ref_of n) p d u' s'"
proof -
  have T0: "treed (mem s)" by (rule doc_okD(1) [OF ok])
  have sd: "shape (mem s) d = Some (held n)" using n by (simp add: shape_def)
  obtain e where e: "e \<notin> set (kids (held n))" using ex_new_if_finite [OF infinite_UNIV_nat, of "set (kids (held n))"] by auto
  note ti = t [unfolded takes_in_def]
  have Fc: "distinct (kids c)" "case c of Simple v \<Rightarrow> False | Streamed q b \<Rightarrow> False | _ \<Rightarrow> True"
    "\<And>a. old = Some a \<Longrightarrow> a \<in> set (kids (held n)) \<and> a \<notin> set (kids c)"
    "stream_dict (shape (mem s)) d \<Longrightarrow> \<exists>kvs kvs'. held n = Entries kvs \<and> c = Entries kvs' \<and>
       entry_at kvs' ''Length'' = entry_at kvs ''Length''" "\<not> length_leaf (shape (mem s)) d"
    using ti e by blast+
  have k: "new_kids s d n c" using Fc(1) ks unfolding new_kids_def by blast
  have nn: "sort_of c = sort_of (held n)" using ti e by blast
  have snd: "sound ((shape (mem s))(d \<mapsto> c))"
    by (rule sound_put [OF doc_okD(2) [OF ok] Fc(5) sd Fc(4)]) (use Fc(2) in \<open>auto split: held.splits\<close>)
  obtain res s' where s': "andThen (announce T d N) (\<lambda>_. andThen (leaves d old) (\<lambda>_. pass ()))
      (s\<lparr>mem := hold d c (mem s)\<rparr>) = (res, s')" "ok {} s'" "heard read s d n c N () res s'"
    by (rule member_change [OF ok n k c0 nn snd ro Fc(3), where g = "pass ()" and x = "()"]) (simp_all add: pass_def)
  have e: "andThen (leaves d old) (\<lambda>_. pass ()) = leaves d old"
    by (rule ext) (simp add: andThen_def pass_def split: prod.split sum.split)
  have "act s = (res, s')" using s'(1) unfolding e by (simp add: act andThen_def on_memory_def)
  moreover have "res = Inr () \<and> done_at read s (ref_of n) p d u' s'"
    if a: "indMap s (ref_of n) = Some a" "walk (shape (mem s)) a p = Some d" "rep (shape (mem s)) d u"
      and fi: "fits c u'" "list_all2 (rep (shape (mem s))) (kids c) (parts u')" "getType u' = getType u" for a p u u'
  proof -
    show ?thesis
      by (rule heard_done [OF T0 T0 _ n _ _ N a fi]) (use k s'(3) in \<open>simp_all add: grown_def\<close>)
  qed
  ultimately show thesis using that s'(2) by blast
qed

end

end
