(* ===== verification/Property_Operations.thy ===== *)
theory Property_Operations
  imports Property_Editing
begin

text \<open>
  The public changes of instances (\<^verbatim>\<open>setProperty\<close>, \<^verbatim>\<open>addProperty\<close>, \<^verbatim>\<open>delProperty\<close> of
  \<^verbatim>\<open>CDict\<close> and \<^verbatim>\<open>CArray\<close>, \<^verbatim>\<open>setValue\<close> of the simple objects) as one type of edits with
  the function of values that each of them stands for; \<open>edits_run\<close> covers all of them.
\<close>

section \<open>The changes of a client\<close>

text \<open>
  The changes of one instance as data, how they are run, and what they do to a value.  The instances
  that come in are named by their addresses; \<open>w\<close> is the value of such an instance.
\<close>

datatype edit =
    Set_key string nat | Add_key string nat | Del_key string
  | Set_item nat nat | Add_item nat nat | Del_item nat
  | Set_simple xobj

fun run_edit :: "'t prop_table \<Rightarrow> nat \<Rightarrow> edit \<Rightarrow> (unit, 't) action" where
  "run_edit T d (Set_key k b) = andThen (dict_setProperty T d k b) (\<lambda>_. pass ())"
| "run_edit T d (Add_key k b) = andThen (dict_addProperty T d k b) (\<lambda>_. pass ())"
| "run_edit T d (Del_key k) = dict_delProperty T d k"
| "run_edit T d (Set_item i b) = andThen (array_setProperty T d i b) (\<lambda>_. pass ())"
| "run_edit T d (Add_item i b) = andThen (array_addProperty T d i b) (\<lambda>_. pass ())"
| "run_edit T d (Del_item i) = array_delProperty T d i"
| "run_edit T d (Set_simple v) = setValue T d v"

fun operand :: "edit \<Rightarrow> nat option" where
  "operand (Set_key k b) = Some b"
| "operand (Add_key k b) = Some b"
| "operand (Set_item i b) = Some b"
| "operand (Add_item i b) = Some b"
| "operand e = None"

fun edit_dict :: "edit \<Rightarrow> xobj \<Rightarrow> dict \<Rightarrow> dict option" where
  "edit_dict (Set_key k b) w es = Some (snd (dict_update es k w))"
| "edit_dict (Add_key k b) w es = (if dict_find es k = None then Some (dict_add es k w) else None)"
| "edit_dict (Del_key k) w es = (if dict_find es k = None then None else Some (dict_drop es k))"
| "edit_dict e w es = None"

fun edit_array :: "edit \<Rightarrow> xobj \<Rightarrow> xobj list \<Rightarrow> xobj list option" where
  "edit_array (Set_item i b) w vs =
     (if i < length vs then Some (vs[i := w]) else if i = length vs then Some (vs @ [w]) else None)"
| "edit_array (Add_item i b) w vs = (if i \<le> length vs then Some (take i vs @ w # drop i vs) else None)"
| "edit_array (Del_item i) w vs = (if i < length vs then Some (take i vs @ drop (Suc i) vs) else None)"
| "edit_array e w vs = None"

fun edit_simple :: "edit \<Rightarrow> xobj \<Rightarrow> xobj option" where
  "edit_simple (Set_simple v) u =
     (if simple v \<and> simple u \<and> u \<noteq> XNull \<and> getType v = getType u then Some v else None)"
| "edit_simple e u = None"

definition edit_value :: "edit \<Rightarrow> xobj \<Rightarrow> xobj \<Rightarrow> xobj option" where
  "edit_value e w u =
     (case u of
        XDict es \<Rightarrow> map_option XDict (edit_dict e w es)
      | XArray vs \<Rightarrow> map_option XArray (edit_array e w vs)
      | _ \<Rightarrow> edit_simple e u)"

text \<open>The length of a stream is not for clients to change, and simple objects have simple values.\<close>

fun edit_safe :: "shape \<Rightarrow> nat \<Rightarrow> edit \<Rightarrow> bool" where
  "edit_safe G d (Set_key k b) = (k = ''Length'' \<longrightarrow> \<not> stream_dict G d)"
| "edit_safe G d (Add_key k b) = (k = ''Length'' \<longrightarrow> \<not> stream_dict G d)"
| "edit_safe G d (Del_key k) = (k = ''Length'' \<longrightarrow> \<not> stream_dict G d)"
| "edit_safe G d (Set_simple v) = (simple v \<and> \<not> length_leaf G d)"
| "edit_safe G d e = True"

text \<open>An edit does what it should when the document may be changed and the value allows it.\<close>

definition does_edit ::
    "('t \<Rightarrow> ref \<Rightarrow> xobj) \<Rightarrow> 't prop_table \<Rightarrow> 't pdf \<Rightarrow> nat \<Rightarrow> edit \<Rightarrow> 'a result \<Rightarrow> 't pdf \<Rightarrow> bool" where
  "does_edit read T s d e res s' \<longleftrightarrow>
     (\<forall>r a p u w u'. indMap s r = Some a \<longrightarrow> walk (shape (mem s)) a p = Some d \<longrightarrow>
        rep (shape (mem s)) d u \<longrightarrow>
        (\<forall>b. operand e = Some b \<longrightarrow> rep (shape (mem s)) b w) \<longrightarrow>
        edit_value e w u = Some u' \<longrightarrow> pdf_canChange T s = (Inr (), s) \<longrightarrow>
        (\<exists>x. res = Inr x) \<and> done_at read s r p d u' s')"

section \<open>Entries and members\<close>

lemma entry_at_None: "entry_at kvs key = None \<longleftrightarrow> key \<notin> set (map fst kvs)"
  by (induction kvs key rule: entry_at.induct) auto

lemma entry_at_mem: "entry_at kvs key = Some a \<Longrightarrow> a \<in> set (map snd kvs)"
  by (induction kvs key rule: entry_at.induct) (auto split: if_splits)

lemma entry_at_append: "entry_at (kvs @ ls) key = (case entry_at kvs key of None \<Rightarrow> entry_at ls key | x \<Rightarrow> x)"
  by (induction kvs key rule: entry_at.induct) auto

lemma entry_at_replace:
  "entry_at (replace_entry kvs key c) k = (if k = key \<and> entry_at kvs key \<noteq> None then Some c else entry_at kvs k)"
  by (induction kvs key c rule: replace_entry.induct) auto

lemma entry_at_drop: "k \<noteq> key \<Longrightarrow> entry_at (drop_entry kvs key) k = entry_at kvs k"
  by (induction kvs key rule: drop_entry.induct) auto

lemma replace_kids:
  assumes "entry_at kvs key = Some old" "distinct (map snd kvs)" "c \<notin> set (map snd kvs)"
  shows "distinct (map snd (replace_entry kvs key c))"
    "set (map snd (replace_entry kvs key c)) = insert c (set (map snd kvs) - {old})"
  using assms by (induction kvs key c rule: replace_entry.induct) (auto split: if_splits dest: entry_at_mem)

lemma drop_kids:
  assumes "entry_at kvs key = Some old" "distinct (map snd kvs)"
  shows "distinct (map snd (drop_entry kvs key))"
    "set (map snd (drop_entry kvs key)) = set (map snd kvs) - {old}"
  using assms by (induction kvs key rule: drop_entry.induct) (auto split: if_splits dest: entry_at_mem)

lemma fst_replace_entry [simp]: "map fst (replace_entry kvs key c) = map fst kvs"
  by (induction kvs key c rule: replace_entry.induct) auto

lemma replace_rel:
  assumes "list_all2 R (map snd kvs) (map snd es)" "map fst kvs = map fst es" "R c w"
  shows "list_all2 R (map snd (replace_entry kvs key c)) (map snd (dict_replace es key w))"
  using assms
proof (induction kvs arbitrary: es)
  case (Cons x kvs)
  then show ?case by (cases x; cases es) auto
qed simp

lemma drop_rel:
  assumes "list_all2 R (map snd kvs) (map snd es)" "map fst kvs = map fst es"
  shows "list_all2 R (map snd (drop_entry kvs key)) (map snd (dict_drop es key))"
  using assms
proof (induction kvs arbitrary: es)
  case (Cons x kvs)
  then show ?case by (cases x; cases es) auto
qed simp_all

lemma drop_keys: "map fst kvs = map fst es \<Longrightarrow> map fst (drop_entry kvs key) = map fst (dict_drop es key)"
proof (induction kvs arbitrary: es)
  case (Cons x kvs)
  then show ?case by (cases x; cases es) auto
qed simp_all

lemma entry_find: "map fst kvs = map fst es \<Longrightarrow> entry_at kvs key = None \<longleftrightarrow> dict_find es key = None"
  by (simp add: entry_at_None dict_find_None_iff)

lemma map_replace_nth:
  "distinct xs \<Longrightarrow> i < length xs \<Longrightarrow> map (\<lambda>x. if x = xs ! i then c else x) xs = xs[i := c]"
  by (rule nth_equalityI) (auto simp: nth_list_update nth_eq_iff_index_eq)

lemma erase_member_nth:
  assumes "distinct xs" "i < length xs"
  shows "erase_member xs (xs ! i) = take i xs @ drop (Suc i) xs"
proof -
  have x: "xs = take i xs @ xs ! i # drop (Suc i) xs" using assms(2) by (rule id_take_nth_drop)
  have d: "distinct (take i xs @ xs ! i # drop (Suc i) xs)" using assms(1) x by simp
  then have "xs ! i \<notin> set (take i xs)" "xs ! i \<notin> set (drop (Suc i) xs)" by auto
  then have "filter (\<lambda>y. y \<noteq> xs ! i) (take i xs) = take i xs"
    "filter (\<lambda>y. y \<noteq> xs ! i) (drop (Suc i) xs) = drop (Suc i) xs"
    by (auto intro!: filter_True)
  moreover have "filter (\<lambda>y. y \<noteq> xs ! i) xs =
      filter (\<lambda>y. y \<noteq> xs ! i) (take i xs @ xs ! i # drop (Suc i) xs)" using x by simp
  ultimately have f: "filter (\<lambda>y. y \<noteq> xs ! i) xs = take i xs @ drop (Suc i) xs" by simp
  have "length (take i xs @ drop (Suc i) xs) = length xs - 1" using assms(2) by simp
  then show ?thesis using assms(2) by (simp add: erase_member_def f)
qed

lemma list_all2_insert:
  "list_all2 R xs ys \<Longrightarrow> R c w \<Longrightarrow> list_all2 R (take i xs @ c # drop i xs) (take i ys @ w # drop i ys)"
  by (intro list_all2_appendI list.rel_intros list_all2_takeI list_all2_dropI)

section \<open>The operations\<close>

lemma edit_value_fits:
  "fits (Entries kvs) u \<Longrightarrow> edit_value e w u = Some u' \<Longrightarrow>
     \<exists>es es'. u = XDict es \<and> map fst kvs = map fst es \<and> edit_dict e w es = Some es' \<and> u' = XDict es'"
  "fits (Members xs) u \<Longrightarrow> edit_value e w u = Some u' \<Longrightarrow>
     \<exists>vs vs'. u = XArray vs \<and> edit_array e w vs = Some vs' \<and> u' = XArray vs'"
  "fits (Streamed q b) u \<Longrightarrow> edit_value e w u = Some u' \<Longrightarrow> False"
  "fits (Simple v) u \<Longrightarrow> edit_value e w u = Some u' \<Longrightarrow> u = v \<and> simple v \<and> edit_simple e u = Some u'"
  by (cases u; auto simp: edit_value_def; cases e; auto split: if_splits)+

lemma rep_fits: "rep G d u \<Longrightarrow> G d = Some c \<Longrightarrow> fits c u"
  by (auto elim: repE)

lemma edit_null: "edit_value e w XNull = None"
  by (cases e) (simp_all add: edit_value_def)

definition edits ::
    "('t \<Rightarrow> ref \<Rightarrow> xobj) \<Rightarrow> ('t \<Rightarrow> bool) \<Rightarrow> 't prop_table \<Rightarrow> 't pdf \<Rightarrow> nat \<Rightarrow> edit \<Rightarrow> ('a, 't) action \<Rightarrow> bool" where
  "edits read good T s d e act \<longleftrightarrow>
     (\<exists>res s'. act s = (res, s') \<and> doc_ok read good {} s' \<and> does_edit read T s d e res s')"

text \<open>An operation that fails before it has changed anything, with a value that does not allow it.\<close>

lemma edits_fail:
  assumes "act s = (Inl x, s)" "doc_ok read good {} s"
    and "\<And>u w. rep (shape (mem s)) d u \<Longrightarrow> edit_value e w u = None"
  shows "edits read good T s d e act"
  using assms unfolding edits_def does_edit_def by fastforce

lemma edits_unit: "edits read good T s d e act \<Longrightarrow> edits read good T s d e (andThen act (\<lambda>_. pass ()))"
proof -
  assume "edits read good T s d e act"
  then obtain res s' where r: "act s = (res, s')" "doc_ok read good {} s'" "does_edit read T s d e res s'"
    by (auto simp: edits_def)
  have d: "does_edit read T s d e res' s'" if "(\<exists>x. res = Inr x) \<longrightarrow> (\<exists>y. res' = Inr y)" for res' :: "unit result"
    using r(3) that unfolding does_edit_def by metis
  have "andThen act (\<lambda>_. pass ()) s = (map_sum id (\<lambda>_. ()) res, s')"
    using r(1) by (cases res) (simp_all add: andThen_def pass_def)
  moreover have "does_edit read T s d e (map_sum id (\<lambda>_. ()) res) s'" by (rule d) auto
  ultimately show ?thesis using r(2) unfolding edits_def by blast
qed

context prop_store
begin

lemma attached_change:
  assumes ok: "ok {} s" and n: "cells (mem s) d = Some n" and nn: "held n \<noteq> Simple XNull"
    and a: "indMap s r = Some a" "walk (shape (mem s)) a p = Some d"
  shows "in_pdf n" "ref_of n = r" "isRefValid r" "pdf_canChange T s = (Inr (), s) \<Longrightarrow> canChange T d s = (Inr (), s)"
proof -
  have "owned_by r n" using root_okD(4) [OF doc_okD(4) [OF ok a(1)] walk_reach [OF a(2)] n] .
  then show "in_pdf n" "ref_of n = r" using nn by (simp_all add: owned_by_def)
  show "isRefValid r" using root_okD(1) [OF doc_okD(4) [OF ok a(1)]] .
  show "pdf_canChange T s = (Inr (), s) \<Longrightarrow> canChange T d s = (Inr (), s)"
    using n by (simp add: canChange_def andThen_def look_at_def pass_def)
qed

text \<open>An operation that asks whether it may, first or after a check that passes.\<close>

lemma edits_asked:
  fixes act :: "('a, 't) action"
  assumes ok: "ok {} s" and n: "cells (mem s) d = Some n" and nn: "held n \<noteq> Simple XNull"
    and no: "\<And>x. canChange T d s = (Inl x, s) \<Longrightarrow> act s = (Inl x, s)"
    and yes: "canChange T d s = (Inr (), s) \<Longrightarrow>
      (\<And>u. in_pdf n \<Longrightarrow> wantDispatch n \<Longrightarrow> \<not> is_read_only T (xtab s)) \<Longrightarrow> edits read good T s d e act"
  shows "edits read good T s d e act"
proof -
  obtain res where r: "canChange T d s = (res, s)" using canChange_state by blast
  show ?thesis
  proof (cases res)
    case (Inl x)
    with no r have a: "act s = (Inl x, s)" by simp
    have "does_edit read T s d e (Inl x :: 'a result) s"
      unfolding does_edit_def using attached_change(4) [OF ok n nn] r Inl by (metis (no_types) Inl_Inr_False prod.inject)
    with a ok show ?thesis unfolding edits_def by blast
  next
    case (Inr u)
    with r have "canChange T d s = (Inr (), s)" by simp
    from yes [OF this canChange_Inr [OF this n]] show ?thesis by blast
  qed
qed

lemma edits_take:
  fixes act :: "('a, 't) action"
  assumes ok: "ok {} s" and n: "cells (mem s) d = Some n" and nn: "held n \<noteq> Simple XNull"
    and t: "takes_in (shape (mem s)) d (held n) F old"
    and ca: "\<And>w u u'. fits (held n) u \<Longrightarrow> edit_value e w u = Some u' \<Longrightarrow> carries (held n) F w u u'"
    and b: "operand e = Some b"
    and g: "\<And>c s. cells (mem s) d \<noteq> None \<Longrightarrow> \<exists>s'. g c s = (Inr (h c), s') \<and> alike s s'"
    and N: "\<And>c. subject (N c) = d"
    and no: "\<And>x. canChange T d s = (Inl x, s) \<Longrightarrow> act s = (Inl x, s)"
    and act: "canChange T d s = (Inr (), s) \<Longrightarrow> act s = copy_then first (ref_of n) (in_pdf n) b
      (\<lambda>c. andThen (on_memory (hold d (F c))) (\<lambda>_. andThen (announce T d (N c)) (\<lambda>_. andThen (leaves d old) (\<lambda>_. g c)))) s"
  shows "edits read good T s d e act"
proof (rule edits_asked [where act = act, OF ok n nn])
  fix x assume "canChange T d s = (Inl x, s)"
  then show "act s = (Inl x, s)" by (rule no)
next
  assume may: "canChange T d s = (Inr (), s)"
    and "\<And>u. in_pdf n \<Longrightarrow> wantDispatch n \<Longrightarrow> \<not> is_read_only T (xtab s)"
  then have ro: "in_pdf n \<Longrightarrow> wantDispatch n \<Longrightarrow> \<not> is_read_only T (xtab s)" by blast
  let ?act = "copy_then first (ref_of n) (in_pdf n) b
      (\<lambda>c. andThen (on_memory (hold d (F c))) (\<lambda>_. andThen (announce T d (N c)) (\<lambda>_. andThen (leaves d old) (\<lambda>_. g c))))"
  show "edits read good T s d e act"
  proof (rule taking_in [where F = F and old = old and g = g and h = h and N = N and first = first and b = b,
          OF ok n nn t ro g N refl])
    fix res s' assume s': "?act s = (res, s')" "ok {} s'"
      "\<And>a p u w u'. indMap s (ref_of n) = Some a \<Longrightarrow> walk (shape (mem s)) a p = Some d \<Longrightarrow>
         rep (shape (mem s)) d u \<Longrightarrow> rep (shape (mem s)) b w \<Longrightarrow> carries (held n) F w u u' \<Longrightarrow>
         (\<exists>c. res = Inr (h c) \<and> limit (mem s) \<le> c) \<and> done_at read s (ref_of n) p d u' s'"
    have run: "act s = (res, s')" using act [OF may] s'(1) by simp
    have sd: "shape (mem s) d = Some (held n)" using n by (simp add: shape_def)
    have "does_edit read T s d e res s'"
      unfolding does_edit_def
    proof (intro allI impI)
      fix r a p u w u'
      assume x: "indMap s r = Some a" "walk (shape (mem s)) a p = Some d" "rep (shape (mem s)) d u"
        "\<forall>b. operand e = Some b \<longrightarrow> rep (shape (mem s)) b w" "edit_value e w u = Some u'"
      have r: "ref_of n = r" by (rule attached_change(2) [OF ok n nn x(1,2)])
      from s'(3) [of a p u w u'] x(1-4) b ca [OF rep_fits [OF x(3) sd] x(5)]
      show "(\<exists>x. res = Inr x) \<and> done_at read s r p d u' s'" unfolding r by blast
    qed
    with run s'(2) show ?thesis unfolding edits_def by blast
  qed
qed

lemma edits_give:
  fixes act :: "(unit, 't) action"
  assumes ok: "ok {} s" and n: "cells (mem s) d = Some n" and nn: "held n \<noteq> Simple XNull"
    and t: "takes_in (shape (mem s)) d (held n) (\<lambda>_. c) old"
    and ks: "set (kids c) \<subseteq> set (kids (held n))"
    and ca: "\<And>w u u'. fits (held n) u \<Longrightarrow> edit_value e w u = Some u' \<Longrightarrow> getType u' = getType u \<and> fits c u' \<and>
      (\<forall>R. list_all2 R (kids (held n)) (parts u) \<longrightarrow> list_all2 R (kids c) (parts u'))"
    and N: "subject N = d"
    and no: "\<And>x. canChange T d s = (Inl x, s) \<Longrightarrow> act s = (Inl x, s)"
    and act: "canChange T d s = (Inr (), s) \<Longrightarrow>
      act s = andThen (on_memory (hold d c)) (\<lambda>_. andThen (announce T d N) (\<lambda>_. leaves d old)) s"
  shows "edits read good T s d e act"
proof (rule edits_asked [where act = act, OF ok n nn])
  fix x assume "canChange T d s = (Inl x, s)"
  then show "act s = (Inl x, s)" by (rule no)
next
  assume may: "canChange T d s = (Inr (), s)"
    and "\<And>u. in_pdf n \<Longrightarrow> wantDispatch n \<Longrightarrow> \<not> is_read_only T (xtab s)"
  then have ro: "in_pdf n \<Longrightarrow> wantDispatch n \<Longrightarrow> \<not> is_read_only T (xtab s)" by blast
  let ?act = "andThen (on_memory (hold d c)) (\<lambda>_. andThen (announce T d N) (\<lambda>_. leaves d old))"
  show "edits read good T s d e act"
  proof (rule giving_up [OF ok n nn t ks ro N refl])
    fix res s' assume s': "?act s = (res, s')" "ok {} s'"
      "\<And>a p u u'. indMap s (ref_of n) = Some a \<Longrightarrow> walk (shape (mem s)) a p = Some d \<Longrightarrow>
         rep (shape (mem s)) d u \<Longrightarrow> fits c u' \<Longrightarrow>
         list_all2 (rep (shape (mem s))) (kids c) (parts u') \<Longrightarrow> getType u' = getType u \<Longrightarrow>
         res = Inr () \<and> done_at read s (ref_of n) p d u' s'"
    have run: "act s = (res, s')" using act [OF may] s'(1) by simp
    have sd: "shape (mem s) d = Some (held n)" using n by (simp add: shape_def)
    have "does_edit read T s d e res s'"
      unfolding does_edit_def
    proof (intro allI impI)
      fix r a p u w u'
      assume x: "indMap s r = Some a" "walk (shape (mem s)) a p = Some d" "rep (shape (mem s)) d u"
        "edit_value e w u = Some u'"
      have r: "ref_of n = r" by (rule attached_change(2) [OF ok n nn x(1,2)])
      have f: "fits (held n) u" "list_all2 (rep (shape (mem s))) (kids (held n)) (parts u)"
        using x(3) sd by (auto elim: repE)
      from ca [OF f(1) x(4)] f(2)
      have "getType u' = getType u" "fits c u'" "list_all2 (rep (shape (mem s))) (kids c) (parts u')" by blast+
      with s'(3) [of a p u u'] x(1-3) show "(\<exists>x. res = Inr x) \<and> done_at read s r p d u' s'" unfolding r by blast
    qed
    with run s'(2) show ?thesis unfolding edits_def by blast
  qed
qed

lemma container_facts:
  assumes ok: "ok {} s" and n: "cells (mem s) d = Some n"
  shows "distinct (kids (held n))" "length_leaf (shape (mem s)) d \<Longrightarrow> \<exists>i. held n = Simple (XInt i)"
    "stream_dict (shape (mem s)) d \<Longrightarrow> \<exists>kvs. held n = Entries kvs"
proof -
  have sd: "shape (mem s) d = Some (held n)" using n by (simp add: shape_def)
  show "distinct (kids (held n))" using forestD(2) [OF doc_okD(1) [OF ok, unfolded treed_def] sd] .
  show "length_leaf (shape (mem s)) d \<Longrightarrow> \<exists>i. held n = Simple (XInt i)"
    using length_leaf_int [OF doc_okD(2) [OF ok], of d] sd by auto
  show "stream_dict (shape (mem s)) d \<Longrightarrow> \<exists>kvs. held n = Entries kvs"
    using soundD [OF doc_okD(2) [OF ok]] sd by (fastforce simp: stream_dict_def)
qed

lemma mode_then:
  "cells (mem s) d \<noteq> None \<Longrightarrow> \<exists>s'. andThen (dict_setMode d c k) (\<lambda>_. pass x) s = (Inr x, s') \<and> alike s s'"
  "cells (mem s) d \<noteq> None \<Longrightarrow> \<exists>s'. andThen (array_setMode d c) (\<lambda>_. pass x) s = (Inr x, s') \<and> alike s s'"
  using dict_setMode_alike [of s d c k] array_setMode_alike [of s d c] by (auto simp: andThen_def pass_def)

lemma dict_add_edits:
  assumes ok: "ok {} s" and n: "cells (mem s) d = Some n" "held n = Entries kvs" and k: "entry_at kvs k = None"
    and len: "k = ''Length'' \<longrightarrow> \<not> stream_dict (shape (mem s)) d" and e: "e = Add_key k b \<or> e = Set_key k b"
  shows "edits read good T s d e (dict_addProperty T d k b)"
proof (rule edits_take [where F = "\<lambda>c. Entries (kvs @ [(k, c)])" and old = None and h = "\<lambda>c. c"
      and g = "\<lambda>c. andThen (dict_setMode d c k) (\<lambda>_. pass c)" and N = "\<lambda>c. Notice d (Some c) None (At_key k)"
      and first = False and b = b, OF ok n(1)])
  note f = container_facts [OF ok n(1)]
  show "takes_in (shape (mem s)) d (held n) (\<lambda>c. Entries (kvs @ [(k, c)])) None"
    unfolding takes_in_def using f n(2) len by (auto simp: entry_at_append split: option.split)
  fix w u u' assume "fits (held n) u" "edit_value e w u = Some u'"
  with n(2) edit_value_fits(1) [of kvs u e w u'] obtain es es' where x: "u = XDict es" "map fst kvs = map fst es"
    "edit_dict e w es = Some es'" "u' = XDict es'" by auto
  have "dict_find es k = None" using k entry_find [OF x(2)] by simp
  with x(3) e have "es' = es @ [(k, w)]" by (auto simp: dict_update_def dict_add_def)
  then show "carries (held n) (\<lambda>c. Entries (kvs @ [(k, c)])) w u u'"
    using n(2) x by (auto simp: carries_def intro!: list_all2_appendI)
next
  fix x assume "canChange T d s = (Inl x, s)"
  then show "dict_addProperty T d k b s = (Inl x, s)" by (simp add: dict_addProperty_def andThen_def)
next
  assume "canChange T d s = (Inr (), s)"
  then show "dict_addProperty T d k b s = copy_then False (ref_of n) (in_pdf n) b
      (\<lambda>c. andThen (on_memory (hold d (Entries (kvs @ [(k, c)]))))
        (\<lambda>_. andThen (announce T d (Notice d (Some c) None (At_key k)))
          (\<lambda>_. andThen (leaves d None) (\<lambda>_. andThen (dict_setMode d c k) (\<lambda>_. pass c))))) s"
    using n k by (simp add: dict_addProperty_def andThen_def [of "canChange T d"] andThen_def [of "entries_of d"]
        entries_of_Some copy_then_def leaves_def)
next
  show "\<exists>s'. andThen (dict_setMode d c k) (\<lambda>_. pass c) s = (Inr c, s') \<and> alike s s'"
    if "cells (mem s) d \<noteq> None" for c and s :: "'t pdf" by (rule mode_then(1) [OF that])
  show "operand e = Some b" using e by auto
qed (simp_all add: n(2))

lemma dict_replace_edits:
  assumes ok: "ok {} s" and n: "cells (mem s) d = Some n" "held n = Entries kvs" and k: "entry_at kvs k = Some old"
    and len: "k = ''Length'' \<longrightarrow> \<not> stream_dict (shape (mem s)) d"
  shows "edits read good T s d (Set_key k b) (dict_setProperty T d k b)"
proof (rule edits_take [where F = "\<lambda>c. Entries (replace_entry kvs k c)" and old = "Some old" and h = "\<lambda>c. c"
      and g = "\<lambda>c. andThen (dict_setMode d c k) (\<lambda>_. pass c)"
      and N = "\<lambda>c. Notice d (Some c) (Some old) (At_key k)" and first = False and b = b, OF ok n(1)])
  note f = container_facts [OF ok n(1)]
  have dis: "distinct (map snd kvs)" using f(1) n(2) by simp
  show "takes_in (shape (mem s)) d (held n) (\<lambda>c. Entries (replace_entry kvs k c)) (Some old)"
    unfolding takes_in_def
    using f n(2) len replace_kids [OF k dis] entry_at_mem [OF k] by (auto simp: entry_at_replace)
  fix w u u' assume "fits (held n) u" "edit_value (Set_key k b) w u = Some u'"
  with n(2) edit_value_fits(1) [of kvs u "Set_key k b" w u'] obtain es where x: "u = XDict es" "map fst kvs = map fst es"
    "u' = XDict (snd (dict_update es k w))" by auto
  moreover have "dict_find es k \<noteq> None" using k entry_find [OF x(2), of k] by simp
  ultimately show "carries (held n) (\<lambda>c. Entries (replace_entry kvs k c)) w u u'"
    using n(2) by (auto simp: carries_def dict_update_def intro!: replace_rel)
next
  fix x assume "canChange T d s = (Inl x, s)"
  then show "dict_setProperty T d k b s = (Inl x, s)" by (simp add: dict_setProperty_def andThen_def)
next
  assume "canChange T d s = (Inr (), s)"
  then show "dict_setProperty T d k b s = copy_then False (ref_of n) (in_pdf n) b
      (\<lambda>c. andThen (on_memory (hold d (Entries (replace_entry kvs k c))))
        (\<lambda>_. andThen (announce T d (Notice d (Some c) (Some old) (At_key k)))
          (\<lambda>_. andThen (leaves d (Some old)) (\<lambda>_. andThen (dict_setMode d c k) (\<lambda>_. pass c))))) s"
    using n k by (simp add: dict_setProperty_def andThen_def [of "canChange T d"] andThen_def [of "entries_of d"]
        entries_of_Some copy_then_def leaves_def)
next
  show "\<exists>s'. andThen (dict_setMode d c k) (\<lambda>_. pass c) s = (Inr c, s') \<and> alike s s'"
    if "cells (mem s) d \<noteq> None" for c and s :: "'t pdf" by (rule mode_then(1) [OF that])
qed (simp_all add: n(2))

lemma dict_drop_edits:
  assumes ok: "ok {} s" and n: "cells (mem s) d = Some n" "held n = Entries kvs" and k: "entry_at kvs k = Some old"
    and len: "k = ''Length'' \<longrightarrow> \<not> stream_dict (shape (mem s)) d"
  shows "edits read good T s d (Del_key k) (dict_delProperty T d k)"
proof (rule edits_give [where c = "Entries (drop_entry kvs k)" and old = "Some old"
      and N = "Notice d None (Some old) (At_key k)", OF ok n(1)])
  note f = container_facts [OF ok n(1)]
  have dis: "distinct (map snd kvs)" using f(1) n(2) by simp
  note dk = drop_kids [OF k dis]
  show "takes_in (shape (mem s)) d (held n) (\<lambda>_. Entries (drop_entry kvs k)) (Some old)"
    unfolding takes_in_def using f n(2) len dk entry_at_mem [OF k] entry_at_drop [of "''Length''" k kvs] by auto
  show "set (kids (Entries (drop_entry kvs k))) \<subseteq> set (kids (held n))" using n(2) dk(2) by auto
  fix w u u' assume "fits (held n) u" "edit_value (Del_key k) w u = Some u'"
  with n(2) edit_value_fits(1) [of kvs u "Del_key k" w u'] obtain es where x: "u = XDict es" "map fst kvs = map fst es"
    "u' = XDict (dict_drop es k)" by (auto split: if_splits)
  with drop_rel [OF _ x(2)] drop_keys [OF x(2)] n(2)
  show "getType u' = getType u \<and> fits (Entries (drop_entry kvs k)) u' \<and>
      (\<forall>R. list_all2 R (kids (held n)) (parts u) \<longrightarrow> list_all2 R (kids (Entries (drop_entry kvs k))) (parts u'))"
    by auto
next
  fix x assume "canChange T d s = (Inl x, s)"
  then show "dict_delProperty T d k s = (Inl x, s)" by (simp add: dict_delProperty_def andThen_def)
next
  assume "canChange T d s = (Inr (), s)"
  then show "dict_delProperty T d k s = andThen (on_memory (hold d (Entries (drop_entry kvs k))))
      (\<lambda>_. andThen (announce T d (Notice d None (Some old) (At_key k))) (\<lambda>_. leaves d (Some old))) s"
    using n k by (simp add: dict_delProperty_def andThen_def [of "canChange T d"] andThen_def [of "entries_of d"]
        entries_of_Some leaves_def)
qed (use n in auto)

lemma members_facts:
  assumes ok: "ok {} s" and n: "cells (mem s) d = Some n" "held n = Members xs"
  shows "distinct xs" "\<not> length_leaf (shape (mem s)) d" "\<not> stream_dict (shape (mem s)) d"
  using container_facts [OF ok n(1)] n(2) by auto

lemma array_add_edits:
  assumes ok: "ok {} s" and n: "cells (mem s) d = Some n" "held n = Members xs" and i: "i \<le> length xs"
    and e: "e = Add_item i b \<or> e = Set_item i b \<and> i = length xs"
  shows "edits read good T s d e (array_addProperty T d i b)"
proof (rule edits_take [where F = "\<lambda>c. Members (take i xs @ c # drop i xs)" and old = None and h = "\<lambda>c. c"
      and g = "\<lambda>c. andThen (array_setMode d c) (\<lambda>_. pass c)"
      and N = "\<lambda>c. Notice d (Some c) None (At_index (if i = length xs then i else 0))"
      and first = True and b = b, OF ok n(1)])
  note f = members_facts [OF ok n]
  have "distinct (take i xs @ c # drop i xs)" if "c \<notin> set xs" for c
    using that f(1) set_take_disj_set_drop_if_distinct [of xs i i] by (auto dest: in_set_takeD in_set_dropD)
  then show "takes_in (shape (mem s)) d (held n) (\<lambda>c. Members (take i xs @ c # drop i xs)) None"
    unfolding takes_in_def using f(2,3) n(2) by (auto dest: in_set_takeD in_set_dropD)
  fix w u u' assume fu: "fits (held n) u" "edit_value e w u = Some u'"
  with n(2) edit_value_fits(2) [of xs u e w u'] obtain vs vs' where x: "u = XArray vs" "edit_array e w vs = Some vs'"
    "u' = XArray vs'" by auto
  have "vs' = take i vs @ w # drop i vs" if "length xs = length vs"
    using that x(2) e i by auto
  with x n(2) show "carries (held n) (\<lambda>c. Members (take i xs @ c # drop i xs)) w u u'"
    by (auto simp: carries_def dest: list_all2_lengthD intro!: list_all2_insert)
next
  fix x assume "canChange T d s = (Inl x, s)"
  then show "array_addProperty T d i b s = (Inl x, s)"
    using n i by (simp add: array_addProperty_def andThen_def members_of_Some)
next
  assume "canChange T d s = (Inr (), s)"
  then show "array_addProperty T d i b s = copy_then True (ref_of n) (in_pdf n) b
      (\<lambda>c. andThen (on_memory (hold d (Members (take i xs @ c # drop i xs))))
        (\<lambda>_. andThen (announce T d (Notice d (Some c) None (At_index (if i = length xs then i else 0))))
          (\<lambda>_. andThen (leaves d None) (\<lambda>_. andThen (array_setMode d c) (\<lambda>_. pass c))))) s"
    using n i by (simp add: array_addProperty_def andThen_def [of "canChange T d"] andThen_def [of "members_of d"]
        members_of_Some copy_then_def leaves_def Let_def)
next
  show "\<exists>s'. andThen (array_setMode d c) (\<lambda>_. pass c) s = (Inr c, s') \<and> alike s s'"
    if "cells (mem s) d \<noteq> None" for c and s :: "'t pdf" by (rule mode_then(2) [OF that])
  show "operand e = Some b" using e by auto
qed (simp_all add: n(2))

lemma array_replace_edits:
  assumes ok: "ok {} s" and n: "cells (mem s) d = Some n" "held n = Members xs" and i: "i < length xs"
  shows "edits read good T s d (Set_item i b) (array_setProperty T d i b)"
proof (rule edits_take [where F = "\<lambda>c. Members (xs[i := c])" and old = "Some (xs ! i)" and h = "\<lambda>c. c"
      and g = "\<lambda>c. andThen (array_setMode d c) (\<lambda>_. pass c)"
      and N = "\<lambda>c. Notice d (Some c) (Some (xs ! i)) (At_index i)" and first = False and b = b, OF ok n(1)])
  note f = members_facts [OF ok n]
  have gone: "xs ! i \<notin> set (xs[i := c])" if "c \<notin> set xs" for c
    using that f(1) i by (simp add: set_update_distinct) (metis nth_mem)
  show "takes_in (shape (mem s)) d (held n) (\<lambda>c. Members (xs[i := c])) (Some (xs ! i))"
    unfolding takes_in_def
    using f n(2) i gone set_update_subset_insert [of xs i] by (simp add: distinct_list_update)
  fix w u u' assume fu: "fits (held n) u" "edit_value (Set_item i b) w u = Some u'"
  with n(2) edit_value_fits(2) [of xs u "Set_item i b" w u'] obtain vs vs' where x: "u = XArray vs"
    "edit_array (Set_item i b) w vs = Some vs'" "u' = XArray vs'" by auto
  have "vs' = vs[i := w]" if "length xs = length vs" using that x(2) i by auto
  with x n(2) show "carries (held n) (\<lambda>c. Members (xs[i := c])) w u u'"
    by (auto simp: carries_def dest: list_all2_lengthD intro!: list_all2_update_cong)
next
  fix x assume "canChange T d s = (Inl x, s)"
  then show "array_setProperty T d i b s = (Inl x, s)"
    using n i by (simp add: array_setProperty_def andThen_def members_of_Some)
next
  assume "canChange T d s = (Inr (), s)"
  then show "array_setProperty T d i b s = copy_then False (ref_of n) (in_pdf n) b
      (\<lambda>c. andThen (on_memory (hold d (Members (xs[i := c]))))
        (\<lambda>_. andThen (announce T d (Notice d (Some c) (Some (xs ! i)) (At_index i)))
          (\<lambda>_. andThen (leaves d (Some (xs ! i))) (\<lambda>_. andThen (array_setMode d c) (\<lambda>_. pass c))))) s"
    using n i map_replace_nth [OF members_facts(1) [OF ok n] i]
    by (simp add: array_setProperty_def andThen_def [of "canChange T d"] andThen_def [of "members_of d"]
        members_of_Some copy_then_def leaves_def)
next
  show "\<exists>s'. andThen (array_setMode d c) (\<lambda>_. pass c) s = (Inr c, s') \<and> alike s s'"
    if "cells (mem s) d \<noteq> None" for c and s :: "'t pdf" by (rule mode_then(2) [OF that])
qed (simp_all add: n(2))

lemma array_drop_edits:
  assumes ok: "ok {} s" and n: "cells (mem s) d = Some n" "held n = Members xs" and i: "i < length xs"
  shows "edits read good T s d (Del_item i) (array_delProperty T d i)"
proof (rule edits_give [where c = "Members (take i xs @ drop (Suc i) xs)" and old = "Some (xs ! i)"
      and N = "Notice d None (Some (xs ! i)) (At_index i)", OF ok n(1)])
  note f = members_facts [OF ok n]
  have x: "xs = take i xs @ xs ! i # drop (Suc i) xs" using i by (rule id_take_nth_drop)
  have "distinct (take i xs @ xs ! i # drop (Suc i) xs)" using f(1) x by simp
  then have dis: "distinct (take i xs @ drop (Suc i) xs)" "xs ! i \<notin> set (take i xs @ drop (Suc i) xs)" by auto
  show "takes_in (shape (mem s)) d (held n) (\<lambda>_. Members (take i xs @ drop (Suc i) xs)) (Some (xs ! i))"
    unfolding takes_in_def using f n(2) dis i by (auto dest: in_set_takeD in_set_dropD)
  show "set (kids (Members (take i xs @ drop (Suc i) xs))) \<subseteq> set (kids (held n))"
    using n(2) by (auto dest: in_set_takeD in_set_dropD)
  fix w u u' assume "fits (held n) u" "edit_value (Del_item i) w u = Some u'"
  with n(2) edit_value_fits(2) [of xs u "Del_item i" w u'] obtain vs where x: "u = XArray vs"
    "u' = XArray (take i vs @ drop (Suc i) vs)" by (auto split: if_splits)
  with n(2) show "getType u' = getType u \<and> fits (Members (take i xs @ drop (Suc i) xs)) u' \<and>
      (\<forall>R. list_all2 R (kids (held n)) (parts u) \<longrightarrow>
        list_all2 R (kids (Members (take i xs @ drop (Suc i) xs))) (parts u'))"
    by (auto intro!: list_all2_appendI list_all2_takeI list_all2_dropI)
next
  fix x assume "canChange T d s = (Inl x, s)"
  then show "array_delProperty T d i s = (Inl x, s)"
    using n i by (simp add: array_delProperty_def andThen_def members_of_Some)
next
  assume "canChange T d s = (Inr (), s)"
  then show "array_delProperty T d i s = andThen (on_memory (hold d (Members (take i xs @ drop (Suc i) xs))))
      (\<lambda>_. andThen (announce T d (Notice d None (Some (xs ! i)) (At_index i))) (\<lambda>_. leaves d (Some (xs ! i)))) s"
    using n i erase_member_nth [OF members_facts(1) [OF ok n] i]
    by (simp add: array_delProperty_def andThen_def [of "canChange T d"] andThen_def [of "members_of d"]
        members_of_Some leaves_def)
qed (use n in auto)

text \<open>\<open>setValue\<close> after the checks: in a document and in none.\<close>

lemma simple_put:
  assumes ok: "ok {} s" and n: "cells (mem s) d = Some n" "held n = Simple v" and v: "v \<noteq> XNull" "simple val" "val \<noteq> XNull"
    and len: "\<not> length_leaf (shape (mem s)) d"
  shows "sound ((shape (mem s))(d \<mapsto> Simple val))" "new_kids s d n (Simple val)"
proof -
  have sd: "shape (mem s) d = Some (Simple v)" using n by (simp add: shape_def)
  have "\<not> stream_dict (shape (mem s)) d" using container_facts(3) [OF ok n(1)] n(2) by auto
  then show "sound ((shape (mem s))(d \<mapsto> Simple val))"
    using sound_put [OF doc_okD(2) [OF ok] len sd, of "Simple val"] v by simp
qed (simp add: new_kids_def)

lemma set_simple_edits:
  assumes ok: "ok {} s" and n: "cells (mem s) d = Some n" "held n = Simple v"
    and val: "simple val" and ty: "getType v \<noteq> objNull" "getType val = getType v"
    and len: "\<not> length_leaf (shape (mem s)) d"
  shows "edits read good T s d (Set_simple val) (setValue T d val)"
proof (rule edits_asked [where act = "setValue T d val", OF ok n(1)])
  have nn: "v \<noteq> XNull" "val \<noteq> XNull" using ty by auto
  then show "held n \<noteq> Simple XNull" using n(2) by simp
  fix x assume "canChange T d s = (Inl x, s)"
  then show "setValue T d val s = (Inl x, s)" using n ty by (simp add: setValue_def andThen_def look_at_Some)
next
  assume may: "canChange T d s = (Inr (), s)"
    and "\<And>u. in_pdf n \<Longrightarrow> wantDispatch n \<Longrightarrow> \<not> is_read_only T (xtab s)"
  then have ro: "in_pdf n \<Longrightarrow> wantDispatch n \<Longrightarrow> \<not> is_read_only T (xtab s)" by blast
  have nn: "v \<noteq> XNull" "val \<noteq> XNull" using ty by auto
  have hn: "held n \<noteq> Simple XNull" using nn n(2) by simp
  let ?put = "on_memory (hold d (Simple val))"
  have run: "setValue T d val s =
      (if in_pdf n then andThen (assert_that (isRefValid (ref_of n))) (\<lambda>_. copy_then True (ref_of n) (in_pdf n) d
         (\<lambda>c. andThen ?put (\<lambda>_. property_objectChanged T d (Notice d (Some d) (Some c) Whole)))) s
       else andThen (assert_that (\<not> isRefValid (ref_of n))) (\<lambda>_. ?put) s)"
    using n ty may by (simp add: setValue_def andThen_def [of "look_at d"] andThen_def [of "canChange T d"]
        look_at_Some copy_then_def)
  show "edits read good T s d (Set_simple val) (setValue T d val)"
  proof (cases "in_pdf n \<and> isRefValid (ref_of n)")
    case False
    have na: "\<not> attached s d"
    proof
      assume "attached s d"
      then obtain r a where a: "indMap s r = Some a" "reach (shape (mem s)) a d" by (auto simp: attached_def)
      obtain p where "walk (shape (mem s)) a p = Some d" using reach_walk [OF a(2)] by blast
      from attached_change(1,2,3) [OF ok n(1) hn a(1) this] False show False by simp
    qed
    have "does_edit read T s d (Set_simple val) res s'" for res :: "unit result" and s'
      unfolding does_edit_def using na walk_reach unfolding attached_def by blast
    moreover have "ok {} (s\<lparr>mem := hold d (Simple val) (mem s)\<rparr>)"
      using put_ok [OF ok n(1) simple_put(2) [OF ok n nn(1) val nn(2) len] hn _ simple_put(1) [OF ok n nn(1) val nn(2) len]]
        na nn n(2) ty by simp
    ultimately show ?thesis using run False ok
      unfolding edits_def by (auto simp: assert_that_def andThen_def pass_def fail_def on_memory_def)
  next
    case True
    have T0: "treed (mem s)" by (rule doc_okD(1) [OF ok])
    have sd: "shape (mem s) d = Some (Simple v)" using n by (simp add: shape_def)
    have sv: "simple v" using soundD [OF doc_okD(2) [OF ok] sd] by simp
    then have rv: "rep (shape (mem s)) d v" using sd by (simp add: rep_iff [of "shape (mem s)" d])
    let ?N = "\<lambda>c. Notice d (Some d) (Some c) Whole"
    obtain c m where cp: "copy_then True (ref_of n) (in_pdf n) d (\<lambda>c. andThen ?put (\<lambda>_. property_objectChanged T d (?N c))) s =
        andThen ?put (\<lambda>_. property_objectChanged T d (?N c)) (s\<lparr>mem := m\<rparr>)"
      and bu: "built (placed (ref_of n) (in_pdf n)) (mem s) m [c] [v]"
      by (rule copy_then_run [OF T0 rv rep_plain [OF rv doc_okD(2) [OF ok]]])
    let ?s = "s\<lparr>mem := m\<rparr>"
    have ok1: "ok {} ?s" by (rule built_ok [OF ok bu])
    have n1: "cells (mem ?s) d = Some n" using built_fresh(2) [OF ok n(1) bu] by simp
    have "\<not> length_leaf (shape m) d"
      using grown_length_leaf [OF builtD(1) [OF bu] T0 builtD(2) [OF bu] treed_limit [OF T0 n(1)]] len by blast
    note put = simple_put [OF ok1 n1 n(2) nn(1) val nn(2), simplified, OF this]
    have ro1: "in_pdf n \<Longrightarrow> wantDispatch n \<Longrightarrow> \<not> is_read_only T (xtab ?s)" using ro by simp
    obtain res s' where s': "property_objectChanged T d (?N c) (?s\<lparr>mem := hold d (Simple val) (mem ?s)\<rparr>) = (res, s')" "ok {} s'"
      "heard read ?s d n (Simple val) (?N c) () res s'"
      by (rule put_announce [OF ok1 n1 put(2) hn _ _ ro1, of "property_objectChanged T d (?N c)" "?N c"]) (use nn put(1) n(2) ty in simp_all)
    have "setValue T d val s = (res, s')"
      using run True cp s'(1) by (simp add: assert_that_def andThen_def [of ?put] on_memory_def)
    moreover have "does_edit read T s d (Set_simple val) res s'"
      unfolding does_edit_def
    proof (intro allI impI)
      fix r a p u w u'
      assume x: "indMap s r = Some a" "walk (shape (mem s)) a p = Some d" "rep (shape (mem s)) d u"
        "edit_value (Set_simple val) w u = Some u'"
      have r: "ref_of n = r" by (rule attached_change(2) [OF ok n(1) hn x(1,2)])
      have "u' = val" using edit_value_fits(4) [OF rep_fits [OF x(3) sd] x(4)] by (auto split: if_splits)
      moreover have "u = v" using rep_unique [OF x(3) rv] .
      ultimately have "res = Inr () \<and> done_at read s (ref_of n) p d u' s'"
        using heard_done [OF T0 builtD(2,1) [OF bu] _ put(2) s'(3) _ x(1) [folded r] x(2,3), of u'] n1 val ty by simp
      then show "(\<exists>x. res = Inr x) \<and> done_at read s r p d u' s'" unfolding r by blast
    qed
    ultimately show ?thesis using s'(2) unfolding edits_def by blast
  qed
qed

text \<open>The instance is not of the class of the operation.\<close>

lemma not_entries:
  assumes "\<And>n kvs. cells (mem s) d = Some n \<Longrightarrow> held n \<noteq> Entries kvs"
  shows "\<exists>x. entries_of d s = (Inl x, s)"
    "rep (shape (mem s)) d u \<Longrightarrow> u \<noteq> XDict es"
proof -
  show "\<exists>x. entries_of d s = (Inl x, s)"
    using assms by (auto simp: entries_of_def andThen_def look_at_def fail_def split: option.split held.split)
  show "u \<noteq> XDict es" if r: "rep (shape (mem s)) d u"
  proof
    assume u: "u = XDict es"
    from r obtain c where c: "shape (mem s) d = Some c" "fits c u" by (auto elim: repE)
    from c(2) u obtain kvs where "c = Entries kvs" by (cases c) auto
    with c(1) assms show False by (auto simp: shape_Some)
  qed
qed

lemma not_members:
  assumes "\<And>n xs. cells (mem s) d = Some n \<Longrightarrow> held n \<noteq> Members xs"
  shows "\<exists>x. members_of d s = (Inl x, s)"
    "rep (shape (mem s)) d u \<Longrightarrow> u \<noteq> XArray vs"
proof -
  show "\<exists>x. members_of d s = (Inl x, s)"
    using assms by (auto simp: members_of_def andThen_def look_at_def fail_def split: option.split held.split)
  show "u \<noteq> XArray vs" if r: "rep (shape (mem s)) d u"
  proof
    assume u: "u = XArray vs"
    from r obtain c where c: "shape (mem s) d = Some c" "fits c u" by (auto elim: repE)
    from c(2) u obtain xs where "c = Members xs" by (cases c) auto
    with c(1) assms show False by (auto simp: shape_Some)
  qed
qed

text \<open>An operation that asks first and then fails.\<close>

lemma ask_fail:
  "\<exists>x. g () s = (Inl x, s) \<Longrightarrow> \<exists>x. andThen (canChange T d) g s = (Inl x, s)"
proof -
  assume "\<exists>x. g () s = (Inl x, s)"
  moreover obtain res where "canChange T d s = (res, s)" using canChange_state by blast
  ultimately show ?thesis by (cases res) (auto simp: andThen_def)
qed

lemma dict_ops_fail:
  assumes "\<exists>x. entries_of d s = (Inl x, s)"
  shows "\<exists>x. dict_setProperty T d k b s = (Inl x, s)" "\<exists>x. dict_addProperty T d k b s = (Inl x, s)"
    "\<exists>x. dict_delProperty T d k s = (Inl x, s)"
  using assms unfolding dict_setProperty_def dict_addProperty_def dict_delProperty_def
  by (intro ask_fail; auto simp: andThen_def)+

lemma array_ops_fail:
  assumes "\<exists>x. members_of d s = (Inl x, s)"
  shows "\<exists>x. array_setProperty T d i b s = (Inl x, s)" "\<exists>x. array_addProperty T d i b s = (Inl x, s)"
    "\<exists>x. array_delProperty T d i s = (Inl x, s)"
  using assms by (auto simp: array_setProperty_def array_addProperty_def array_delProperty_def andThen_def)

lemma dict_set_edits:
  assumes ok: "ok {} s" and len: "k = ''Length'' \<longrightarrow> \<not> stream_dict (shape (mem s)) d"
  shows "edits read good T s d (Set_key k b) (dict_setProperty T d k b)"
proof (cases "\<exists>n kvs. cells (mem s) d = Some n \<and> held n = Entries kvs")
  case False
  then have no: "\<And>n kvs. cells (mem s) d = Some n \<Longrightarrow> held n \<noteq> Entries kvs" by blast
  obtain x where "dict_setProperty T d k b s = (Inl x, s)" using dict_ops_fail(1) [OF not_entries(1) [OF no]] by blast
  then show ?thesis
    by (rule edits_fail [OF _ ok]) (use not_entries(2) [OF no] in \<open>auto simp: edit_value_def split: xobj.split\<close>)
next
  case True
  then obtain n kvs where n: "cells (mem s) d = Some n" "held n = Entries kvs" by blast
  show ?thesis
  proof (cases "entry_at kvs k")
    case (Some old)
    show ?thesis by (rule dict_replace_edits [OF ok n Some len])
  next
    case None
    obtain res where r: "canChange T d s = (res, s)" using canChange_state by blast
    have "dict_setProperty T d k b s = dict_addProperty T d k b s"
      using r n None by (cases res) (simp_all add: dict_setProperty_def dict_addProperty_def andThen_def entries_of_Some)
    with dict_add_edits [OF ok n None len, of "Set_key k b" b] show ?thesis by (simp add: edits_def)
  qed
qed

lemma entries_find:
  "cells (mem s) d = Some n \<Longrightarrow> held n = Entries kvs \<Longrightarrow> rep (shape (mem s)) d (XDict es) \<Longrightarrow>
     entry_at kvs k = None \<longleftrightarrow> dict_find es k = None"
  using rep_fits [of "shape (mem s)" d "XDict es" "held n"] entry_find by (auto simp: shape_def)

lemma members_length:
  "cells (mem s) d = Some n \<Longrightarrow> held n = Members xs \<Longrightarrow> rep (shape (mem s)) d (XArray vs) \<Longrightarrow> length xs = length vs"
  by (auto simp: shape_def rep_iff [of "shape (mem s)" d] dest: list_all2_lengthD)

lemma dict_add_key_edits:
  assumes ok: "ok {} s" and len: "k = ''Length'' \<longrightarrow> \<not> stream_dict (shape (mem s)) d"
  shows "edits read good T s d (Add_key k b) (dict_addProperty T d k b)"
proof (cases "\<exists>n kvs. cells (mem s) d = Some n \<and> held n = Entries kvs \<and> entry_at kvs k = None")
  case True
  then obtain n kvs where "cells (mem s) d = Some n" "held n = Entries kvs" "entry_at kvs k = None" by blast
  with dict_add_edits [OF ok this len] show ?thesis by blast
next
  case False
  show ?thesis
  proof (cases "\<exists>n kvs. cells (mem s) d = Some n \<and> held n = Entries kvs")
    case no: False
    then have no: "\<And>n kvs. cells (mem s) d = Some n \<Longrightarrow> held n \<noteq> Entries kvs" by blast
    obtain x where "dict_addProperty T d k b s = (Inl x, s)" using dict_ops_fail(2) [OF not_entries(1) [OF no]] by blast
    then show ?thesis
      by (rule edits_fail [OF _ ok]) (use not_entries(2) [OF no] in \<open>auto simp: edit_value_def split: xobj.split\<close>)
  next
    case True
    then obtain n kvs where n: "cells (mem s) d = Some n" "held n = Entries kvs" by blast
    with False have k: "entry_at kvs k \<noteq> None" by auto
    have "\<exists>x. dict_addProperty T d k b s = (Inl x, s)"
      unfolding dict_addProperty_def by (rule ask_fail) (use n k in \<open>simp add: andThen_def entries_of_Some fail_def\<close>)
    then obtain x where "dict_addProperty T d k b s = (Inl x, s)" by blast
    then show ?thesis
    proof (rule edits_fail [OF _ ok])
      fix u w assume r: "rep (shape (mem s)) d u"
      show "edit_value (Add_key k b) w u = None"
      proof (cases u)
        case (XDict es)
        with entries_find [OF n, of es k] k r show ?thesis by (auto simp: edit_value_def)
      qed (simp_all add: edit_value_def)
    qed
  qed
qed

lemma dict_del_key_edits:
  assumes ok: "ok {} s" and len: "k = ''Length'' \<longrightarrow> \<not> stream_dict (shape (mem s)) d"
  shows "edits read good T s d (Del_key k) (dict_delProperty T d k)"
proof (cases "\<exists>n kvs. cells (mem s) d = Some n \<and> held n = Entries kvs")
  case False
  then have no: "\<And>n kvs. cells (mem s) d = Some n \<Longrightarrow> held n \<noteq> Entries kvs" by blast
  obtain x where "dict_delProperty T d k s = (Inl x, s)" using dict_ops_fail(3) [OF not_entries(1) [OF no]] by blast
  then show ?thesis
    by (rule edits_fail [OF _ ok]) (use not_entries(2) [OF no] in \<open>auto simp: edit_value_def split: xobj.split\<close>)
next
  case True
  then obtain n kvs where n: "cells (mem s) d = Some n" "held n = Entries kvs" by blast
  show ?thesis
  proof (cases "entry_at kvs k")
    case (Some old)
    show ?thesis by (rule dict_drop_edits [OF ok n Some len])
  next
    case None
    have "\<exists>x. dict_delProperty T d k s = (Inl x, s)"
      unfolding dict_delProperty_def by (rule ask_fail) (use n None in \<open>simp add: andThen_def entries_of_Some fail_def\<close>)
    then obtain x where "dict_delProperty T d k s = (Inl x, s)" by blast
    then show ?thesis
    proof (rule edits_fail [OF _ ok])
      fix u w assume "rep (shape (mem s)) d u"
      with entries_find [OF n, of _ k] None show "edit_value (Del_key k) w u = None"
        by (auto simp: edit_value_def split: xobj.split)
    qed
  qed
qed

lemma array_item_edits:
  assumes ok: "ok {} s"
  shows "edits read good T s d (Set_item i b) (array_setProperty T d i b)"
    "edits read good T s d (Add_item i b) (array_addProperty T d i b)"
    "edits read good T s d (Del_item i) (array_delProperty T d i)"
proof -
  have "edits read good T s d (Set_item i b) (array_setProperty T d i b) \<and>
    edits read good T s d (Add_item i b) (array_addProperty T d i b) \<and>
    edits read good T s d (Del_item i) (array_delProperty T d i)"
  proof (cases "\<exists>n xs. cells (mem s) d = Some n \<and> held n = Members xs")
    case False
    then have no: "\<And>n xs. cells (mem s) d = Some n \<Longrightarrow> held n \<noteq> Members xs" by blast
    obtain x1 x2 x3 where
      "array_setProperty T d i b s = (Inl x1, s)" "array_addProperty T d i b s = (Inl x2, s)"
      "array_delProperty T d i s = (Inl x3, s)" using array_ops_fail [OF not_members(1) [OF no]] by blast
    moreover have "edit_value (Set_item i b) w u = None" "edit_value (Add_item i b) w u = None"
      "edit_value (Del_item i) w u = None" if "rep (shape (mem s)) d u" for u w
      using not_members(2) [OF no that] by (auto simp: edit_value_def split: xobj.split)
    ultimately show ?thesis by (intro conjI edits_fail [OF _ ok])
  next
    case True
    then obtain n xs where n: "cells (mem s) d = Some n" "held n = Members xs" by blast
    have v: "edit_value (Add_item i b) w u = None" "edit_value (Set_item i b) w u = None"
      if "length xs < i" "rep (shape (mem s)) d u" for u w
      using that members_length [OF n] by (auto simp: edit_value_def split: xobj.split)
    have v3: "edit_value (Del_item i) w u = None" if "length xs \<le> i" "rep (shape (mem s)) d u" for u w
      using that members_length [OF n] by (auto simp: edit_value_def split: xobj.split)
    have far: "array_addProperty T d i b s = (Inl OutOfRange, s)" if "length xs < i"
      using that n by (simp add: array_addProperty_def andThen_def members_of_Some fail_def)
    have off: "array_setProperty T d i b s = array_addProperty T d i b s" if "length xs \<le> i"
      using that n by (simp add: array_setProperty_def andThen_def members_of_Some)
    have out: "array_delProperty T d i s = (Inl OutOfRange, s)" if "length xs \<le> i"
      using that n by (simp add: array_delProperty_def andThen_def members_of_Some fail_def)
    have a: "edits read good T s d (Add_item i b) (array_addProperty T d i b)"
    proof (cases "length xs < i")
      case True
      show ?thesis by (rule edits_fail, rule far [OF True], rule ok, erule v(1) [OF True])
    qed (use array_add_edits [OF ok n, of i "Add_item i b" b] in simp)
    have "edits read good T s d (Set_item i b) (array_setProperty T d i b)"
    proof (cases "length xs \<le> i")
      case True
      have "edits read good T s d (Set_item i b) (array_addProperty T d i b)"
      proof (cases "length xs < i")
        case far': True
        show ?thesis by (rule edits_fail, rule far [OF far'], rule ok, erule v(2) [OF far'])
      qed (use True array_add_edits [OF ok n, of i "Set_item i b" b] in simp)
      then show ?thesis using off [OF True] by (simp add: edits_def)
    qed (use array_replace_edits [OF ok n, of i b] in simp)
    moreover have "edits read good T s d (Del_item i) (array_delProperty T d i)"
    proof (cases "length xs \<le> i")
      case True
      show ?thesis by (rule edits_fail, rule out [OF True], rule ok, erule v3 [OF True])
    qed (use array_drop_edits [OF ok n, of i] in simp)
    ultimately show ?thesis using a by blast
  qed
  then show "edits read good T s d (Set_item i b) (array_setProperty T d i b)"
    "edits read good T s d (Add_item i b) (array_addProperty T d i b)"
    "edits read good T s d (Del_item i) (array_delProperty T d i)" by blast+
qed

lemma set_edits:
  assumes ok: "ok {} s" and val: "simple val" and len: "\<not> length_leaf (shape (mem s)) d"
  shows "edits read good T s d (Set_simple val) (setValue T d val)"
proof (cases "\<exists>n v. cells (mem s) d = Some n \<and> held n = Simple v \<and> getType v \<noteq> objNull \<and> getType val = getType v")
  case True
  then show ?thesis using set_simple_edits [OF ok _ _ val _ _ len] by blast
next
  case False
  have "setValue T d val s = (Inl UndefinedBehaviour, s)"
    using False by (auto simp: setValue_def andThen_def look_at_def fail_def split: option.split held.split)
  then show ?thesis
  proof (rule edits_fail [OF _ ok])
    fix u w assume r: "rep (shape (mem s)) d u"
    show "edit_value (Set_simple val) w u = None"
    proof (rule ccontr)
      assume "edit_value (Set_simple val) w u \<noteq> None"
      then have u: "simple u" "u \<noteq> XNull" "getType val = getType u"
        by (cases u; simp add: edit_value_def split: if_splits)+
      from r obtain c where c: "shape (mem s) d = Some c" "fits c u" by (auto elim: repE)
      from c(2) u(1) have "c = Simple u" using fits_Simple by simp
      moreover have "getType u \<noteq> objNull" using u(1,2) by (cases u) auto
      ultimately show False using c(1) u(3) False by (auto simp: shape_Some)
    qed
  qed
qed

text \<open>Every edit.\<close>

lemma edits_run:
  assumes "ok {} s" "edit_safe (shape (mem s)) d e"
  shows "edits read good T s d e (run_edit T d e)"
  using assms dict_set_edits dict_add_key_edits dict_del_key_edits array_item_edits set_edits
  by (cases e) (simp_all add: edits_unit)

end

end
