(* ===== verification/Property_Streams.thy ===== *)
theory Property_Streams
  imports Property_Operations
begin

text \<open>
  Changing the bytes of a stream (\<^verbatim>\<open>CStream::setRawBuffer\<close>, \<^verbatim>\<open>setLength\<close>): the dictionary is locked
  while its length is replaced, so that bytes and length reach the table together.
\<close>

section \<open>Simple members\<close>

lemma each_leaf: "cells m x = Some n \<Longrightarrow> kids (held n) = [] \<Longrightarrow> each f (Suc k) x m = Some (modify x f m)"
  by (simp add: each.simps each_list.simps)

lemma clone_leaf:
  "cells m x = Some n \<Longrightarrow> held n = Simple v \<Longrightarrow>
     clone (Suc k) x m = Some (limit m, snd (alloc (new_instance None (Simple v)) m))"
  by (simp add: clone.simps alloc_def)

lemma set_pdf_leaf:
  "cells (mem s) x = Some n \<Longrightarrow> kids (held n) = [] \<Longrightarrow>
     set_pdf p x s = (Inr (), s\<lparr>mem := modify x (\<lambda>n. n\<lparr>in_pdf := p\<rparr>) (mem s)\<rparr>)"
  by (simp add: set_pdf_def try_memory_def setPdf_def each_leaf)

lemma set_ref_leaf:
  "cells (mem s) x = Some n \<Longrightarrow> kids (held n) = [] \<Longrightarrow>
     set_ref r x s = (Inr (), s\<lparr>mem := modify x (\<lambda>n. n\<lparr>ref_of := r\<rparr>) (mem s)\<rparr>)"
  by (simp add: set_ref_def try_memory_def setIndiRef_def each_leaf)

lemma clone_of_leaf:
  "cells (mem s) x = Some n \<Longrightarrow> held n = Simple v \<Longrightarrow>
     clone_of x s = (Inr (limit (mem s)), s\<lparr>mem := snd (alloc (new_instance None (Simple v)) (mem s))\<rparr>)"
  by (simp add: clone_of_def try_memory_def clone_leaf)

lemma alike_modify:
  assumes "alike s s'" "\<And>n. (f n)\<lparr>mode_of := mdUnknown\<rparr> = f (n\<lparr>mode_of := mdUnknown\<rparr>)"
  shows "alike (s\<lparr>mem := modify a f (mem s)\<rparr>) (s'\<lparr>mem := modify a f (mem s')\<rparr>)"
proof -
  let ?u = "\<lambda>n. n\<lparr>mode_of := mdUnknown\<rparr>"
  have "map_option ?u (cells (modify a f (mem s)) x) = map_option ?u (cells (modify a f (mem s')) x)" for x
  proof (cases "x = a")
    case True
    have "map_option ?u (map_option f (cells (mem t) a)) = map_option f (map_option ?u (cells (mem t) a))" for t :: "'a pdf"
      by (simp add: option.map_comp comp_def assms(2))
    with True alikeD(7) [OF assms(1), of a] show ?thesis by simp
  qed (use alikeD(7) [OF assms(1), of x] in simp)
  then have "strip (modify a f (mem s)) = strip (modify a f (mem s'))"
    using alikeD(1) [OF assms(1)] by (simp add: strip_def modify_def fun_eq_iff)
  then show ?thesis using alikeD(2-6) [OF assms(1)] by (cases s; cases s') (simp add: alike_def)
qed

section \<open>The length of a stream\<close>

text \<open>The memory after \<open>setLength\<close>: the old length has left, a copy of the new one is the entry.\<close>

definition length_memory :: "memory \<Rightarrow> nat \<Rightarrow> nat \<Rightarrow> nat \<Rightarrow> memory" where
  "length_memory m q l0 len =
     (case (cells m q, cells m l0) of
        (Some nq, Some nl) \<Rightarrow>
          (case held nq of
             Entries kvs \<Rightarrow>
               let v = Simple (XInt (to_int (int len))); c = Suc (limit m) in
               \<lparr>cells = (cells m)
                  (q \<mapsto> nq\<lparr>held := Entries (replace_entry kvs ''Length'' c)\<rparr>,
                   l0 \<mapsto> nl\<lparr>in_pdf := False, ref_of := no_ref\<rparr>,
                   limit m \<mapsto> new_instance None v, c \<mapsto> new_instance (Some (ref_of nq)) v),
                limit = Suc c\<rparr>
           | _ \<Rightarrow> m)
      | _ \<Rightarrow> m)"

lemma setLength_run:
  assumes q: "cells (mem s) q = Some nq" "held nq = Entries kvs" "in_pdf nq" "wantDispatch nq" "isRefValid (ref_of nq)"
    and l: "entry_at kvs ''Length'' = Some l0" "cells (mem s) l0 = Some nl" "kids (held nl) = []"
    and lim: "q < limit (mem s)" "l0 < limit (mem s)" "q \<noteq> l0"
  obtains s' where "setLength T q len s = (Inr (), s')"
    "alike (s\<lparr>mem := length_memory (mem s) q l0 len,
        notices := notices s @ [Notice q (Some (Suc (limit (mem s)))) (Some l0) (At_key ''Length'')]\<rparr>) s'"
proof -
  let ?L = "limit (mem s)" and ?c = "Suc (limit (mem s))" and ?v = "Simple (XInt (to_int (int len)))"
  let ?n = "new_instance None ?v" and ?q = "nq\<lparr>wantDispatch := False\<rparr>"
  let ?E = "Entries (replace_entry kvs ''Length'' ?c)"
  let ?m1 = "(mem s)\<lparr>cells := (cells (mem s))(q \<mapsto> ?q, ?L \<mapsto> ?n), limit := ?c\<rparr>"
  let ?N = "Notice q (Some ?c) (Some l0) (At_key ''Length'')"
  let ?m2 = "(mem s)\<lparr>cells := (cells (mem s))(q \<mapsto> ?q\<lparr>held := ?E\<rparr>, ?L \<mapsto> ?n, ?c \<mapsto> new_instance (Some (ref_of nq)) ?v),
      limit := Suc ?c\<rparr>"
  let ?m3 = "?m2\<lparr>cells := (cells ?m2)(l0 \<mapsto> nl\<lparr>in_pdf := False, ref_of := no_ref\<rparr>)\<rparr>"
  let ?s2 = "s\<lparr>mem := ?m2, notices := notices s @ [?N]\<rparr>"
  let ?s3 = "s\<lparr>mem := ?m3, notices := notices s @ [?N]\<rparr>"
  have dead: "cells ?m1 q = Some ?q" "cells ?m1 ?L = Some ?n" using lim by simp_all
  have may: "canChange T q (s\<lparr>mem := ?m1\<rparr>) = (Inr (), s\<lparr>mem := ?m1\<rparr>)"
    using dead(1) by (simp add: canChange_def andThen_def look_at_def pass_def)
  have ent: "entries_of q (s\<lparr>mem := ?m1\<rparr>) = (Inr (?q, kvs), s\<lparr>mem := ?m1\<rparr>)"
    by (rule entries_of_Some) (use dead(1) q(2) in simp_all)
  have cl: "clone_of ?L (s\<lparr>mem := ?m1\<rparr>) = (Inr ?c, s\<lparr>mem := snd (alloc ?n ?m1)\<rparr>)"
    by (subst clone_of_leaf [of _ _ ?n "XInt (to_int (int len))"]) (use dead(2) in simp_all)
  have ann: "announce T q ?N (s\<lparr>mem := ?m2\<rparr>) = (Inr (), ?s2)"
    using q lim
    by (simp add: announce_def property_objectChanged_def dispatch_def numeral_2_eq_2 dispatchChange.simps andThen_def look_at_def
        assert_that_def pass_def notify_def)
  have rel: "release q l0 ?s2 = (Inr (), ?s3)"
  proof -
    have n: "cells (mem ?s2) l0 = Some nl" using l(2) lim by simp
    have "set_pdf False l0 ?s2 = (Inr (), ?s2\<lparr>mem := modify l0 (\<lambda>n. n\<lparr>in_pdf := False\<rparr>) (mem ?s2)\<rparr>)"
      by (rule set_pdf_leaf [OF n l(3)])
    moreover have "set_ref no_ref l0 (?s2\<lparr>mem := modify l0 (\<lambda>n. n\<lparr>in_pdf := False\<rparr>) (mem ?s2)\<rparr>) = (Inr (), ?s3)"
      by (subst set_ref_leaf [where n = "nl\<lparr>in_pdf := False\<rparr>"]) (use n l(3) in \<open>simp_all add: modify_def\<close>)
    ultimately show ?thesis using q(1,3) lim by (simp add: release_def andThen_def look_at_def)
  qed
  obtain s4 where mode: "dict_setMode q ?c ''Length'' ?s3 = (Inr (), s4)" "alike ?s3 s4"
    using dict_setMode_alike [of ?s3 q ?c "''Length''"] q(1) lim by auto
  have put: "hold q ?E (modify ?c (\<lambda>n. n\<lparr>in_pdf := True\<rparr>) (modify ?c (\<lambda>n. n\<lparr>ref_of := ref_of nq\<rparr>) (snd (alloc ?n ?m1)))) = ?m2"
    using lim by (simp add: hold_def modify_def alloc_def new_instance_def fun_upd_twist)
  have set: "dict_setProperty T q ''Length'' ?L (s\<lparr>mem := ?m1\<rparr>) = (Inr ?c, s4)"
  proof -
    let ?a = "s\<lparr>mem := snd (alloc ?n ?m1)\<rparr>"
    let ?b = "?a\<lparr>mem := modify ?c (\<lambda>n. n\<lparr>ref_of := ref_of nq\<rparr>) (mem ?a)\<rparr>"
    let ?d = "?b\<lparr>mem := modify ?c (\<lambda>n. n\<lparr>in_pdf := True\<rparr>) (mem ?b)\<rparr>"
    have 1: "set_ref (ref_of ?q) ?c ?a = (Inr (), ?b)"
      by (subst set_ref_leaf [where n = ?n]) simp_all
    have 2: "set_pdf (in_pdf ?q) ?c ?b = (Inr (), ?d)"
      by (subst set_pdf_leaf [where n = "?n\<lparr>ref_of := ref_of nq\<rparr>"]) (simp_all add: q(3))
    show ?thesis
      using may ent l(1) cl 1 2 put ann rel mode(1)
      by (simp add: dict_setProperty_def andThen_def on_memory_def pass_def)
  qed
  let ?un = "\<lambda>x :: node. x\<lparr>wantDispatch := True\<rparr>"
  have "setLength T q len s = (Inr (), s4\<lparr>mem := modify q ?un (mem s4)\<rparr>)"
  proof -
    have m1: "(modify q f m)\<lparr>cells := X, limit := Y\<rparr> = m\<lparr>cells := X, limit := Y\<rparr>" for f m X Y
      by (simp add: modify_def)
    show ?thesis
      using q(1,4) set m1 by (simp add: setLength_def andThen_def look_at_def assert_that_def pass_def on_memory_def
          try_memory_def alloc_def m1)
  qed
  moreover have "?s3\<lparr>mem := modify q ?un (mem ?s3)\<rparr> = s\<lparr>mem := length_memory (mem s) q l0 len, notices := notices s @ [?N]\<rparr>"
    using q l(2) lim by (simp add: length_memory_def modify_def Let_def fun_eq_iff)
  moreover have "alike (?s3\<lparr>mem := modify q ?un (mem ?s3)\<rparr>) (s4\<lparr>mem := modify q ?un (mem s4)\<rparr>)"
    by (rule alike_modify [OF mode(2)]) simp
  ultimately show thesis using that by simp
qed

section \<open>The instances of a stream\<close>

text \<open>A stream \<open>a\<close> of the document with its dictionary \<open>q\<close> and the length \<open>l\<close>.\<close>

definition stream_at :: "'t pdf \<Rightarrow> ref \<Rightarrow> nat \<Rightarrow> node \<Rightarrow> nat \<Rightarrow> node \<Rightarrow> (string \<times> nat) list \<Rightarrow> nat \<Rightarrow> node \<Rightarrow> bool" where
  "stream_at s r a na q nq kvs l nl \<longleftrightarrow>
     indMap s r = Some a \<and> isRefValid r \<and> cells (mem s) a = Some na \<and> owned_by r na \<and> (\<exists>b. held na = Streamed q b) \<and>
     cells (mem s) q = Some nq \<and> owned_by r nq \<and> held nq = Entries kvs \<and> entry_at kvs ''Length'' = Some l \<and>
     cells (mem s) l = Some nl \<and> (\<exists>i. held nl = Simple (XInt i)) \<and> a < q \<and> q < l \<and> l < limit (mem s)"

lemma stream_at_exists:
  assumes ok: "doc_ok read good {} s" and r: "indMap s r = Some a" and a: "shape (mem s) a = Some (Streamed q old)"
  obtains na nq kvs l nl where "stream_at s r a na q nq kvs l nl"
proof -
  have f: "forest (shape (mem s)) (limit (mem s))" using doc_okD(1) [OF ok] by (simp add: treed_def)
  note root = root_okD [OF doc_okD(4) [OF ok r]]
  from soundD [OF doc_okD(2) [OF ok] a] obtain kvs l where q: "shape (mem s) q = Some (Entries kvs)"
    "entry_at kvs ''Length'' = Some l" "shape (mem s) l = Some (Simple (XInt (int (length old))))" by auto
  from a q(1,3) obtain na nq nl where n: "cells (mem s) a = Some na" "held na = Streamed q old"
    "cells (mem s) q = Some nq" "held nq = Entries kvs" "cells (mem s) l = Some nl"
    "held nl = Simple (XInt (int (length old)))" by (auto simp: shape_Some)
  have "reach (shape (mem s)) a q" using reach_step [of "shape (mem s)" a "Streamed q old" q q] a by simp
  then have "owned_by r na" "owned_by r nq" using root(4) [of a na] root(4) [of q nq] n by simp_all
  moreover have "a < q" using forestD(3) [OF f a] by simp
  moreover have "q < l" using forestD(3) [OF f q(1)] entry_at_mem [OF q(2)] by simp
  moreover have "l < limit (mem s)" using forestD(1) [OF f q(3)] .
  ultimately show thesis using that [of na nq kvs l nl] n q(2) r root(1) unfolding stream_at_def by blast
qed

lemma roots_ok_mono: "roots_ok read good X s \<Longrightarrow> X \<subseteq> Y \<Longrightarrow> roots_ok read good Y s"
  unfolding roots_ok_def root_ok_def by blast

lemma reach_leaf: "G a = Some (Simple v) \<Longrightarrow> reach G a x \<longleftrightarrow> x = a"
  by (auto simp: edge_def elim: converse_rtranclE)

lemma put_roots_at:
  assumes "roots_ok read good Y s" "cells (mem s) d = Some n" "new_kids s d n c"
    "held n \<noteq> Simple XNull" "sort_of c = sort_of (held n)" "ref_of n = r" "r \<in> X" "Y \<subseteq> X"
  shows "roots_ok read good X (s\<lparr>mem := hold d c (mem s)\<rparr>)"
  by (rule roots_ok_mono [OF put_roots [OF assms(1-5)]]) (use assms(6-8) in auto)

lemma length_sound:
  assumes t: "treed m" and s: "sound (shape m)"
    and a: "shape m a = Some (Streamed q b)" "\<And>x. (x, a) \<notin> edge (shape m)"
    and q: "shape m q = Some (Entries kvs)" "entry_at kvs' ''Length'' = Some c"
    and c: "shape m c = Some (Simple (XInt (int (length buf))))" "c \<noteq> a" "c \<noteq> q"
  shows "sound ((shape m)(a \<mapsto> Streamed q buf, q \<mapsto> Entries kvs'))"
  unfolding sound_def
proof (intro allI impI)
  fix x e assume x: "((shape m)(a \<mapsto> Streamed q buf, q \<mapsto> Entries kvs')) x = Some e"
  let ?G = "(shape m)(a \<mapsto> Streamed q buf, q \<mapsto> Entries kvs')"
  have f: "forest (shape m) (limit m)" using t by (simp add: treed_def)
  have aq: "a \<noteq> q" using forestD(3) [OF f a(1)] by auto
  consider "x = q" | "x = a" "x \<noteq> q" | "x \<noteq> a" "x \<noteq> q" by blast
  then show "sound_at ?G e"
  proof cases
    case 1
    then show ?thesis using x by auto
  next
    case 2
    then show ?thesis using x q(2) c aq by auto
  next
    case 3
    then have e: "shape m x = Some e" using x by simp
    show ?thesis
    proof (cases e)
      case (Streamed p d)
      with soundD [OF s e] obtain ls k where k: "shape m p = Some (Entries ls)" "entry_at ls ''Length'' = Some k"
        "shape m k = Some (Simple (XInt (int (length d))))" by auto
      have "(x, p) \<in> edge (shape m)" using e Streamed by (auto simp: edge_def)
      moreover have "(a, q) \<in> edge (shape m)" using a(1) by (auto simp: edge_def)
      ultimately have "p \<noteq> q" using forestD(5) [OF f] 3 by blast
      moreover have "p \<noteq> a" "k \<noteq> a" "k \<noteq> q" using k a(1) q(1) by auto
      ultimately show ?thesis using Streamed k by simp
    qed (use soundD [OF s e] in simp_all)
  qed
qed

lemma length_memory_ok:
  assumes ok: "doc_ok read good {} s" and st: "stream_at s r a na q nq kvs l nl"
    and len: "to_int (int len) = int (length buf)"
  shows "doc_ok read good {r} (s\<lparr>mem := length_memory (hold a (Streamed q buf) (mem s)) q l len\<rparr>)"
proof -
  let ?m = "mem s" and ?v = "XInt (to_int (int len))" and ?c = "Suc (limit (mem s))"
  let ?g1 = "snd (alloc (new_instance None (Simple ?v)) ?m)"
  let ?g = "snd (alloc (new_instance (Some r) (Simple ?v)) ?g1)"
  note S = st [unfolded stream_at_def]
  from S obtain b where b: "held na = Streamed q b" by blast
  have own: "in_pdf na" "ref_of na = r" "in_pdf nq" "ref_of nq = r" using S by (auto simp: owned_by_def)
  have b1: "built (\<lambda>_. True) ?m ?g1 [limit ?m] [?v]"
    by (rule built_simple [OF doc_okD(1) [OF ok]]) simp_all
  have ok1: "doc_ok read good {} (s\<lparr>mem := ?g1\<rparr>)" by (rule built_ok [OF ok b1])
  have b2: "built (\<lambda>_. True) ?g1 ?g [limit ?g1] [?v]"
    by (rule built_simple) (use doc_okD(1) [OF ok1] in simp_all)
  have ok2: "doc_ok read good {} (s\<lparr>mem := ?g\<rparr>)" using built_ok [OF ok1, of _ ?g] b2 by simp
  let ?s2 = "s\<lparr>mem := ?g\<rparr>"
  have fr: "x < limit ?m \<Longrightarrow> cells ?g x = cells ?m x" for x by simp
  have na: "cells (mem ?s2) a = Some na" and nq: "cells ?g q = Some nq" and nl: "cells ?g l = Some nl" using S fr by simp_all
  let ?s3 = "s\<lparr>mem := hold a (Streamed q buf) ?g\<rparr>" and ?E = "Entries (replace_entry kvs ''Length'' ?c)"
  have r3: "roots_ok read good {r} ?s3"
    using put_roots_at [of read good "{}" ?s2 a na "Streamed q buf" r "{r}"] ok2 na b own(2)
    by (simp add: doc_ok_roots new_kids_def)
  have sh3: "shape (mem ?s3) = (shape ?g)(a \<mapsto> Streamed q buf)" using shape_put [of ?g a na] na by simp
  have sha: "shape ?g a = Some (Streamed q b)" using na b by (simp add: shape_def)
  have e3: "edge (shape (mem ?s3)) = edge (shape ?g)" unfolding sh3 using sha by (auto simp: edge_def split: if_splits)
  have nq3: "cells (mem ?s3) q = Some nq" using S nq by (simp add: hold_def)
  have sq: "shape ?m q = Some (Entries kvs)" using S by (simp add: shape_def)
  have dis: "distinct (map snd kvs)"
    using forestD(2) [OF doc_okD(1) [OF ok, unfolded treed_def] sq] by simp
  have el: "entry_at kvs ''Length'' = Some l" using S by blast
  have kin: "limit ?m \<notin> set (map snd kvs)" "?c \<notin> set (map snd kvs)"
    using forestD(3,4) [OF doc_okD(1) [OF ok, unfolded treed_def] sq] forestD(1) [OF doc_okD(1) [OF ok, unfolded treed_def]]
    by fastforce+
  note rk = replace_kids [OF el dis kin(2)]
  have shc: "shape ?g ?c = Some (Simple ?v)" by (simp add: shape_def)
  have noc: "(x, ?c) \<notin> edge (shape ?g)" for x using builtD(6) [OF b2, of ?c x] by simp
  have fresh: "fresh_kid ?s3 q nq ?c"
    unfolding fresh_kid_def
  proof (intro conjI allI impI)
    show "q < ?c" using S by simp
    show "shape (mem ?s3) ?c \<noteq> None" unfolding sh3 using shc by simp
    show "(x, ?c) \<notin> edge (shape (mem ?s3))" for x unfolding e3 by (rule noc)
    show "indMap ?s3 r' \<noteq> Some ?c" for r'
    proof
      assume "indMap ?s3 r' = Some ?c"
      then have "shape ?m ?c \<noteq> None" using root_okD(2) [OF doc_okD(4) [OF ok]] by fastforce
      then show False using forestD(1) [OF doc_okD(1) [OF ok, unfolded treed_def]] by fastforce
    qed
    fix x nx assume x: "reach (shape (mem ?s3)) ?c x" "cells (mem ?s3) x = Some nx"
    have "x = ?c" using x(1) reach_leaf [of "shape ?g" ?c ?v x] shc unfolding e3 by simp
    then show "owned_by (ref_of nq) nx" using x(2) S own by (auto simp: hold_def owned_by_def new_instance_def)
  qed
  have k4: "new_kids ?s3 q nq ?E"
    unfolding new_kids_def using rk fresh S by auto
  let ?s4 = "?s3\<lparr>mem := hold q ?E (mem ?s3)\<rparr>"
  have r4: "roots_ok read good {r} ?s4"
    by (rule put_roots_at [OF r3 nq3 k4]) (use S own(4) in auto)
  have sh4: "shape (mem ?s4) = (shape ?g)(a \<mapsto> Streamed q buf, q \<mapsto> ?E)"
    using shape_put [OF nq3, of ?E] sh3 by simp
  have "sound (shape (mem ?s4))"
    unfolding sh4
  proof (rule length_sound [OF _ _ sha])
    show "treed ?g" "sound (shape ?g)" using doc_okD(1,2) [OF ok2] by simp_all
    show "(x, a) \<notin> edge (shape ?g)" for x using root_okD(3) [OF doc_okD(4) [OF ok2, of r a]] S by simp
    show "shape ?g q = Some (Entries kvs)" using nq S by (simp add: shape_def)
    show "entry_at (replace_entry kvs ''Length'' ?c) ''Length'' = Some ?c" using el by (simp add: entry_at_replace)
    show "shape ?g ?c = Some (Simple (XInt (int (length buf))))" using shc len by simp
  qed (use S in simp_all)
  with r4 have ok4: "doc_ok read good {r} ?s4" by (simp add: doc_ok_roots)
  have nq4: "cells (mem ?s4) q = Some (nq\<lparr>held := ?E\<rparr>)" using nq3 by (simp add: hold_def)
  have ln: "l \<in> set (map snd kvs)" by (rule entry_at_mem [OF el])
  have sl: "shape ?g l = Some (held nl)" using nl by (simp add: shape_def)
  have "unbound ?s4 l"
    unfolding unbound_def
  proof (intro conjI allI)
    show "shape (mem ?s4) l \<noteq> None" unfolding sh4 using sl by simp
    show "(x, l) \<notin> edge (shape (mem ?s4))" for x
    proof
      assume e: "(x, l) \<in> edge (shape (mem ?s4))"
      have "x \<noteq> q" using e rk(2) S unfolding sh4 by (auto simp: edge_def)
      then have "(x, l) \<in> edge (shape ?g)"
        using e sha S unfolding sh4 by (auto simp: edge_def split: if_splits)
      moreover have "(q, l) \<in> edge (shape ?g)" using nq S ln by (auto simp: edge_def shape_def)
      ultimately have "x = q" by (rule forestD(5) [OF doc_okD(1) [OF ok2, simplified, unfolded treed_def]])
      with \<open>x \<noteq> q\<close> show False by simp
    qed
    show "indMap ?s4 r' \<noteq> Some l" for r'
    proof
      assume "indMap ?s4 r' = Some l"
      then have "(q, l) \<notin> edge (shape ?m)" using root_okD(3) [OF doc_okD(4) [OF ok]] by simp
      then show False using ln sq by (auto simp: edge_def)
    qed
  qed
  from release_spec [OF ok4 nq4 this] obtain m' where
    m': "doc_ok read good {r} (?s4\<lparr>mem := m'\<rparr>)" "limit m' = limit (mem ?s4)"
    "\<And>x. cells m' x = (if in_pdf nq \<and> reach (shape (mem ?s4)) l x
       then map_option (\<lambda>n. n\<lparr>in_pdf := False, ref_of := no_ref\<rparr>) (cells (mem ?s4) x) else cells (mem ?s4) x)"
    by auto
  have leaf: "reach (shape (mem ?s4)) l x \<longleftrightarrow> x = l" for x
    using S sl reach_leaf [of "shape (mem ?s4)" l _ x] unfolding sh4 by auto
  have "cells m' x = cells (length_memory (hold a (Streamed q buf) ?m) q l len) x" for x
    using S own m'(3) [of x] leaf [of x] by (auto simp: length_memory_def hold_def Let_def)
  moreover have "limit m' = limit (length_memory (hold a (Streamed q buf) ?m) q l len)"
    using S m'(2) by (auto simp: length_memory_def hold_def Let_def)
  ultimately have "m' = length_memory (hold a (Streamed q buf) ?m) q l len"
    by (simp add: fun_eq_iff)
  with m'(1) show ?thesis by simp
qed

lemma length_memory_shape:
  assumes st: "stream_at s r a na q nq kvs l nl"
  shows "shape (length_memory (hold a (Streamed q buf) (mem s)) q l len) =
    (shape (mem s))(a \<mapsto> Streamed q buf, q \<mapsto> Entries (replace_entry kvs ''Length'' (Suc (limit (mem s)))),
      limit (mem s) \<mapsto> Simple (XInt (to_int (int len))), Suc (limit (mem s)) \<mapsto> Simple (XInt (to_int (int len))))"
  using st unfolding stream_at_def
  by (auto simp: length_memory_def hold_def Let_def shape_def new_instance_def fun_eq_iff)

lemma length_memory_rep:
  assumes t: "treed (mem s)" and st: "stream_at s r a na q nq kvs l nl"
    and v: "rep (shape (mem s)) a (XStream es old)"
  shows "rep (shape (length_memory (hold a (Streamed q buf) (mem s)) q l len)) a
    (XStream (dict_replace es ''Length'' (XInt (to_int (int len)))) buf)"
proof -
  let ?F = "shape (length_memory (hold a (Streamed q buf) (mem s)) q l len)" and ?c = "Suc (limit (mem s))"
  let ?w = "XInt (to_int (int len))"
  note F = length_memory_shape [OF st, of buf len]
  note S = st [unfolded stream_at_def]
  have f: "forest (shape (mem s)) (limit (mem s))" using t by (simp add: treed_def)
  have sa: "shape (mem s) a = Some (Streamed q old)"
  proof -
    from S obtain b where "shape (mem s) a = Some (Streamed q b)" by (auto simp: shape_def)
    with v show ?thesis by (auto simp: rep_iff [of _ a])
  qed
  have sq: "shape (mem s) q = Some (Entries kvs)" using S by (simp add: shape_def)
  have "rep (shape (mem s)) q (XDict es)" using v sa by (simp add: rep_iff [of _ a])
  then have es: "map fst kvs = map fst es" "list_all2 (rep (shape (mem s))) (map snd kvs) (map snd es)"
    using sq by (simp_all add: rep_iff [of _ q])
  have keep: "rep ?F k w" if k: "k \<in> set (map snd kvs)" "rep (shape (mem s)) k w" for k w
  proof (rule rep_frame [OF k(2)])
    fix x assume x: "reach (shape (mem s)) k x"
    have "q < k" using forestD(3) [OF f sq] k(1) by simp
    then have "q < x" using reach_le [OF x f] by simp
    moreover have "x < limit (mem s)"
      using reach_alive [OF x f] rep_alive [OF k(2) t] forestD(4) [OF f sq] k(1) forestD(1) [OF f] by fastforce
    ultimately show "?F x = shape (mem s) x" unfolding F using S by auto
  qed
  have A: "list_all2 (rep ?F) (map snd kvs) (map snd es)"
    using es(2) keep by (rule list.rel_mono_strong)
  have B: "rep ?F ?c ?w" unfolding F by (simp add: rep_iff [of _ ?c])
  have "list_all2 (rep ?F) (map snd (replace_entry kvs ''Length'' ?c)) (map snd (dict_replace es ''Length'' ?w))"
    by (rule replace_rel [OF A es(1) B])
  moreover have "?F q = Some (Entries (replace_entry kvs ''Length'' ?c))" unfolding F using S by auto
  ultimately have "rep ?F q (XDict (dict_replace es ''Length'' ?w))" using es(1) by (simp add: rep_iff [of _ q])
  moreover have "?F a = Some (Streamed q buf)" unfolding F using S by auto
  ultimately show ?thesis by (simp add: rep_iff [of _ a])
qed

context prop_store
begin

text \<open>The raw bytes of a stream of the document are replaced, and its length with them.\<close>

lemma setRawBuffer_done:
  assumes ok: "ok {} s" and st: "stream_at s r a na q nq kvs l nl" and v: "read (xtab s) r = XStream es old"
    and may: "canChange T a s = (Inr (), s)" and len: "length buf < 2147483648"
  obtains s' where "setRawBuffer T a buf s = (Inr (), s')" "ok {} s'"
    "read (xtab s') = (read (xtab s))(r := XStream (dict_replace es ''Length'' (XInt (int (length buf)))) buf)"
    "indMap s' = indMap s" "changed s'"
    "notices s' = notices s @ [Notice q (Some (Suc (limit (mem s)))) (Some l) (At_key ''Length''), Notice a (Some a) None Whole]"
proof -
  note S = st [unfolded stream_at_def]
  have own: "in_pdf na" "ref_of na = r" "wantDispatch na" "in_pdf nq" "ref_of nq = r" "wantDispatch nq"
    using S by (auto simp: owned_by_def)
  have ti: "to_int (int (length buf)) = int (length buf)" using len by (simp add: to_int_id)
  from S obtain b where b: "held na = Streamed q b" by blast
  have ro: "\<not> is_read_only T (xtab s)" using canChange_Inr [OF may, of na] S own by blast
  let ?s1 = "s\<lparr>mem := hold a (Streamed q buf) (mem s)\<rparr>"
  let ?N = "Notice q (Some (Suc (limit (mem s)))) (Some l) (At_key ''Length'')"
  let ?P = "s\<lparr>mem := length_memory (hold a (Streamed q buf) (mem s)) q l (length buf)\<rparr>"
  obtain s2 where s2: "setLength T q (length buf) ?s1 = (Inr (), s2)" "alike (?P\<lparr>notices := notices s @ [?N]\<rparr>) s2"
    by (rule setLength_run [of ?s1 q nq kvs l nl T "length buf"]) (use S own in \<open>auto simp: hold_def\<close>)
  have okP: "ok {r} ?P" by (rule length_memory_ok [OF ok st ti])
  have "ok {r} (?P\<lparr>notices := notices s @ [?N]\<rparr>)"
    by (rule doc_ok_cong [OF okP]) (use doc_okD(3) [OF okP] in simp_all)
  then have ok2: "ok {r} s2" by (rule alike_ok [OF _ s2(2)])
  have sh2: "shape (mem s2) = shape (mem ?P)" using alike_shape [OF s2(2)] by simp
  have ca: "cells (mem ?P) a = Some (na\<lparr>held := Streamed q buf\<rparr>)"
    using S by (auto simp: length_memory_def hold_def Let_def)
  from alike_node [OF s2(2), of a "na\<lparr>held := Streamed q buf\<rparr>"] ca obtain n2 where
    n2: "cells (mem s2) a = Some n2" "held n2 = Streamed q buf" "ref_of n2 = r" "in_pdf n2" "wantDispatch n2"
    using own by auto
  have el: "entry_at kvs ''Length'' = Some l" using S by blast
  note F = length_memory_shape [OF st, of buf "length buf"]
  obtain s3 where s3: "getLength T q s2 = (Inr (length buf), s3)" "alike s2 s3"
    using getLength_spec [of s2 q "replace_entry kvs ''Length'' (Suc (limit (mem s)))" "Suc (limit (mem s))" "length buf" T]
      S el ti unfolding sh2 by (auto simp: F entry_at_replace)
  have ok3: "ok {r} s3" by (rule alike_ok [OF ok2 s3(2)])
  from alike_node [OF s3(2) n2(1)] n2 obtain n3 where
    n3: "cells (mem s3) a = Some n3" "ref_of n3 = r" "in_pdf n3" "wantDispatch n3" by metis
  let ?v = "XStream (dict_replace es ''Length'' (XInt (int (length buf)))) buf"
  have i3: "indMap s3 = indMap s" "xtab s3 = xtab s" "notices s3 = notices s @ [?N]"
    using alikeD(2,3,5) [OF s2(2)] alikeD(2,3,5) [OF s3(2)] by simp_all
  have "rep (shape (mem s)) a (XStream es old)"
    using root_okD(5) [OF doc_okD(4) [OF ok, of r a]] S v by simp
  from length_memory_rep [OF doc_okD(1) [OF ok] st this, of buf "length buf"]
  have v3: "rep (shape (mem s3)) a ?v" using alike_shape [OF s3(2)] sh2 ti by simp
  have r3: "indMap s3 (ref_of n3) = Some a" using i3(1) n3(2) S by simp
  have ro3: "\<not> is_read_only T (xtab s3)" using ro i3(2) by simp
  obtain s4 where s4: "dispatch T a s3 = (Inr (), s4)" "alike (s3\<lparr>xtab := xtab s4, changed := True\<rparr>) s4"
    "read (xtab s4) = (read (xtab s3))(ref_of n3 := ?v)" "good (xtab s4)"
    by (rule dispatch_mapped [OF ok3 n3(1,3,4) r3 v3 ro3])
  have ok4: "ok {} s4" by (rule arrived_ok [OF ok3 _ r3 v3 s4(2,3,4)]) (simp add: n3(2))
  let ?s5 = "s4\<lparr>notices := notices s4 @ [Notice a (Some a) None Whole]\<rparr>"
  have "stream_objectChanged T a s2 = (Inr (), ?s5)"
    using n2 S s3(1) s4(1)
    by (simp add: stream_objectChanged_def stream_of_def andThen_def look_at_def assert_that_def pass_def notify_def)
  then have run: "setRawBuffer T a buf s = (Inr (), ?s5)"
    using S b may s2(1) by (simp add: setRawBuffer_def stream_of_def andThen_def look_at_def pass_def on_memory_def)
  have "ok {} ?s5" by (rule doc_ok_cong [OF ok4]) (use doc_okD(3) [OF ok4] in simp_all)
  moreover have "read (xtab ?s5) = (read (xtab s))(r := ?v)" using s4(3) i3(2) n3(2) by simp
  moreover have "indMap ?s5 = indMap s" "changed ?s5"
    "notices ?s5 = notices s @ [?N, Notice a (Some a) None Whole]"
    using alikeD(2,4,5) [OF s4(2)] i3 by simp_all
  ultimately show thesis using run that by blast
qed

end

text \<open>Without a filter, setting decoded bytes is setting raw bytes.\<close>

lemma setBuffer_plain:
  assumes st: "stream_at s r a na q nq kvs l nl" and no: "entry_at kvs ''Filter'' = None"
  shows "setBuffer T a buf s = setRawBuffer T a buf s"
proof -
  note S = st [unfolded stream_at_def]
  from S obtain b where b: "held na = Streamed q b" by blast
  let ?s = "s\<lparr>mem := hold a (Streamed q buf) (mem s)\<rparr>"
  have "cells (mem ?s) q = Some nq" using S by (auto simp: hold_def)
  then have "getFilters q ?s = (Inr [], ?s)"
    using S no by (simp add: getFilters_def dict_getProperty_def andThen_def entries_of_Some fail_def)
  moreover have "\<exists>res. canChange T a s = (res, s)"
    using S by (auto simp: canChange_def andThen_def look_at_def pdf_canChange_def pass_def)
  ultimately show ?thesis
    using S b by (auto simp: setBuffer_def setRawBuffer_def stream_of_def andThen_def look_at_def pass_def on_memory_def
        split: sum.split prod.split)
qed

context prop_store
begin

lemma setRawBuffer_ok:
  assumes ok: "ok {} s" and r: "indMap s r = Some a" and len: "length buf < 2147483648"
  shows "ok {} (snd (setRawBuffer T a buf s))"
proof -
  from root_okD(2,5) [OF doc_okD(4) [OF ok r]] obtain n where n: "cells (mem s) a = Some n"
    and v: "rep (shape (mem s)) a (read (xtab s) r)" by (auto simp: shape_Some)
  show ?thesis
  proof (cases "held n")
    case (Streamed q old)
    have sa: "shape (mem s) a = Some (Streamed q old)" using n Streamed by (simp add: shape_def)
    obtain na nq kvs l nl where st: "stream_at s r a na q nq kvs l nl" by (rule stream_at_exists [OF ok r sa])
    have "fits (Streamed q old) (read (xtab s) r)" using v sa by (simp add: rep_iff [of _ a])
    then obtain es where es: "read (xtab s) r = XStream es old" by (cases "read (xtab s) r") auto
    obtain res where c: "canChange T a s = (res, s)" using canChange_state by blast
    show ?thesis
    proof (cases res)
      case (Inl e)
      then have "setRawBuffer T a buf s = (Inl e, s)"
        using c n Streamed by (simp add: setRawBuffer_def stream_of_def andThen_def look_at_def pass_def)
      then show ?thesis using ok by simp
    next
      case (Inr u)
      then have "canChange T a s = (Inr (), s)" using c by simp
      from setRawBuffer_done [OF ok st es this len] show ?thesis by (metis snd_conv)
    qed
  qed (use ok n in \<open>simp_all add: setRawBuffer_def stream_of_def andThen_def look_at_def fail_def\<close>)
qed

end

end
