(* ===== verification/Property_Sessions.thy ===== *)
theory Property_Sessions
  imports Property_Streams
begin

text \<open>
  Clients of the property tree: sessions of an open document, the interpretation of \<open>prop_store\<close> on
  the table of \<^verbatim>\<open>XRefWriter\<close>, and the properties of sessions and changes.
\<close>

section \<open>Clients\<close>

text \<open>
  What a client does with the instances of a document: it asks for indirect objects and members, makes
  instances of its own, copies and changes instances.
\<close>

datatype client_step =
    Look_up ref | Read_key nat string | Read_item nat nat | Make xobj | Copy nat | Change nat edit

definition make_instance :: "'t prop_table \<Rightarrow> xobj \<Rightarrow> (nat, 't) action" where
  "make_instance T v s =
     (case createObjFromXpdfObj (\<lambda>q. fst (fetch_obj T (xtab s) q)) None v (mem s) of
        (res, m) \<Rightarrow> (res, s\<lparr>mem := m\<rparr>))"

fun client_run :: "'t prop_table \<Rightarrow> client_step \<Rightarrow> (unit, 't) action" where
  "client_run T (Look_up r) = andThen (getIndirectProperty T r) (\<lambda>_. pass ())"
| "client_run T (Read_key d k) = andThen (dict_getProperty d k) (\<lambda>_. pass ())"
| "client_run T (Read_item d i) = andThen (array_getProperty d i) (\<lambda>_. pass ())"
| "client_run T (Make v) = andThen (make_instance T v) (\<lambda>_. pass ())"
| "client_run T (Copy a) = andThen (clone_of a) (\<lambda>_. pass ())"
| "client_run T (Change d e) = run_edit T d e"

fun client_safe :: "shape \<Rightarrow> client_step \<Rightarrow> bool" where
  "client_safe G (Make v) = plain v"
| "client_safe G (Change d e) = edit_safe G d e"
| "client_safe G c = True"

inductive session :: "'t prop_table \<Rightarrow> 't pdf \<Rightarrow> 't pdf \<Rightarrow> bool" for T s0 where
  start: "session T s0 s0"
| run: "session T s0 s \<Longrightarrow> client_safe (shape (mem s)) c \<Longrightarrow> client_run T c s = (res, s') \<Longrightarrow> session T s0 s'"
| bytes: "session T s0 s \<Longrightarrow> indMap s r = Some a \<Longrightarrow> length buf < 2147483648 \<Longrightarrow>
    setRawBuffer T a buf s = (res, s') \<Longrightarrow> session T s0 s'"

lemma andThen_unit: "snd (andThen f (\<lambda>_. pass ()) s) = snd (f s)"
  by (simp add: andThen_def pass_def split: prod.split sum.split)

text \<open>Reading a member changes modes only.\<close>

lemma reading_alike:
  "alike s (snd (dict_getProperty d k s))" "alike s (snd (array_getProperty d i s))"
proof -
  show "alike s (snd (dict_getProperty d k s))"
  proof (cases "\<exists>n kvs a. cells (mem s) d = Some n \<and> held n = Entries kvs \<and> entry_at kvs k = Some a")
    case True
    then obtain n kvs a where n: "cells (mem s) d = Some n" "held n = Entries kvs" "entry_at kvs k = Some a" by blast
    obtain s' where "dict_setMode d a k s = (Inr (), s')" "alike s s'" using dict_setMode_alike [of s d a k] n(1) by auto
    with n show ?thesis by (simp add: dict_getProperty_def andThen_def entries_of_Some pass_def)
  next
    case False
    then have "snd (dict_getProperty d k s) = s"
      by (auto simp: dict_getProperty_def andThen_def entries_of_def look_at_def fail_def pass_def
          split: option.split held.split)
    then show ?thesis by simp
  qed
  show "alike s (snd (array_getProperty d i s))"
  proof (cases "\<exists>n xs. cells (mem s) d = Some n \<and> held n = Members xs \<and> i < length xs")
    case True
    then obtain n xs where n: "cells (mem s) d = Some n" "held n = Members xs" "i < length xs" by blast
    obtain s' where "array_setMode d (xs ! i) s = (Inr (), s')" "alike s s'"
      using array_setMode_alike [of s d "xs ! i"] n(1) by auto
    with n show ?thesis by (simp add: array_getProperty_def andThen_def members_of_Some pass_def)
  next
    case False
    then have "snd (array_getProperty d i s) = s"
      by (auto simp: array_getProperty_def andThen_def members_of_def look_at_def fail_def pass_def
          split: option.split held.split)
    then show ?thesis by simp
  qed
qed

text \<open>What clients get from values: an instance, a copy of it, and the object it is written as.\<close>

definition intact :: "'t pdf \<Rightarrow> bool" where
  "intact s \<longleftrightarrow> treed (mem s) \<and> sound (shape (mem s))"

lemma built_intact: "intact s \<Longrightarrow> built P (mem s) m bs vs \<Longrightarrow> intact (s\<lparr>mem := m\<rparr>)"
  using builtD [of P "mem s" m bs vs] grown_sound [of "mem s" m] by (simp add: intact_def)

lemma make_instance_spec:
  assumes "intact s" "plain v"
  obtains a m where "make_instance T v s = (Inr a, s\<lparr>mem := m\<rparr>)" "built loose (mem s) m [a] [v]"
proof -
  have m: "mine None = loose" by (rule ext) (simp add: mine_def)
  show ?thesis
    using create_spec(1) [of "mem s" v "\<lambda>q. fst (fetch_obj T (xtab s) q)" None] assms that
    by (auto simp: intact_def make_instance_def m)
qed

lemma clone_instance_spec:
  assumes "intact s" "rep (shape (mem s)) a v"
  obtains c m where "clone_of a s = (Inr c, s\<lparr>mem := m\<rparr>)" "built loose (mem s) m [c] [v]"
  by (rule clone_of_spec [of s a v]) (use assms rep_plain in \<open>auto simp: intact_def\<close>)

lemma write_instance_spec:
  assumes "intact s" "rep (shape (mem s)) a v"
  obtains s' where "makeXpdfObject T (Suc (limit (mem s))) a s = (Inr v, s')" "alike s s'"
  using make_spec(1) [of s a v "Suc (limit (mem s))" T] assms by (auto simp: intact_def)

context prop_store
begin

lemma client_ok:
  assumes ok: "ok {} s" and safe: "client_safe (shape (mem s)) c"
  shows "ok {} (snd (client_run T c s))"
proof (cases c)
  case (Look_up r)
  have "ok {} (snd (getIndirectProperty T r s))"
  proof (cases "indMap s r")
    case None
    obtain a s' where "getIndirectProperty T r s = (Inr a, s')" "ok {} s'" by (rule getIndirect_spec [OF ok None])
    then show ?thesis by simp
  qed (use mapped [OF ok] ok in simp)
  with Look_up show ?thesis by (simp add: andThen_unit)
next
  case (Read_key d k)
  with alike_ok [OF ok reading_alike(1)] show ?thesis by (simp add: andThen_unit)
next
  case (Read_item d i)
  with alike_ok [OF ok reading_alike(2)] show ?thesis by (simp add: andThen_unit)
next
  case (Make v)
  have "intact s" using doc_okD(1,2) [OF ok] by (simp add: intact_def)
  then obtain a m where "make_instance T v s = (Inr a, s\<lparr>mem := m\<rparr>)" "built loose (mem s) m [a] [v]"
    using make_instance_spec safe Make by (metis client_safe.simps(1))
  with Make built_ok [OF ok] show ?thesis by (simp add: andThen_unit)
next
  case (Copy a)
  have i: "intact s" using doc_okD(1,2) [OF ok] by (simp add: intact_def)
  have "ok {} (snd (clone_of a s))"
  proof (cases "cells (mem s) a")
    case None
    then show ?thesis using ok by (simp add: clone_of_dead)
  next
    case (Some n)
    then have "shape (mem s) a = Some (held n)" by (simp add: shape_def)
    with rep_exists [of "shape (mem s)" "limit (mem s)" a] i obtain v where "rep (shape (mem s)) a v"
      by (auto simp: intact_def treed_def)
    from clone_instance_spec [OF i this] built_ok [OF ok] show ?thesis by (metis snd_conv)
  qed
  with Copy show ?thesis by (simp add: andThen_unit)
next
  case (Change d e)
  with edits_run [OF ok, of d e] safe show ?thesis by (auto simp: edits_def)
qed

lemma session_ok:
  assumes "session T s0 s" "ok {} s0"
  shows "ok {} s"
  using assms(1)
proof induction
  case (run s c res s')
  from client_ok [OF run.IH run.hyps(2)] run.hyps(3) show ?case by simp
next
  case (bytes s r a buf res s')
  from setRawBuffer_ok [OF bytes.IH bytes.hyps(2,3)] bytes.hyps(4) show ?case by simp
qed (rule assms(2))

text \<open>No instance is in two trees of indirect objects.\<close>

lemma one_owner:
  assumes ok: "ok {} s" and a: "indMap s r = Some a" "indMap s q = Some b"
    and d: "reach (shape (mem s)) a d" "reach (shape (mem s)) b d"
  shows "r = q"
proof -
  have ab: "a = b" by (rule unique_root [OF ok a d])
  from root_okD(2) [OF doc_okD(4) [OF ok a(1)]] obtain n where n: "cells (mem s) a = Some n" "held n \<noteq> Simple XNull"
    by (auto simp: shape_Some)
  from root_okD(4) [OF doc_okD(4) [OF ok a(1)] _ n(1)] root_okD(4) [OF doc_okD(4) [OF ok a(2)] _ n(1) [unfolded ab]] n(2) ab
  show ?thesis by (simp add: owned_by_def)
qed

end

section \<open>The table of an open document\<close>

definition xw_props :: "xref_writer prop_table" where
  "xw_props =
     \<lparr>no_credentials = (\<lambda>x. needs_credentials (base x)), is_linearized = linearized,
      is_latest = isLatestRevision, is_read_only = (\<lambda>x. pdf_mode x = Some ReadOnly),
      is_encrypted = (\<lambda>x. encrypted (base x)), fetch_obj = xw_fetch deep_copy,
      change_obj = xw_changeObject deep_copy\<rparr>"

definition xw_value :: "xref_writer \<Rightarrow> ref \<Rightarrow> xobj" where
  "xw_value x r = (case xw_read x r of Inr v \<Rightarrow> v | Inl e \<Rightarrow> XNull)"

text \<open>
  A document that can be edited: the latest revision is open, without a password, every object of it
  can be read and is of the document model, an object that is there is known, and no indirect object is
  only a reference.
\<close>

definition xw_ready :: "xref_writer \<Rightarrow> bool" where
  "xw_ready x \<longleftrightarrow> xw_good x \<and> \<not> encrypted (base x) \<and>
     (\<forall>r. \<exists>v. xw_read x r = Inr v \<and> plain v \<and> getType v \<noteq> objRef \<and>
        (v \<noteq> XNull \<longrightarrow> isRefValid r \<and> xw_taken x r))"

lemma xw_readyD:
  assumes "xw_ready x"
  shows "xw_good x" "\<not> encrypted (base x)" "xw_read x r = Inr (xw_value x r)" "plain (xw_value x r)"
    "getType (xw_value x r) \<noteq> objRef" "xw_value x r \<noteq> XNull \<Longrightarrow> isRefValid r" "xw_value x r \<noteq> XNull \<Longrightarrow> xw_taken x r"
proof -
  from assms obtain v where "xw_read x r = Inr v" "plain v" "getType v \<noteq> objRef"
    "v \<noteq> XNull \<longrightarrow> isRefValid r \<and> xw_taken x r" unfolding xw_ready_def by blast
  then show "xw_read x r = Inr (xw_value x r)" "plain (xw_value x r)" "getType (xw_value x r) \<noteq> objRef"
    "xw_value x r \<noteq> XNull \<Longrightarrow> isRefValid r" "xw_value x r \<noteq> XNull \<Longrightarrow> xw_taken x r"
    by (simp_all add: xw_value_def)
qed (use assms in \<open>simp_all add: xw_ready_def\<close>)

text \<open>Reading leaves such a table as it is.\<close>

lemma xw_fetch_ready:
  assumes "xw_ready x"
  shows "xw_fetch deep_copy x r = (Inr (xw_value x r), x)"
proof -
  note g = xw_readyD(1) [OF assms, unfolded xw_good_def]
  obtain v x' where f: "xw_fetch deep_copy x r = (v, x')" by force
  from xw_fetch_frame [OF f] obtain b where b: "x' = x\<lparr>base := (base x)\<lparr>ok := b\<rparr>\<rparr>" by blast
  have v: "v = Inr (xw_value x r)" using xw_readyD(3) [OF assms, of r] f by (simp add: xw_read_def)
  have "ok (base x')"
    using f v g by (auto simp: xw_fetch_def cxref_fetch_def split: if_splits option.splits prod.splits)
  with b g have "x' = x" by simp
  with f v show ?thesis by simp
qed

lemma xw_paranoid_ready:
  assumes r: "xw_ready x" and t: "xw_taken x q" "getType v = getType (xw_value x q)"
  shows "paranoidCheck deep_copy x q v = (Inr True, x)"
proof -
  have "getType (xw_value x q) \<noteq> objRef" by (rule xw_readyD(5) [OF r])
  then have d: "deref (xw_fetch deep_copy) x (xw_value x q) = (Inr (xw_value x q), x)"
    "deref (xw_fetch deep_copy) x v = (Inr v, x)"
    using t(2) by (auto simp: deref_def split: xobj.splits)
  have "typeSafe (xw_fetch deep_copy) x (Some (xw_value x q)) (Some v) = (Inr True, x)"
    using d t(2) by (simp add: typeSafe_def)
  with t(1) show ?thesis by (auto simp: paranoidCheck_def xw_taken_def xw_fetch_ready [OF r])
qed

interpretation xp: prop_store xw_props xw_value xw_ready
proof unfold_locales
  fix x r assume r: "xw_ready x"
  show "\<exists>t'. fetch_obj xw_props x r = (Inr (xw_value x r), t') \<and> xw_value t' = xw_value x \<and> xw_ready t' \<and>
      flags xw_props t' = flags xw_props x"
    using xw_fetch_ready [OF r] r by (simp add: xw_props_def)
  show "\<not> no_credentials xw_props x \<and> \<not> is_encrypted xw_props x"
    using xw_readyD(1,2) [OF r] by (simp add: xw_props_def xw_good_def)
  show "plain (xw_value x r)" by (rule xw_readyD(4) [OF r])
  show "\<not> isRefValid r \<Longrightarrow> xw_value x r = XNull" using xw_readyD(6) [OF r] by blast
next
  fix x r v
  assume x: "xw_ready x" "\<not> is_read_only xw_props x" "isRefValid r" "plain v" "getType v = getType (xw_value x r)"
    "v \<noteq> XNull"
  have "xw_value x r \<noteq> XNull" using x(5,6) null_type by metis
  then have t: "xw_taken x r" by (rule xw_readyD(7) [OF x(1)])
  note g = xw_readyD(1) [OF x(1)]
  obtain old b where c: "cxref_changeObject deep_copy (base x) r v = (Inr old, b)"
    using g by (cases "storage_put (changedStorage (base x)) r v")
      (simp add: cxref_changeObject_def xw_good_def deep_copy_def Let_def)
  let ?x = "x\<lparr>base := b\<rparr>"
  have run: "xw_changeObject deep_copy x r v = (Inr (), ?x)"
    using g x(2) xw_readyD(2) [OF x(1)] xw_paranoid_ready [OF x(1) t x(5)] c
    by (simp add: xw_changeObject_def revision_error_def xw_good_def xw_props_def)
  have law: "xw_read ?x = (xw_read x)(r := Inr v) \<and> xw_taken ?x = xw_taken x \<and> xw_good ?x"
    by (rule xw.change [OF g, of r v "()"]) (simp add: xw_table_def run)
  then have val: "xw_value ?x = (xw_value x)(r := v)" by (auto simp: xw_value_def)
  have e: "encrypted b = encrypted (base x)" "needs_credentials b = needs_credentials (base x)"
    using c by (cases rule: cxref_changeObject_cases; simp)+
  have "xw_ready ?x"
    unfolding xw_ready_def
  proof (intro conjI allI)
    fix q
    show "\<exists>w. xw_read ?x q = Inr w \<and> plain w \<and> getType w \<noteq> objRef \<and> (w \<noteq> XNull \<longrightarrow> isRefValid q \<and> xw_taken ?x q)"
      using law x(3-5) t xw_readyD(3-7) [OF x(1), of q] xw_readyD(5) [OF x(1), of r] by (cases "q = r") simp_all
  qed (use law e xw_readyD(2) [OF x(1)] in simp_all)
  moreover have "flags xw_props ?x = flags xw_props x"
    using e by (simp add: flags_def xw_props_def isLatestRevision_def)
  ultimately show "\<exists>t'. change_obj xw_props x r v = (Inr (), t') \<and> xw_value t' = (xw_value x)(r := v) \<and> xw_ready t' \<and>
      flags xw_props t' = flags xw_props x"
    using run val by (intro exI [of _ ?x]) (simp add: xw_props_def)
qed

section \<open>An open document\<close>

definition opened :: "xref_writer \<Rightarrow> (string \<Rightarrow> string \<Rightarrow> property_mode) option \<Rightarrow> xref_writer pdf" where
  "opened x mc =
     \<lparr>mem = \<lparr>cells = Map.empty, limit = 0\<rparr>, indMap = \<lambda>r. None, xtab = x, changed = False, notices = [],
      modeController = mc\<rparr>"

lemma opened_ok: "xw_ready x \<Longrightarrow> doc_ok xw_value xw_ready {} (opened x mc)"
  by (simp add: doc_ok_def opened_def treed_def forest_def sound_def shape_def edge_def)






section \<open>Witnesses\<close>

lemma sample_read:
  "xw_read sample_xw r =
     Inr (if r = Ref 1 0 then XDict [(''Type'', XName ''Catalog'')] else if r = Ref 3 0 then XInt 7 else XNull)"
proof (cases r)
  case (Ref num gen)
  have l: "isLatestRevision sample_xw" by (simp add: isLatestRevision_def sample_xw_def)
  have b: "base sample_xw = sample_cxref" "\<not> needs_credentials sample_cxref" "changedStorage sample_cxref = []"
    by (simp_all add: sample_xw_def sample_cxref_def)
  have f: "fst (xref_fetch sample_cxref r) =
      (if r = Ref 1 0 then XDict [(''Type'', XName ''Catalog'')] else if r = Ref 3 0 then XInt 7 else XNull) \<and>
      CXref.ok (snd (xref_fetch sample_cxref r))"
  proof (cases "num < 0 \<or> num \<ge> 5")
    case True
    then show ?thesis using Ref by (auto simp: xref_fetch_def sample_cxref_def sample_tab_def)
  next
    case False
    then have "num = 0 \<or> num = 1 \<or> num = 2 \<or> num = 3 \<or> num = 4" by arith
    then show ?thesis using Ref
      by (elim disjE) (simp_all add: xref_fetch_def sample_cxref_def sample_tab_def Let_def)
  qed
  show ?thesis
    using f b by (simp add: xw_read_def xw_fetch_latest [OF l] fst_cxref_fetch deep_copy_def)
qed

lemma sample_ready: "xw_ready sample_xw"
proof -
  have "xw_good sample_xw"
    by (simp add: xw_good_def sample_xw_def sample_cxref_def isLatestRevision_def cxref_inv_def storage_ok_def)
  moreover have "xw_taken sample_xw (Ref 1 0)" "xw_taken sample_xw (Ref 3 0)"
    by (simp_all add: xw_taken_def xw_knowsRef_def sample_xw_def isLatestRevision_def cxref_knowsRef_def
        sample_cxref_def xref_knowsRef_def sample_tab_def)
  ultimately show ?thesis
    by (simp add: xw_ready_def sample_read isRefValid_def) (simp add: sample_xw_def sample_cxref_def)
qed

lemma sample_value:
  "xw_value sample_xw r =
     (if r = Ref 1 0 then XDict [(''Type'', XName ''Catalog'')] else if r = Ref 3 0 then XInt 7 else XNull)"
  by (simp add: xw_value_def sample_read)

definition sample_doc :: "xref_writer pdf" where
  "sample_doc = (opened sample_xw None)
     \<lparr>mem := \<lparr>cells = [0 \<mapsto> new_instance (Some (Ref 1 0)) (Entries [(''Type'', 1)]),
                   1 \<mapsto> new_instance (Some (Ref 1 0)) (Simple (XName ''Catalog'')),
                   2 \<mapsto> new_instance None (Simple (XInt 3))], limit = 3\<rparr>,
      indMap := [Ref 1 0 \<mapsto> 0]\<rparr>"

lemma sample_session: "session xw_props (opened sample_xw None) sample_doc"
proof -
  let ?s1 = "(opened sample_xw None)
     \<lparr>mem := \<lparr>cells = [0 \<mapsto> new_instance (Some (Ref 1 0)) (Entries [(''Type'', 1)]),
                   1 \<mapsto> new_instance (Some (Ref 1 0)) (Simple (XName ''Catalog''))], limit = 2\<rparr>,
      indMap := [Ref 1 0 \<mapsto> 0]\<rparr>"
  have cred: "\<not> no_credentials xw_props sample_xw" by (simp add: xw_props_def sample_xw_def sample_cxref_def)
  have fetch: "fetch_obj xw_props sample_xw (Ref 1 0) = (Inr (XDict [(''Type'', XName ''Catalog'')]), sample_xw)"
    using xw_fetch_ready [OF sample_ready, of "Ref 1 0"] by (simp add: xw_props_def sample_value)
  have "getIndirectProperty xw_props (Ref 1 0) (opened sample_xw None) = (Inr 0, ?s1)"
    using cred fetch by (simp add: getIndirectProperty_def opened_def alloc_def hold_def modify_def new_instance_def fun_upd_twist)
  then have "client_run xw_props (Look_up (Ref 1 0)) (opened sample_xw None) = (Inr (), ?s1)"
    by (simp add: andThen_def pass_def)
  from session.run [OF session.start _ this] have 1: "session xw_props (opened sample_xw None) ?s1" by simp
  have "client_run xw_props (Make (XInt 3)) ?s1 = (Inr (), sample_doc)"
    by (simp add: make_instance_def alloc_def andThen_def pass_def sample_doc_def opened_def)
  from session.run [OF 1 _ this] show ?thesis by simp
qed

lemma sample_doc_ok: "doc_ok xw_value xw_ready {} sample_doc"
  by (rule xp.session_ok [OF sample_session opened_ok [OF sample_ready]])

lemma sample_doc_simps:
  "indMap sample_doc (Ref 1 0) = Some 0" "xtab sample_doc = sample_xw" "notices sample_doc = []"
  "shape (mem sample_doc) 0 = Some (Entries [(''Type'', 1)])" "shape (mem sample_doc) 2 = Some (Simple (XInt 3))"
  "rep (shape (mem sample_doc)) 2 (XInt 3)" "walk (shape (mem sample_doc)) 0 [] = Some 0"
  by (simp_all add: sample_doc_def opened_def shape_def rep_iff [of _ 2] new_instance_def)





definition stream_xw :: xref_writer where
  "stream_xw = sample_xw\<lparr>base := sample_cxref
     \<lparr>changedStorage := [(Ref 3 0, XStream [(''Length'', XInt 2)] ''ab'')]\<rparr>\<rparr>"

lemma stream_xw_read:
  "xw_read stream_xw r = (if r = Ref 3 0 then Inr (XStream [(''Length'', XInt 2)] ''ab'') else xw_read sample_xw r)"
proof -
  have l: "isLatestRevision sample_xw" "isLatestRevision stream_xw"
    by (simp_all add: isLatestRevision_def sample_xw_def stream_xw_def)
  have b: "base sample_xw = sample_cxref" "\<not> needs_credentials sample_cxref" "changedStorage sample_cxref = []"
    by (simp_all add: sample_xw_def sample_cxref_def)
  have f: "fst (xref_fetch (base stream_xw) r) = fst (xref_fetch sample_cxref r) \<and>
      CXref.ok (snd (xref_fetch (base stream_xw) r)) = CXref.ok (snd (xref_fetch sample_cxref r))"
    using xref_fetch_cong [of "base stream_xw" sample_cxref r] by (simp add: stream_xw_def)
  show ?thesis
    using f b by (simp add: xw_read_def xw_fetch_latest [OF l(1)] xw_fetch_latest [OF l(2)] fst_cxref_fetch deep_copy_def)
      (simp add: stream_xw_def deep_copy_def)
qed

lemma stream_xw_ready: "xw_ready stream_xw"
proof -
  have "xw_good stream_xw"
    by (simp add: xw_good_def stream_xw_def sample_xw_def sample_cxref_def isLatestRevision_def cxref_inv_def storage_ok_def)
  moreover have "xw_taken stream_xw r = xw_taken sample_xw r" for r
    by (simp add: xw_taken_def xw_knowsRef_def stream_xw_def sample_xw_def isLatestRevision_def cxref_knowsRef_def
        sample_cxref_def xref_knowsRef_def)
  moreover have "\<not> encrypted (base stream_xw)" by (simp add: stream_xw_def sample_cxref_def)
  ultimately show ?thesis
    using xw_readyD(3-7) [OF sample_ready] unfolding xw_ready_def stream_xw_read
    by (auto simp: isRefValid_def sample_value split: if_splits)
qed


end
