(* ===== verification/Spec2Isabelle.thy ===== *)
theory Spec2Isabelle
  imports Object_Storage Xpdf_Object CXref Cobject_String Stream_Writer Pdf_Writer Old_Style_Writer Document_Writers XRef_Writer
    Page_Tree Page_List Page_Consolidation Page_Editing Operator_Table Operator_List Content_Editing Content_Parser Parsed_Content Object_Import
    Property_Tree Property_Values Property_Document Property_Changes Property_Editing Property_Operations Property_Streams Property_Sessions
begin

text \<open>
  A verification development for the kernel of pdfedit, the editor of PDF documents
  (\<^verbatim>\<open>src/src/kernel\<close> and the templates of \<^verbatim>\<open>src/src/utils\<close> it uses).

  \<^bold>\<open>The program.\<close>  The kernel reads a document through the xpdf library, keeps the changes the user
  makes on top of what it has read, and writes them back.  At the bottom is \<^verbatim>\<open>CXref\<close>, the cross
  reference table of the file with a layer of changed and new objects (both held in an
  \<^verbatim>\<open>ObjectStorage\<close>) and of reserved references.  \<^verbatim>\<open>XRefWriter\<close> is the table of an open document: it
  guards the changes by the state of the document, checks their types, moves between the revisions of
  the file and saves an incremental update through a \<^verbatim>\<open>FileStreamWriter\<close> and an
  \<^verbatim>\<open>IPdfWriter\<close> (\<^verbatim>\<open>OldStylePdfWriter\<close>), which writes objects with the filters of \<^verbatim>\<open>pdfwriter.cc\<close>, the
  table and the trailer.  \<^verbatim>\<open>PdfDocumentWriter\<close> writes whole documents with the same writer, as
  \<^verbatim>\<open>Delinearizator\<close> (every used object) or as \<^verbatim>\<open>Flattener\<close> (what the trailer reaches).  Above the
  table \<^verbatim>\<open>CPdf\<close> interprets the page tree, hands out pages and keeps their list true when pages are
  inserted and removed; it adds new indirect objects and copies objects of other documents.  Objects are
  edited as instances of \<^verbatim>\<open>IProperty\<close>, whose changes are dispatched to the table.  A page has a \<^verbatim>\<open>CContentStream\<close>, which parses the streams of its contents to
  operators that are at once the nodes of a tree and the items of a list, changes them and writes
  them back.

  \<^bold>\<open>The theories.\<close>
  \<^item> \<open>Prelude\<close>: the exceptions of \<^verbatim>\<open>exceptions.h\<close> as values, results (\<open>exn + 'a\<close>: every throw is an
    \<open>Inl\<close>) with \<open>rbind\<close> and \<open>guard\<close>, lists and numerals.
  \<^item> \<open>Object_Storage\<close>: \<^verbatim>\<open>utils/objectstorage.h\<close>; the contract of a finite map is the locale
    \<open>object_storage\<close>, which the storage of references interprets.
  \<^item> \<open>Xpdf_Object\<close>: the values of xpdf (\<^verbatim>\<open>Object.h\<close>, \<^verbatim>\<open>Dict.cc\<close>) as the datatype \<open>xobj\<close>.
  \<^item> \<open>CXref\<close>: \<^verbatim>\<open>cxref.cc\<close>; the record \<open>cxref\<close> has the maps of the class, one function per method.  The
    invariant, and the locale \<open>object_table\<close> of a table of changeable objects.
  \<^item> \<open>Cobject_String\<close>: \<^verbatim>\<open>cobject2string.cc\<close> and the readers of the lexer; texts are read back.
  \<^item> \<open>Stream_Writer\<close>, \<open>Pdf_Writer\<close>, \<open>Old_Style_Writer\<close>: \<^verbatim>\<open>streamwriter.cc\<close> and \<^verbatim>\<open>pdfwriter.cc\<close>; the file
    is a string and a position.  Offsets, subsections, rows, trailer and progress.
  \<^item> \<open>Document_Writers\<close>: \<^verbatim>\<open>delinearizator.cc\<close>, \<^verbatim>\<open>flattener.cc\<close>; the batches of both are instances
    of the locale \<open>object_filler\<close>.
  \<^item> \<open>XRef_Writer\<close>: \<^verbatim>\<open>xrefwriter.cc\<close> with \<^verbatim>\<open>save\<close> and \<^verbatim>\<open>clone\<close> of \<^verbatim>\<open>cpdf.cc\<close>.
  \<^item> \<open>Page_Tree\<close>, \<open>Page_List\<close>, \<open>Page_Consolidation\<close>, \<open>Page_Editing\<close>: the page tree part of \<^verbatim>\<open>cpdf.cc\<close>.
    The function \<open>pages_of\<close> reads a tree as the list of its leaves; counting, searching,
    consolidation, insertion and removal are measured against it.
  \<^item> \<open>Operator_Table\<close>: \<^verbatim>\<open>stateupdater.cc\<close>, the table of known operators and the check of operands.
  \<^item> \<open>Operator_List\<close>: \<^verbatim>\<open>pdfoperatorsbase.cc\<close>, \<^verbatim>\<open>pdfoperators.h\<close>, \<^verbatim>\<open>iterator.h\<close>, \<^verbatim>\<open>listitem.h\<close>; a
    store of operators by address.  \<open>content_ok\<close> says that the list is the preorder of the tree.
  \<^item> \<open>Content_Editing\<close>: the changes of \<^verbatim>\<open>ccontentstream.cc\<close> as operations on that tree.
  \<^item> \<open>Content_Parser\<close>, \<open>Parsed_Content\<close>: the parser of \<^verbatim>\<open>ccontentstream.cc\<close> and what it builds.
  \<^item> \<open>Object_Import\<close>: the part of \<^verbatim>\<open>cpdf.cc\<close> that adds indirect objects, with what they refer to when
    they come from another document.  The table it works on is the locale \<open>object_pool\<close>, which the
    table of an open document interprets.
  \<^item> \<open>Property_Tree\<close>: \<^verbatim>\<open>iproperty.cc\<close>, \<^verbatim>\<open>cobjectsimpleI.h\<close>, \<^verbatim>\<open>carray.cc\<close>, \<^verbatim>\<open>cdict.cc\<close>,
    \<^verbatim>\<open>cstream.cc\<close>, the readers of \<^verbatim>\<open>cobject2xpdf.cc\<close> and the cache of instances of \<^verbatim>\<open>cpdf.cc\<close>.  The
    instances are nodes of a memory by address, one function per method.
  \<^item> \<open>Property_Values\<close>: what value an instance has (\<open>rep\<close>), and what cloning, making and marking a tree do.
  \<^item> \<open>Property_Document\<close>: the invariant \<open>doc_ok\<close> that instances and table agree, and the locale \<open>prop_store\<close>
    of the table with dispatching.
  \<^item> \<open>Property_Changes\<close>, \<open>Property_Editing\<close>, \<open>Property_Operations\<close>, \<open>Property_Streams\<close>: one change of an
    instance, first in general and then for every operation: it keeps \<open>doc_ok\<close> and does to the object in
    the table, at the place of the instance, what it says.
  \<^item> \<open>Property_Sessions\<close>: clients as a relation over states, and the interpretation of \<open>prop_store\<close> on the
    table of an open document, whose changes pass the type check of \<^verbatim>\<open>XRefWriter\<close>.

  \<^bold>\<open>Bounds and fuel.\<close>  Loops over what may be a circle in the memory of the program (the walks of
  the iterators, \<^verbatim>\<open>getLastOperator\<close>, \<^verbatim>\<open>opsSetPdfRefCs\<close>) are partial functions with values in
  \<open>option\<close>; that they return is proved under \<open>content_ok\<close>.  The traversal of the flattener and the
  batches of the document writers have fuel; that one unit more than the table has entries is enough
  is proved for both.  The recursions over the page tree have fuel for its
  depth: a tree that \<open>pages_of\<close> can read with some fuel is searched with the same fuel, and a tree with a
  circle has no such reading, as the program does not return from it.  The parser of content streams has
  fuel \<open>2 * length items + 2\<close>, as every second nested call takes an item off the input, and never runs out.
  The recursive methods of instances have the number of addresses as fuel, as members are younger than
  their containers; that they return is part of what is proved of them.

  \<^bold>\<open>Parameters.\<close>  What is not code of this repository's own kernel is an argument: the
  compression of zlib and the decoding filters, the parser of objects and of cross reference
  sections, the text of a stream object inside an array, the reader of content streams (as the
  sequence of objects and characters it delivers).

  \<^bold>\<open>Not modelled.\<close>  Input and output errors of the operating system; the user interface, its script
  engine and the tools; rendering, fonts, bounding boxes and text extraction, which are floating
  point code over xpdf; the registration of observers (their calls are modelled where they change
  the state of the kernel); the parser of xpdf and poppler; the parser
  state of an open stream; reference counting, where an expired weak
  pointer is one whose address the store does not hold.
\<close>

end
